(* ===== verification/Dt_Prelude.thy ===== *)
theory Dt_Prelude
  imports Main "HOL-Library.Word" "HOL-Library.Multiset" "HOL-Library.Monad_Syntax"
begin

text \<open>
  Shared material of the development: the widths of the C integers, the error
  numbers, the simplification collections, and the generic facts on lists and
  words that the component theories use.

  Conventions.  C \<^verbatim>\<open>uint32_t\<close> and \<^verbatim>\<open>uint64_t\<close> (and \<^verbatim>\<open>size_t\<close>,
  \<^verbatim>\<open>uintptr_t\<close> on an LP64 machine) are words, so that \<open>+\<close> and \<open>-\<close> wrap as
  they do in C.  C \<^verbatim>\<open>int\<close> counters, ranks and error codes are \<^typ>\<open>int\<close>; table
  sizes and table positions are \<^typ>\<open>nat\<close>.
\<close>

type_synonym u8 = "8 word"
type_synonym u32 = "32 word"
type_synonym u64 = "64 word"

subsection \<open>Error numbers (errno.h, Linux values)\<close>

abbreviation (input) "EPERM \<equiv> (1 :: int)"
abbreviation (input) "ENOENT \<equiv> (2 :: int)"
abbreviation (input) "ESRCH \<equiv> (3 :: int)"
abbreviation (input) "EIO \<equiv> (5 :: int)"
abbreviation (input) "EAGAIN \<equiv> (11 :: int)"
abbreviation (input) "ENOMEM \<equiv> (12 :: int)"
abbreviation (input) "EEXIST \<equiv> (17 :: int)"
abbreviation (input) "EINVAL \<equiv> (22 :: int)"
abbreviation (input) "EDEADLK \<equiv> (35 :: int)"
abbreviation (input) "EOPNOTSUPP \<equiv> (95 :: int)"

subsection \<open>Collections\<close>

text \<open>
  \<open>dtq_ops\<close> unfolds the operations of the local queues, \<open>mgr_ops\<close> the small
  helpers of the manager, \<open>shm_ops\<close> those of the shared memory code.
\<close>

named_theorems dtq_ops \<open>definitions of the queue operations\<close>
named_theorems mgr_ops \<open>definitions of the manager's helpers\<close>
named_theorems shm_ops \<open>definitions of the shared memory helpers\<close>

subsection \<open>Lists\<close>

lemma mset_remove1_add [simp]:
  "x \<in> set xs \<Longrightarrow> add_mset x (mset (remove1 x xs)) = mset xs"
  by (induction xs) auto

lemma find_Some_mem: "List.find P xs = Some x \<Longrightarrow> x \<in> set xs \<and> P x"
  by (auto simp: find_Some_iff)

lemma nth_list_update_if: "j < length xs \<Longrightarrow> xs[i := x] ! j = (if i = j then x else xs ! j)"
  by (cases "i = j") auto

lemma length_filter_list_update:
  assumes "i < length xs"
  shows "length (filter P (xs[i := y])) + (if P (xs ! i) then 1 else 0)
       = length (filter P xs) + (if P y then 1 else 0)"
  using assms
proof (induction xs arbitrary: i)
  case Nil
  then show ?case by simp
next
  case (Cons x xs)
  then show ?case by (cases i) auto
qed

lemma all_nth_list_updateI:
  assumes "\<forall>j < length xs. P j (xs ! j)" "P i y"
  shows "\<forall>j < length (xs[i := y]). P j (xs[i := y] ! j)"
  using assms by (cases "i < length xs") (auto simp: nth_list_update)

lemma mset_set_upt_Suc [simp]: "mset_set {0..<Suc n} = add_mset n (mset_set {0..<n})"
  by (simp add: atLeastLessThanSuc)

lemma int_add_eq_0_iff [simp]: "int a + int b = 0 \<longleftrightarrow> a = 0 \<and> b = 0"
  by auto

subsection \<open>Cardinalities\<close>

lemma int_card_remove: "finite A \<Longrightarrow> p \<in> A \<Longrightarrow> int (card (A - {p})) = int (card A) - 1"
  using card_Suc_Diff1 [of A p] by linarith

lemma card_full: "finite A \<Longrightarrow> A \<subseteq> {..<n} \<Longrightarrow> A \<noteq> {..<n} \<Longrightarrow> card A < (n :: nat)"
  by (metis card_lessThan finite_lessThan psubset_card_mono psubsetI)

lemma card_less_not_full: "card A < n \<Longrightarrow> A \<noteq> {..<(n :: nat)}"
  by (metis card_lessThan less_irrefl)

subsection \<open>Integers\<close>

lemma zle_div_iff: "0 < (w :: int) \<Longrightarrow> m \<le> n div w \<longleftrightarrow> m * w \<le> n"
proof -
  assume w: "0 < w"
  have n: "n div w * w + n mod w = n" "0 \<le> n mod w" "n mod w < w" using w by simp_all
  show ?thesis
  proof
    assume "m \<le> n div w"
    then have "m * w \<le> n div w * w" using w by (simp add: mult_right_mono)
    with n show "m * w \<le> n" by linarith
  next
    assume a: "m * w \<le> n"
    show "m \<le> n div w"
    proof (rule ccontr)
      assume "\<not> m \<le> n div w"
      then have "(n div w + 1) * w \<le> m * w" using w by (intro mult_right_mono) auto
      moreover have "(n div w + 1) * w = n div w * w + w" by (simp add: algebra_simps)
      ultimately show False using n a by linarith
    qed
  qed
qed

subsection \<open>Results that may be undefined behaviour\<close>

text \<open>
  What a C function can do other than return: dereference NULL, index an array out
  of its bounds, loop forever, or shift an \<^verbatim>\<open>int\<close> out of its range.
\<close>

datatype fault = Null_deref | Out_of_bounds | Diverges | Bad_shift

type_synonym 'a res = "fault + 'a"

fun rbind :: "'a res \<Rightarrow> ('a \<Rightarrow> 'b res) \<Rightarrow> 'b res" where
  "rbind (Inl e) f = Inl e"
| "rbind (Inr a) f = f a"

fun or_fault :: "fault \<Rightarrow> 'a option \<Rightarrow> 'a res" where
  "or_fault e None = Inl e"
| "or_fault e (Some a) = Inr a"

lemma rbind_eq_Inr [simp]: "rbind x f = Inr b \<longleftrightarrow> (\<exists>a. x = Inr a \<and> f a = Inr b)"
  by (cases x) auto

lemma or_fault_eq_Inr [simp]: "or_fault e x = Inr a \<longleftrightarrow> x = Some a"
  by (cases x) auto

subsection \<open>Words\<close>

lemma unat_add_no_overflow:
  fixes a b :: "'a :: len word"
  assumes "unat a + unat b < 2 ^ LENGTH('a)"
  shows "unat (a + b) = unat a + unat b"
  using assms by (simp add: unat_word_ariths)

lemma unat_sub_le:
  fixes a b :: "'a :: len word"
  assumes "b \<le> a"
  shows "unat (a - b) = unat a - unat b"
  using assms by (simp add: unat_sub)

end
