(* ===== verification/Dt_Types.thy ===== *)
theory Dt_Types
  imports Dt_Prelude
begin

text \<open>
  The data of the program: the public types of \<^verbatim>\<open>include/dthread/dthread.h\<close>, the
  messages and requests of \<^verbatim>\<open>dt_reqmsg.h\<close>, the queue state of \<^verbatim>\<open>dt_queuing.h\<close>,
  and the thread tables and the rank state of \<^verbatim>\<open>dt_internal.h\<close>.

  Pointers to queue entries (\<^verbatim>\<open>struct dtq_mpiqentry *\<close>) are the numbers in which
  the entries were allocated; \<open>mqes\<close> is the memory they point to.  A request
  pointer is either the request embedded in a local thread table slot or a request
  malloc'd by the manager, for which \<open>ireqs\<close> is the memory.  A NULL pointer is
  \<open>None\<close>.
\<close>

subsection \<open>Handles, shared memory references, arguments (dthread.h)\<close>

record dthread_t =
  dt_index :: u32
  dt_seq :: u32

record dthread_shmref_t =
  dt_shmid :: u64
  dt_offset :: u64
  dt_length :: u64

datatype dthread_argret_u = Dt_inline "u8 list" | Dt_shm dthread_shmref_t

record dthread_argret_t =
  dt_argret_type :: u32
  dt_inlinelen :: u32
  dt_u :: dthread_argret_u

abbreviation "DTHREAD_NODATA \<equiv> (1 :: u32)"
abbreviation "DTHREAD_INLINE \<equiv> (2 :: u32)"
abbreviation "DTHREAD_SHMREF \<equiv> (3 :: u32)"
abbreviation "DTHREAD_CANCELED \<equiv> (4 :: u32)"

text \<open>
  Dispatch table entries.  The start function is known by its address; the proc
  functions are application code: given the operation, the pointee of the argret
  pointer and the pointee of the \<^verbatim>\<open>void **\<close> (\<open>None\<close> for NULL) they return an error
  code and the two pointees after the call.
\<close>

datatype procop = DTHREAD_PROC_ENCODE | DTHREAD_PROC_DECODE | DTHREAD_PROC_FREE

type_synonym dthread_proc_pth_t =
  "procop \<Rightarrow> dthread_argret_t option \<Rightarrow> u64 option \<Rightarrow>
     int \<times> dthread_argret_t option \<times> u64 option"

record dthread_dispatch_t =
  dt_dispname :: string
  dt_st :: u64
  dt_argproc :: "dthread_proc_pth_t option"
  dt_retproc :: "dthread_proc_pth_t option"

text \<open>The fields of \<^verbatim>\<open>pthread_attr_t\<close> that the library reads or writes.\<close>

record dthread_attr_t =
  attr_detached :: bool
  attr_stackaddr :: u64
  attr_stacksize :: u64
  attr_explicit_sched :: bool
  attr_schedpolicy :: int
  attr_schedparam :: int

subsection \<open>Operations and messages (dt_reqmsg.h)\<close>

datatype dtop =
    DTOP_NONE | DTOP_CREATE | DTOP_CREATED | DTOP_START | DTOP_STARTED
  | DTOP_DETACH | DTOP_DETACHED | DTOP_CANCEL | DTOP_CANCELED
  | DTOP_JOIN | DTOP_JOINED | DTOP_JOINWAIT | DTOP_RETCLEAN
  | DTOP_TERMINATED | DTOP_APP0_RET | DTOP_BCASTSHUTDOWN

datatype dtreq_state = DTREQ_IDLE | DTREQ_BUSY | DTREQ_DONE | DTREQ_INTERNAL

text \<open>State of a local pthread (\<^verbatim>\<open>LT_*\<close>), in the order of the constants.\<close>

datatype lt_state =
    LT_NONE | LT_STARTING | LT_RUNNING | LT_RETURNED | LT_EXITED | LT_CANCELED | LT_CLEANUP

fun LT_NEED_FINALSTATE :: "lt_state \<Rightarrow> bool" where
  "LT_NEED_FINALSTATE LT_NONE = True"
| "LT_NEED_FINALSTATE LT_STARTING = True"
| "LT_NEED_FINALSTATE LT_RUNNING = True"
| "LT_NEED_FINALSTATE _ = False"

text \<open>
  A message frame as the receiver decodes it: the constructor is the operation code
  of the header, its arguments are the fields after the header.  \<open>Dtmsg_other\<close> is
  a header whose code has no message (\<^verbatim>\<open>DTOP_NONE\<close>, the request-only codes and every
  unknown number).  The final state in a TERMINATED message is one of the \<^verbatim>\<open>LT_*\<close> constants, which
  is what the library sends; in the frame it is a \<^verbatim>\<open>uint32_t\<close>, and a receiver that is sent another
  number only compares it with these constants.
\<close>

datatype dtmsg_body =
    Dtmsg_create dthread_attr_t u32 dthread_argret_t
  | Dtmsg_created int dthread_t
  | Dtmsg_start dthread_t dthread_attr_t
  | Dtmsg_started int
  | Dtmsg_detach dthread_t
  | Dtmsg_detached int
  | Dtmsg_cancel dthread_t
  | Dtmsg_canceled int
  | Dtmsg_join dthread_t
  | Dtmsg_joined int dthread_argret_t
  | Dtmsg_terminated dthread_t lt_state
  | Dtmsg_bcastshutdown
  | Dtmsg_other u32

record dtmsg =
  msg_xidseq :: u32
  msg_body :: dtmsg_body

record dtq_mpiqentry =
  frame :: dtmsg
  flen :: int
  peer :: int

text \<open>
  Sizes of the message structures under the LP64 layout rules, \<open>A\<close> being
  \<^verbatim>\<open>sizeof(pthread_attr_t)\<close>, a multiple of 8: header 8, handle 8, int 4, argret 72 with
  alignment 8.  \<open>dtmsg_all_size\<close> is the size of \<^verbatim>\<open>union dtmsg_all\<close>, member by member
  as the source lists them (\<open>detached\<close> and \<open>joined\<close> have the types of the
  corresponding requests there).
\<close>

fun sizeof_body :: "int \<Rightarrow> dtmsg_body \<Rightarrow> int" where
  "sizeof_body A (Dtmsg_create _ _ _) = 8 + A + 4 + 4 + 72"
| "sizeof_body A (Dtmsg_created _ _) = 8 + 4 + 8"
| "sizeof_body A (Dtmsg_start _ _) = 8 + 8 + A"
| "sizeof_body A (Dtmsg_started _) = 8 + 4"
| "sizeof_body A (Dtmsg_detach _) = 8 + 8"
| "sizeof_body A (Dtmsg_detached _) = 8 + 4"
| "sizeof_body A (Dtmsg_cancel _) = 8 + 8"
| "sizeof_body A (Dtmsg_canceled _) = 8 + 4"
| "sizeof_body A (Dtmsg_join _) = 8 + 8"
| "sizeof_body A (Dtmsg_joined _ _) = 8 + 4 + 4 + 72"
| "sizeof_body A (Dtmsg_terminated _ _) = 8 + 8 + 4"
| "sizeof_body A Dtmsg_bcastshutdown = 8"
| "sizeof_body A (Dtmsg_other _) = 8"

definition dtmsg_all_size :: "int \<Rightarrow> int" where
  "dtmsg_all_size A = Max (set
     [8, 8 + A + 4 + 4 + 72, 8 + 4 + 8 , 8 + 8 + A, 8 + 4, 8 + 8, 8 + 8, 8 + 8, 8 + 4, 8 + 8, 8 + 8, 8 + 8 + 4])"

abbreviation sizeof_pthread_attr_t :: int where "sizeof_pthread_attr_t \<equiv> 56"

abbreviation sizeof_hdr :: int where "sizeof_hdr \<equiv> 8"

definition sizeof_dtmsg :: "dtmsg_body \<Rightarrow> int" where
  "sizeof_dtmsg b = sizeof_body sizeof_pthread_attr_t b"

subsection \<open>Requests (dt_reqmsg.h)\<close>

record dthread_createinfo_t =
  c_thread :: dthread_t
  c_peer :: int
  c_xidseq :: u32

datatype reqptr = Ltab_req nat | Int_req nat

text \<open>
  The union \<^verbatim>\<open>u\<close> of a request is kept as one field per member: every operation
  reads only the member that was written for its operation code.  \<open>req_retval\<close> is
  the cell that \<^verbatim>\<open>u.retval\<close> points to in the memory of the blocked thread.
\<close>

record dthread_request_t =
  req_ltabidx :: int
  reqstate :: dtreq_state
  reqpeer :: int
  reqop :: dtop
  req_mqe :: "nat option"
  xidseq :: u32
  reqerror :: int
  req_newdthread :: dthread_t
  req_retval :: "dthread_argret_t option"
  req_creinfo :: dthread_createinfo_t
  req_waitthread :: dthread_t

subsection \<open>Queue state (dt_queuing.h)\<close>

datatype dtq_dd = DTQ_DD_INIT | DTQ_DD_DRAINING | DTQ_DD_DRAINED

text \<open>
  \<open>mgr_blocked\<close> is the state of the condition variable \<^verbatim>\<open>mgr_notify\<close>: the manager is
  blocked on it and has not been signalled.  \<open>mallocs\<close> is the environment: the
  outcomes of the coming malloc calls made under the queue lock (success once the
  list is used up).
\<close>

record dtq_state =
  mgrreqq :: "reqptr list"
  mgrrqlen :: int
  mgrmaxrqlen :: int
  mgr_blocked :: bool
  notifytimelimit :: int
  nreq :: nat
  reqfree :: "reqptr list"
  mpisendq :: "nat list"
  mpisqlen :: int
  mpimaxsqlen :: int
  mpindequeuedsends :: int
  mpisq_draindown :: dtq_dd
  mpirecvq :: "nat list"
  mpirqlen :: int
  mpimaxrqlen :: int
  nloop :: int
  nmqe :: nat
  mqefree :: "nat list"
  mallocs :: "bool list"

subsection \<open>Thread tables, manager state and rank state (dt_internal.h, dt_mgrthread.c)\<close>

record dthread_gtab_t =
  gt_allocated :: bool
  gt_rank :: int
  gt_seq :: u32
  gt_disp_idx :: u32
  gt_arg :: dthread_argret_t
  gt_ret :: dthread_argret_t
  gt_detached :: bool
  gt_terminated :: lt_state
  gt_has_ltab :: bool
  gt_ltab_idx :: nat

record dthread_ltab_t =
  lt_gtab_idx :: u32
  lt_seq :: u32
  lt_pth :: nat
  lt_pth_state :: lt_state
  lt_req :: dthread_request_t

record dt_mgrstate =
  draining :: bool
  rpending :: "reqptr list"
  mg_ltab_alloc :: int
  ltab_lastslot :: nat
  app0exitval :: int
  threads_alloc :: int
  threads_starting :: int
  threads_running :: int
  last_slot :: nat
  next_rank :: int

text \<open>
  The rank state: \<^verbatim>\<open>dthread_dtrs_t\<close> without its shared memory mappings (which are
  in the shared memory theories), the manager's private state, the memory of the
  queue entries and of the malloc'd requests, and the environment of the rank:
  \<open>junk\<close>, \<open>junk_index\<close> and \<open>junk_seq\<close> are the contents of frame bytes that a handler
  leaves unwritten, \<open>npth\<close> the number of pthreads created (a pthread is known by its
  number), \<open>pth_creates\<close> the results of the coming \<^verbatim>\<open>pthread_create\<close> calls (0 once
  the list is used up), \<open>pth_cancels\<close> the threads that \<^verbatim>\<open>pthread_cancel\<close> was called on.
\<close>

record dtrs =
  mpi_rank :: int
  mpi_wsize :: int
  seqsrc :: u32
  dsps :: "dthread_dispatch_t list"
  nmaxthread :: nat
  gtab :: "dthread_gtab_t list"
  ltab :: "dthread_ltab_t list"
  dtq :: dtq_state
  mgrstate :: dt_mgrstate
  mqes :: "nat \<Rightarrow> dtq_mpiqentry"
  ireqs :: "nat \<Rightarrow> dthread_request_t"
  junk :: dthread_argret_t
  junk_index :: u32
  junk_seq :: u32
  npth :: nat
  pth_creates :: "int list"
  pth_cancels :: "nat list"

abbreviation ndsps :: "dtrs \<Rightarrow> nat" where "ndsps s \<equiv> length (dsps s)"

text \<open>Reading and writing a request through its pointer.\<close>

fun get_req :: "dtrs \<Rightarrow> reqptr \<Rightarrow> dthread_request_t" where
  "get_req s (Ltab_req i) = lt_req (ltab s ! i)"
| "get_req s (Int_req k) = ireqs s k"

fun upd_req :: "reqptr \<Rightarrow> (dthread_request_t \<Rightarrow> dthread_request_t) \<Rightarrow> dtrs \<Rightarrow> dtrs" where
  "upd_req (Ltab_req i) f s = s\<lparr>ltab := (ltab s)[i := (ltab s ! i)\<lparr>lt_req := f (lt_req (ltab s ! i))\<rparr>]\<rparr>"
| "upd_req (Int_req k) f s = s\<lparr>ireqs := (ireqs s)(k := f (ireqs s k))\<rparr>"

definition upd_gtab :: "nat \<Rightarrow> (dthread_gtab_t \<Rightarrow> dthread_gtab_t) \<Rightarrow> dtrs \<Rightarrow> dtrs" where
  [mgr_ops]: "upd_gtab i f s = s\<lparr>gtab := (gtab s)[i := f (gtab s ! i)]\<rparr>"

definition upd_ltab :: "nat \<Rightarrow> (dthread_ltab_t \<Rightarrow> dthread_ltab_t) \<Rightarrow> dtrs \<Rightarrow> dtrs" where
  [mgr_ops]: "upd_ltab i f s = s\<lparr>ltab := (ltab s)[i := f (ltab s ! i)]\<rparr>"

definition upd_mqe :: "nat \<Rightarrow> (dtq_mpiqentry \<Rightarrow> dtq_mpiqentry) \<Rightarrow> dtrs \<Rightarrow> dtrs" where
  [mgr_ops]: "upd_mqe p f s = s\<lparr>mqes := (mqes s)(p := f (mqes s p))\<rparr>"

definition upd_mgr :: "(dt_mgrstate \<Rightarrow> dt_mgrstate) \<Rightarrow> dtrs \<Rightarrow> dtrs" where
  [mgr_ops]: "upd_mgr f s = s\<lparr>mgrstate := f (mgrstate s)\<rparr>"

lemma get_upd_req_same [simp]:
  "(case r of Ltab_req i \<Rightarrow> i < length (ltab s) | Int_req _ \<Rightarrow> True) \<Longrightarrow>
   get_req (upd_req r f s) r = f (get_req s r)"
  by (cases r) auto

lemma get_upd_req_other [simp]: "r \<noteq> r' \<Longrightarrow> get_req (upd_req r f s) r' = get_req s r'"
  by (cases r; cases r') auto

lemma sizeof_create: "sizeof_dtmsg (Dtmsg_create a d g) = 144"
  by (simp add: sizeof_dtmsg_def)

text \<open>
  Every message fits the frame buffer of a queue entry, whose size is that of
  \<^verbatim>\<open>union dtmsg_all\<close>: although the union declares its \<open>joined\<close> member with the type
  of the (smaller) join request, the create message is larger than all others.
\<close>

lemma sizeof_body_le_all: "0 \<le> A \<Longrightarrow> sizeof_body A b \<le> dtmsg_all_size A"
  by (cases b) (auto simp: dtmsg_all_size_def max_def)

end
