(* ===== verification/Dt_Queuing.thy ===== *)
theory Dt_Queuing
  imports Dt_Types
begin

text \<open>
  The local queues of a rank (\<^verbatim>\<open>libdthread/dt_queuing.c\<close>): the manager's request
  queue, the MPI send and receive queues, the free lists, and the draindown protocol
  of a shutdown.  Every function holds \<^verbatim>\<open>dtqlock\<close> for its whole effect, so each is one
  atomic step on \<^typ>\<open>dtq_state\<close>; only \<^verbatim>\<open>dtq_notifywait\<close> releases the lock, while it
  is blocked, and is two steps (\<open>enter\<close> and \<open>finish\<close>).

  After the operations come: the interface \<open>fifo\<close> of a first-in first-out queue with
  its interpretations on the three queues; the step relation \<open>dtq_step\<close> of the threads
  that share the queues, with the entries each thread owns; its invariant
  \<open>dtq_inv\<close> (counters, ownership of the entries, the sleeping manager, draindown).
\<close>

subsection \<open>The operations\<close>

definition q_malloc :: "dtq_state \<Rightarrow> bool \<times> dtq_state" where
  "q_malloc q = (case mallocs q of [] \<Rightarrow> (True, q) | b # bs \<Rightarrow> (b, q\<lparr>mallocs := bs\<rparr>))"

text \<open>\<^verbatim>\<open>pthread_cond_signal(&dtrs->dtq.mgr_notify)\<close>: wakes the manager if it is blocked.\<close>

definition q_signal :: "dtq_state \<Rightarrow> dtq_state" where
  [dtq_ops]: "q_signal q = q\<lparr>mgr_blocked := False\<rparr>"

definition q_idle :: "dtq_state \<Rightarrow> bool" where
  [dtq_ops]: "q_idle q \<longleftrightarrow> mpirecvq q = [] \<and> mgrreqq q = []"

definition dtq_recv_dequeue_locked :: "dtq_state \<Rightarrow> nat option \<times> dtq_state" where
  [dtq_ops]: "dtq_recv_dequeue_locked q =
     (case mpirecvq q of
        [] \<Rightarrow> (None, q)
      | m # ms \<Rightarrow> (Some m, q\<lparr>mpirecvq := ms, mpirqlen := mpirqlen q - 1\<rparr>))"

definition dtq_req_dequeue_locked :: "dtq_state \<Rightarrow> reqptr option \<times> dtq_state" where
  [dtq_ops]: "dtq_req_dequeue_locked q =
     (case mgrreqq q of
        [] \<Rightarrow> (None, q)
      | r # rs \<Rightarrow> (Some r, q\<lparr>mgrreqq := rs, mgrrqlen := mgrrqlen q - 1\<rparr>))"

text \<open>
  \<^verbatim>\<open>dtq_notifywait\<close>: the manager blocks when there is no work.  It leaves the wait
  when it is signalled, when the time limit expires or spuriously, and then
  collects at most one message and one request.
\<close>

definition dtq_notifywait_enter :: "dtq_state \<Rightarrow> dtq_state" where
  [dtq_ops]: "dtq_notifywait_enter q = (if q_idle q then q\<lparr>mgr_blocked := True\<rparr> else q)"

definition dtq_notifywait_finish :: "dtq_state \<Rightarrow> nat option \<times> reqptr option \<times> dtq_state" where
  [dtq_ops]: "dtq_notifywait_finish q =
     (let (mqe, q) = dtq_recv_dequeue_locked (q\<lparr>mgr_blocked := False\<rparr>);
          (req, q) = dtq_req_dequeue_locked q
      in (mqe, req, q))"

definition dtq_notifytimelimit :: "int \<Rightarrow> dtq_state \<Rightarrow> dtq_state" where
  [dtq_ops]: "dtq_notifytimelimit newval q = q\<lparr>notifytimelimit := (if newval < 1 then 0 else newval)\<rparr>"

definition dtq_req_enqueue :: "reqptr \<Rightarrow> dtq_state \<Rightarrow> dtq_state" where
  [dtq_ops]: "dtq_req_enqueue req q =
     (let was_empty = q_idle q;
          q = q\<lparr>mgrreqq := mgrreqq q @ [req], mgrrqlen := mgrrqlen q + 1\<rparr>;
          q = (if mgrrqlen q > mgrmaxrqlen q then q\<lparr>mgrmaxrqlen := mgrrqlen q\<rparr> else q)
      in if was_empty then q_signal q else q)"

definition dtq_req_dequeue :: "dtq_state \<Rightarrow> reqptr option \<times> dtq_state" where
  [dtq_ops]: "dtq_req_dequeue q = dtq_req_dequeue_locked q"

definition dtq_mqe_alloc :: "dtq_state \<Rightarrow> nat option \<times> dtq_state" where
  "dtq_mqe_alloc q =
     (case mqefree q of
        m # ms \<Rightarrow> (Some m, q\<lparr>mqefree := ms\<rparr>)
      | [] \<Rightarrow> (let (ok, q) = q_malloc q
               in if ok then (Some (nmqe q), q\<lparr>nmqe := nmqe q + 1\<rparr>) else (None, q)))"

definition dtq_mqe_unalloc :: "nat \<Rightarrow> dtq_state \<Rightarrow> dtq_state" where
  [dtq_ops]: "dtq_mqe_unalloc m q = q\<lparr>mqefree := m # mqefree q\<rparr>"

definition dtq_recv_enqueue_locked :: "nat \<Rightarrow> dtq_state \<Rightarrow> bool \<times> dtq_state" where
  [dtq_ops]: "dtq_recv_enqueue_locked m q =
     (let was_empty = q_idle q;
          q = q\<lparr>mpirecvq := mpirecvq q @ [m], mpirqlen := mpirqlen q + 1\<rparr>;
          q = (if mpirqlen q > mpimaxrqlen q then q\<lparr>mpimaxrqlen := mpirqlen q\<rparr> else q)
      in (was_empty, if was_empty then q_signal q else q))"

text \<open>
  \<^verbatim>\<open>dtq_send_enqueue\<close> on rank \<open>me\<close>, for an entry \<open>m\<close> whose peer is \<open>to\<close>: the entry
  is given back to the caller during a draindown, looped to the receive queue when it
  is for this rank, and queued for the MPI thread otherwise.
\<close>

definition dtq_send_enqueue :: "int \<Rightarrow> int \<Rightarrow> nat \<Rightarrow> dtq_state \<Rightarrow> nat option \<times> dtq_state" where
  [dtq_ops]: "dtq_send_enqueue me to m q =
     (if mpisq_draindown q \<noteq> DTQ_DD_INIT then (Some m, q)
      else if to = me then
        (let (_, q) = dtq_recv_enqueue_locked m q in (None, q\<lparr>nloop := nloop q + 1\<rparr>))
      else
        (let q = q\<lparr>mpisendq := mpisendq q @ [m], mpisqlen := mpisqlen q + 1\<rparr>;
             q = (if mpisqlen q > mpimaxsqlen q then q\<lparr>mpimaxsqlen := mpisqlen q\<rparr> else q)
         in (None, q)))"

definition dtq_send_dequeue :: "dtq_state \<Rightarrow> nat option \<times> dtq_state" where
  [dtq_ops]: "dtq_send_dequeue q =
     (case mpisendq q of
        [] \<Rightarrow> (None, q)
      | m # ms \<Rightarrow> (Some m, q\<lparr>mpisendq := ms, mpisqlen := mpisqlen q - 1,
                               mpindequeuedsends := mpindequeuedsends q + 1\<rparr>))"

definition dtq_send_release :: "nat \<Rightarrow> dtq_state \<Rightarrow> dtq_state" where
  [dtq_ops]: "dtq_send_release m q =
     (let q = q\<lparr>mpindequeuedsends := mpindequeuedsends q - 1, mqefree := m # mqefree q\<rparr>;
          just_drained = (mpisq_draindown q \<noteq> DTQ_DD_INIT \<and> mpisqlen q = 0 \<and> mpindequeuedsends q = 0)
      in if just_drained then q_signal (q\<lparr>mpisq_draindown := DTQ_DD_DRAINED\<rparr>) else q)"

definition dtq_recv_enqueue :: "nat \<Rightarrow> dtq_state \<Rightarrow> dtq_state" where
  [dtq_ops]: "dtq_recv_enqueue m q = snd (dtq_recv_enqueue_locked m q)"

definition dtq_recv_dequeue :: "dtq_state \<Rightarrow> nat option \<times> dtq_state" where
  [dtq_ops]: "dtq_recv_dequeue q = dtq_recv_dequeue_locked q"

definition dtq_recv_release :: "nat \<Rightarrow> dtq_state \<Rightarrow> dtq_state" where
  [dtq_ops]: "dtq_recv_release m q = q\<lparr>mqefree := m # mqefree q\<rparr>"

definition dtq_send_draindown :: "dtq_state \<Rightarrow> int \<times> dtq_state" where
  [dtq_ops]: "dtq_send_draindown q =
     (let rv = mpisqlen q + mpindequeuedsends q
      in (rv, q\<lparr>mpisq_draindown := (if rv \<noteq> 0 then DTQ_DD_DRAINING else DTQ_DD_DRAINED)\<rparr>))"

definition dtq_send_drainstate :: "dtq_state \<Rightarrow> dtq_dd" where
  [dtq_ops]: "dtq_send_drainstate q = mpisq_draindown q"

text \<open>The queues after \<^verbatim>\<open>dtq_init\<close>; \<open>env\<close> are the malloc outcomes to come.\<close>

definition dtq_init :: "bool list \<Rightarrow> dtq_state" where
  "dtq_init env =
     \<lparr>mgrreqq = [], mgrrqlen = 0, mgrmaxrqlen = 0, mgr_blocked = False, notifytimelimit = 0,
      nreq = 0, reqfree = [], mpisendq = [], mpisqlen = 0, mpimaxsqlen = 0,
      mpindequeuedsends = 0, mpisq_draindown = DTQ_DD_INIT, mpirecvq = [], mpirqlen = 0,
      mpimaxrqlen = 0, nloop = 0, nmqe = 0, mqefree = [], mallocs = env\<rparr>"

text \<open>
  \<^verbatim>\<open>dtq_finalize\<close>: empties every list; the results are the requests and the entries
  passed to \<^verbatim>\<open>free\<close>, in order.  \<open>internal\<close> tells which requests are the manager's own.
  The length counters are not touched, as in the source.
\<close>

definition dtq_finalize :: "(reqptr \<Rightarrow> bool) \<Rightarrow> dtq_state \<Rightarrow> reqptr list \<times> nat list \<times> dtq_state" where
  "dtq_finalize internal q =
     (filter internal (mgrreqq q) @ reqfree q, mpisendq q @ mpirecvq q @ mqefree q,
      q\<lparr>mgrreqq := [], reqfree := [], mpisendq := [], mpirecvq := [], mqefree := []\<rparr>)"

text \<open>\<^verbatim>\<open>dtq_stats\<close>\<close>

record dtq_stats =
  st_nreq :: nat
  st_nloop :: int
  st_nmqe :: nat
  st_mpimaxsqlen :: int
  st_mpimaxrqlen :: int
  st_mgrmaxrqlen :: int

definition dtq_get_stats :: "dtq_state \<Rightarrow> dtq_stats" where
  "dtq_get_stats q =
     \<lparr>st_nreq = nreq q, st_nloop = nloop q, st_nmqe = nmqe q, st_mpimaxsqlen = mpimaxsqlen q,
      st_mpimaxrqlen = mpimaxrqlen q, st_mgrmaxrqlen = mgrmaxrqlen q\<rparr>"

text \<open>
  The two operations on requests also touch the request memory, so they are steps
  of the rank: \<^verbatim>\<open>dtq_req_alloc\<close> (a fresh request is zeroed and marked internal) and
  \<^verbatim>\<open>dtq_req_release\<close>.
\<close>

definition zero_thread :: dthread_t where
  "zero_thread = \<lparr>dt_index = 0, dt_seq = 0\<rparr>"

definition new_internal_req :: dthread_request_t where
  "new_internal_req =
     \<lparr>req_ltabidx = -1, reqstate = DTREQ_INTERNAL, reqpeer = 0, reqop = DTOP_NONE, req_mqe = None,
      xidseq = 0, reqerror = 0, req_newdthread = zero_thread, req_retval = None,
      req_creinfo = \<lparr>c_thread = zero_thread, c_peer = 0, c_xidseq = 0\<rparr>, req_waitthread = zero_thread\<rparr>"

definition dtq_req_alloc :: "dtrs \<Rightarrow> reqptr option \<times> dtrs" where
  "dtq_req_alloc s =
     (case reqfree (dtq s) of
        r # rs \<Rightarrow> (Some r, s\<lparr>dtq := (dtq s)\<lparr>reqfree := rs\<rparr>\<rparr>)
      | [] \<Rightarrow>
          (let (ok, q) = q_malloc (dtq s)
           in if ok then
                (Some (Int_req (nreq q)),
                 s\<lparr>dtq := q\<lparr>nreq := nreq q + 1\<rparr>, ireqs := (ireqs s)(nreq q := new_internal_req)\<rparr>)
              else (None, s\<lparr>dtq := q\<rparr>)))"

definition dtq_req_release :: "reqptr \<Rightarrow> bool \<Rightarrow> dtrs \<Rightarrow> dtrs" where
  "dtq_req_release r notify s =
     (if reqstate (get_req s r) = DTREQ_INTERNAL then
        s\<lparr>dtq := (dtq s)\<lparr>reqfree := r # reqfree (dtq s)\<rparr>\<rparr>
      else upd_req r (\<lambda>q. q\<lparr>reqstate := (if notify then DTREQ_DONE else DTREQ_IDLE)\<rparr>) s)"

subsection \<open>First-in first-out queues: the interface and its three instances\<close>

datatype 'a fop = Enq 'a | Deq

primrec fop_inputs :: "'a fop list \<Rightarrow> 'a list" where
  "fop_inputs [] = []"
| "fop_inputs (p # ps) = (case p of Enq x \<Rightarrow> x # fop_inputs ps | Deq \<Rightarrow> fop_inputs ps)"

text \<open>A sequence of enqueue and dequeue calls in any order, with the entries it returns.\<close>

fun fifo_run :: "('a \<Rightarrow> 'q \<Rightarrow> 'q) \<Rightarrow> ('q \<Rightarrow> 'b option \<times> 'q) \<Rightarrow> 'a fop list \<Rightarrow> 'q \<Rightarrow> 'b list \<times> 'q" where
  "fifo_run enq deq [] q = ([], q)"
| "fifo_run enq deq (Enq x # ps) q = fifo_run enq deq ps (enq x q)"
| "fifo_run enq deq (Deq # ps) q =
     (let (y, q1) = deq q; (out, q2) = fifo_run enq deq ps q1
      in (case y of None \<Rightarrow> out | Some b \<Rightarrow> b # out, q2))"

text \<open>
  \<open>item\<close> is what the queue stores of an argument, \<open>adm\<close> the arguments that go to this
  queue, \<open>ok\<close> the states in which it accepts entries.
\<close>

locale fifo =
  fixes enq :: "'a \<Rightarrow> 'q \<Rightarrow> 'q"
    and deq :: "'q \<Rightarrow> 'b option \<times> 'q"
    and view :: "'q \<Rightarrow> 'b list"
    and item :: "'a \<Rightarrow> 'b"
    and adm :: "'a \<Rightarrow> bool"
    and ok :: "'q \<Rightarrow> bool"
  assumes view_enq: "ok q \<Longrightarrow> adm x \<Longrightarrow> view (enq x q) = view q @ [item x]"
    and deq_Nil: "ok q \<Longrightarrow> view q = [] \<Longrightarrow> fst (deq q) = None \<and> view (snd (deq q)) = []"
    and deq_Cons: "ok q \<Longrightarrow> view q = y # ys \<Longrightarrow> fst (deq q) = Some y \<and> view (snd (deq q)) = ys"
    and ok_enq: "ok q \<Longrightarrow> adm x \<Longrightarrow> ok (enq x q)"
    and ok_deq: "ok q \<Longrightarrow> ok (snd (deq q))"
begin

lemma run_order:
  assumes "ok q" "list_all adm (fop_inputs ps)" "fifo_run enq deq ps q = (out, q')"
  shows "out @ view q' = view q @ map item (fop_inputs ps)"
  using assms
proof (induction ps arbitrary: q out)
  case Nil
  then show ?case by simp
next
  case (Cons p ps)
  show ?case
  proof (cases p)
    case (Enq x)
    with Cons.prems have "ok (enq x q)" "view (enq x q) = view q @ [item x]"
      by (auto intro: ok_enq view_enq)
    with Cons.IH [of "enq x q" out] Cons.prems Enq show ?thesis by simp
  next
    case Deq
    obtain y q1 out' where d: "deq q = (y, q1)" and r: "fifo_run enq deq ps q1 = (out', q')"
      and out: "out = (case y of None \<Rightarrow> out' | Some b \<Rightarrow> b # out')"
      using Cons.prems(3) Deq by (auto split: prod.splits)
    have "ok q1" using ok_deq [OF Cons.prems(1)] d by simp
    with Cons.IH [OF _ _ r] Cons.prems(2) Deq
    have IH: "out' @ view q' = view q1 @ map item (fop_inputs ps)" by simp
    show ?thesis
      using IH out Deq d deq_Nil [OF Cons.prems(1)] deq_Cons [OF Cons.prems(1)]
      by (cases "view q") auto
  qed
qed

end

interpretation recvq: fifo dtq_recv_enqueue dtq_recv_dequeue mpirecvq "\<lambda>m. m" "\<lambda>_. True" "\<lambda>_. True"
  by unfold_locales (auto simp: dtq_ops Let_def)

interpretation reqq: fifo dtq_req_enqueue dtq_req_dequeue mgrreqq "\<lambda>r. r" "\<lambda>_. True" "\<lambda>_. True"
  by unfold_locales (auto simp: dtq_ops Let_def)

interpretation sendq: fifo "\<lambda>(to, m) q. snd (dtq_send_enqueue me to m q)" dtq_send_dequeue mpisendq
    snd "\<lambda>(to, m). to \<noteq> me" "\<lambda>q. mpisq_draindown q = DTQ_DD_INIT" for me :: int
  by unfold_locales (auto simp: dtq_ops Let_def split: list.splits)

subsection \<open>The threads that share the queues\<close>

text \<open>
  \<open>owned\<close> are the entries in the hands of the manager, of the application threads and
  of the receive side of the MPI thread; \<open>inflight\<close> those the MPI thread took off the
  send queue and has not released yet.
\<close>

record dtq_sys =
  sys_q :: dtq_state
  owned :: "nat multiset"
  inflight :: "nat multiset"

inductive dtq_step :: "int \<Rightarrow> dtq_sys \<Rightarrow> dtq_sys \<Rightarrow> bool" for me :: int where
  alloc: "dtq_mqe_alloc (sys_q c) = (Some m, q) \<Longrightarrow>
     dtq_step me c (c\<lparr>sys_q := q, owned := add_mset m (owned c)\<rparr>)"
| alloc_fail: "dtq_mqe_alloc (sys_q c) = (None, q) \<Longrightarrow> dtq_step me c (c\<lparr>sys_q := q\<rparr>)"
| unalloc: "m \<in># owned c \<Longrightarrow>
     dtq_step me c (c\<lparr>sys_q := dtq_mqe_unalloc m (sys_q c), owned := owned c - {#m#}\<rparr>)"
| send: "m \<in># owned c \<Longrightarrow> dtq_send_enqueue me to m (sys_q c) = (None, q) \<Longrightarrow>
     dtq_step me c (c\<lparr>sys_q := q, owned := owned c - {#m#}\<rparr>)"
| send_refused: "m \<in># owned c \<Longrightarrow> dtq_send_enqueue me to m (sys_q c) = (Some m', q) \<Longrightarrow>
     dtq_step me c (c\<lparr>sys_q := q\<rparr>)"
| send_dequeue: "dtq_send_dequeue (sys_q c) = (Some m, q) \<Longrightarrow>
     dtq_step me c (c\<lparr>sys_q := q, inflight := add_mset m (inflight c)\<rparr>)"
| send_release: "m \<in># inflight c \<Longrightarrow>
     dtq_step me c (c\<lparr>sys_q := dtq_send_release m (sys_q c), inflight := inflight c - {#m#}\<rparr>)"
| recv_enqueue: "m \<in># owned c \<Longrightarrow>
     dtq_step me c (c\<lparr>sys_q := dtq_recv_enqueue m (sys_q c), owned := owned c - {#m#}\<rparr>)"
| recv_dequeue: "dtq_recv_dequeue (sys_q c) = (Some m, q) \<Longrightarrow>
     dtq_step me c (c\<lparr>sys_q := q, owned := add_mset m (owned c)\<rparr>)"
| recv_release: "m \<in># owned c \<Longrightarrow>
     dtq_step me c (c\<lparr>sys_q := dtq_recv_release m (sys_q c), owned := owned c - {#m#}\<rparr>)"
| req_enqueue: "dtq_step me c (c\<lparr>sys_q := dtq_req_enqueue r (sys_q c)\<rparr>)"
| req_dequeue: "dtq_req_dequeue (sys_q c) = (r, q) \<Longrightarrow> dtq_step me c (c\<lparr>sys_q := q\<rparr>)"
| req_memory: "dtq_step me c (c\<lparr>sys_q := (sys_q c)\<lparr>reqfree := rs, nreq := n, mallocs := bs\<rparr>\<rparr>)"
| wait_enter: "\<not> mgr_blocked (sys_q c) \<Longrightarrow>
     dtq_step me c (c\<lparr>sys_q := dtq_notifywait_enter (sys_q c)\<rparr>)"
| wait_timeout: "dtq_step me c (c\<lparr>sys_q := (sys_q c)\<lparr>mgr_blocked := False\<rparr>\<rparr>)"
| wait_finish: "\<not> mgr_blocked (sys_q c) \<Longrightarrow> dtq_notifywait_finish (sys_q c) = (m, r, q) \<Longrightarrow>
     dtq_step me c (c\<lparr>sys_q := q, owned := owned c + (case m of None \<Rightarrow> {#} | Some e \<Rightarrow> {#e#})\<rparr>)"
| timelimit: "dtq_step me c (c\<lparr>sys_q := dtq_notifytimelimit t (sys_q c)\<rparr>)"
| draindown: "dtq_send_draindown (sys_q c) = (rv, q) \<Longrightarrow> dtq_step me c (c\<lparr>sys_q := q\<rparr>)"

inductive dtq_reach :: "int \<Rightarrow> bool list \<Rightarrow> dtq_sys \<Rightarrow> bool" for me :: int and env :: "bool list" where
  start: "dtq_reach me env \<lparr>sys_q = dtq_init env, owned = {#}, inflight = {#}\<rparr>"
| step: "dtq_reach me env c \<Longrightarrow> dtq_step me c c' \<Longrightarrow> dtq_reach me env c'"

subsection \<open>The invariant\<close>

definition dtq_counts :: "dtq_sys \<Rightarrow> bool" where
  "dtq_counts c \<longleftrightarrow>
     mgrrqlen (sys_q c) = int (length (mgrreqq (sys_q c))) \<and> mgrrqlen (sys_q c) \<le> mgrmaxrqlen (sys_q c) \<and>
     mpisqlen (sys_q c) = int (length (mpisendq (sys_q c))) \<and> mpisqlen (sys_q c) \<le> mpimaxsqlen (sys_q c) \<and>
     mpirqlen (sys_q c) = int (length (mpirecvq (sys_q c))) \<and> mpirqlen (sys_q c) \<le> mpimaxrqlen (sys_q c) \<and>
     mpindequeuedsends (sys_q c) = int (size (inflight c))"

definition dtq_places :: "dtq_sys \<Rightarrow> nat multiset" where
  "dtq_places c = mset (mqefree (sys_q c)) + mset (mpisendq (sys_q c)) + mset (mpirecvq (sys_q c))
     + owned c + inflight c"

definition dtq_owner :: "dtq_sys \<Rightarrow> bool" where
  "dtq_owner c \<longleftrightarrow> dtq_places c = mset [0..<nmqe (sys_q c)]"

definition dtq_waits :: "dtq_sys \<Rightarrow> bool" where
  "dtq_waits c \<longleftrightarrow> (mgr_blocked (sys_q c) \<longrightarrow> q_idle (sys_q c))"

definition dtq_drain :: "dtq_sys \<Rightarrow> bool" where
  "dtq_drain c \<longleftrightarrow>
     (case mpisq_draindown (sys_q c) of
        DTQ_DD_INIT \<Rightarrow> True
      | DTQ_DD_DRAINING \<Rightarrow> mpisendq (sys_q c) \<noteq> [] \<or> inflight c \<noteq> {#}
      | DTQ_DD_DRAINED \<Rightarrow> mpisendq (sys_q c) = [] \<and> inflight c = {#})"

lemmas dtq_inv_defs = dtq_counts_def dtq_places_def dtq_owner_def dtq_waits_def dtq_drain_def
lemmas dtq_alloc_defs = dtq_mqe_alloc_def q_malloc_def

lemma dtq_counts_step: "dtq_step me c c' \<Longrightarrow> dtq_counts c \<Longrightarrow> dtq_counts c'"
  by (induction rule: dtq_step.induct)
    (auto simp: dtq_counts_def dtq_ops dtq_alloc_defs Let_def size_Diff_singleton
       dest!: multi_member_split split: list.splits if_splits prod.splits)

lemma dtq_waits_step: "dtq_step me c c' \<Longrightarrow> dtq_waits c \<Longrightarrow> dtq_waits c'"
  by (induction rule: dtq_step.induct)
    (auto simp: dtq_waits_def dtq_ops dtq_alloc_defs Let_def split: list.splits if_splits prod.splits)

lemma dtq_owner_step: "dtq_step me c c' \<Longrightarrow> dtq_owner c \<Longrightarrow> dtq_owner c'"
  by (induction rule: dtq_step.induct)
    (auto simp: dtq_owner_def dtq_places_def dtq_ops dtq_alloc_defs Let_def
       dest!: multi_member_split split: list.splits if_splits prod.splits)

lemma dtq_drain_step: "dtq_step me c c' \<Longrightarrow> dtq_counts c \<Longrightarrow> dtq_drain c \<Longrightarrow> dtq_drain c'"
  by (induction rule: dtq_step.induct)
    (auto simp: dtq_drain_def dtq_counts_def dtq_ops dtq_alloc_defs Let_def
       dest!: multi_member_split split: list.splits if_splits prod.splits dtq_dd.splits)

lemma dtq_init_inv:
  "c = \<lparr>sys_q = dtq_init env, owned = {#}, inflight = {#}\<rparr> \<Longrightarrow>
     dtq_counts c \<and> dtq_owner c \<and> dtq_waits c \<and> dtq_drain c"
  by (simp add: dtq_inv_defs dtq_init_def)

lemma dtq_reach_inv: "dtq_reach me env c \<Longrightarrow> dtq_counts c \<and> dtq_owner c \<and> dtq_waits c \<and> dtq_drain c"
proof (induction rule: dtq_reach.induct)
  case start
  show ?case using dtq_init_inv by blast
next
  case (step c c')
  then show ?case
    using dtq_counts_step dtq_owner_step dtq_waits_step dtq_drain_step by blast
qed

subsection \<open>Properties of the queues\<close>

text \<open>
  C7. Ownership of the queue entries: in every state that the manager, the MPI thread
  and the application threads can reach, each entry ever allocated is in exactly one
  place (free list, send queue, receive queue, in the hands of one thread, or handed
  to MPI), so no entry is lost, queued twice or freed while in use.
\<close>

theorem mqe_single_owner:
  assumes "dtq_reach me env c"
  shows "dtq_places c = mset [0..<nmqe (sys_q c)]"
  using dtq_reach_inv [OF assms] by (simp add: dtq_owner_def)

text \<open>
  C15. No lost wakeup: whenever the manager sleeps in \<^verbatim>\<open>dtq_notifywait\<close> without having
  been signalled, there is no message and no request waiting for it.
\<close>

theorem no_lost_wakeup:
  assumes "dtq_reach me env c" and "mgr_blocked (sys_q c)"
  shows "mpirecvq (sys_q c) = [] \<and> mgrreqq (sys_q c) = []"
  using dtq_reach_inv [OF assms(1)] assms(2) by (simp add: dtq_waits_def q_idle_def)

text \<open>
  C17. Draindown: once a draindown has begun, no message can be added to the send
  queue, and the state is \<^verbatim>\<open>DTQ_DD_DRAINED\<close> exactly when nothing is left in the send
  queue and nothing dequeued is still being sent.
\<close>

theorem draindown_exact:
  assumes "dtq_reach me env c" and "mpisq_draindown (sys_q c) \<noteq> DTQ_DD_INIT"
  shows "dtq_send_enqueue me to m (sys_q c) = (Some m, sys_q c) \<and>
         (dtq_send_drainstate (sys_q c) = DTQ_DD_DRAINED \<longleftrightarrow>
          mpisendq (sys_q c) = [] \<and> inflight c = {#})"
  using dtq_reach_inv [OF assms(1)] assms(2)
  by (auto simp: dtq_drain_def dtq_ops split: dtq_dd.splits)

text \<open>
  C18. Messages to other ranks are sent in the order in which they were queued: for
  every interleaving of \<^verbatim>\<open>dtq_send_enqueue\<close> and \<^verbatim>\<open>dtq_send_dequeue\<close> calls, what was
  dequeued followed by what is still queued is what was queued before followed by
  the new messages in order.
\<close>

theorem send_order:
  assumes "mpisq_draindown q = DTQ_DD_INIT"
    and "list_all (\<lambda>(to, m). to \<noteq> me) (fop_inputs ps)"
    and "fifo_run (\<lambda>(to, m) q. snd (dtq_send_enqueue me to m q)) dtq_send_dequeue ps q = (out, q')"
  shows "out @ mpisendq q' = mpisendq q @ map snd (fop_inputs ps)"
  using assms by (rule sendq.run_order)

text \<open>
  C19. Finalization frees every entry exactly once: when no thread holds an entry any
  more, the entries that \<^verbatim>\<open>dtq_finalize\<close> passes to \<^verbatim>\<open>free\<close> are all the entries ever
  allocated, without repetition.
\<close>

theorem finalize_frees_all:
  assumes "dtq_reach me env c" and "owned c = {#}" and "inflight c = {#}"
    and "dtq_finalize internal (sys_q c) = (reqs, entries, q)"
  shows "distinct entries \<and> set entries = {0..<nmqe (sys_q c)}"
proof -
  have "mset entries = mset [0..<nmqe (sys_q c)]"
    using dtq_reach_inv [OF assms(1)] assms(2-)
    by (auto simp: dtq_owner_def dtq_places_def dtq_finalize_def ac_simps)
  then show ?thesis
    by (metis distinct_upt mset_eq_imp_distinct_iff mset_eq_setD set_upt)
qed

subsection \<open>Concrete runs\<close>

text \<open>
  A run of rank 0 that the witnesses use: an application thread allocates an entry,
  sends it to rank 1, the MPI thread takes it, the manager starts a draindown.
\<close>

definition run0 :: dtq_sys where
  "run0 = \<lparr>sys_q = dtq_init [], owned = {#}, inflight = {#}\<rparr>"

definition run_alloc :: dtq_sys where
  "run_alloc = run0\<lparr>sys_q := snd (dtq_mqe_alloc (sys_q run0)), owned := {#0#}\<rparr>"

definition run_sent :: dtq_sys where
  "run_sent = run_alloc\<lparr>sys_q := snd (dtq_send_enqueue 0 1 0 (sys_q run_alloc)), owned := {#}\<rparr>"

definition run_drain :: dtq_sys where
  "run_drain = run_sent\<lparr>sys_q := snd (dtq_send_draindown (sys_q run_sent))\<rparr>"

lemmas run_defs = run0_def run_alloc_def run_sent_def run_drain_def dtq_init_def dtq_alloc_defs dtq_ops Let_def

lemma reach_run0: "dtq_reach 0 [] run0"
  using dtq_reach.start [of 0 "[]"] by (simp add: run0_def)

lemma reach_run_alloc: "dtq_reach 0 [] run_alloc"
  by (rule dtq_reach.step [OF reach_run0], use dtq_step.alloc [of run0 0 "sys_q run_alloc" 0] in
      \<open>simp add: run_defs\<close>)

lemma reach_run_sent: "dtq_reach 0 [] run_sent"
  by (rule dtq_reach.step [OF reach_run_alloc],
      use dtq_step.send [of 0 run_alloc 0 1 "sys_q run_sent"] in \<open>simp add: run_defs\<close>)

lemma reach_run_drain: "dtq_reach 0 [] run_drain"
  by (rule dtq_reach.step [OF reach_run_sent],
      use dtq_step.draindown [of run_sent 1 "sys_q run_drain" 0] in \<open>simp add: run_defs\<close>)

lemma reach_run_blocked: "dtq_reach 0 [] (run0\<lparr>sys_q := dtq_notifywait_enter (sys_q run0)\<rparr>)"
  by (rule dtq_reach.step [OF reach_run0], rule dtq_step.wait_enter) (simp add: run_defs)

theorem mqe_single_owner_witness:
  "dtq_places run_sent = mset [0..<nmqe (sys_q run_sent)] \<and> nmqe (sys_q run_sent) = 1"
  using mqe_single_owner [OF reach_run_sent] by (simp add: run_defs)

theorem no_lost_wakeup_witness:
  "mpirecvq (dtq_notifywait_enter (dtq_init [])) = [] \<and> mgrreqq (dtq_notifywait_enter (dtq_init [])) = []"
  using no_lost_wakeup [OF reach_run_blocked] by (simp add: run_defs)

theorem draindown_exact_witness:
  "dtq_send_enqueue 0 1 5 (sys_q run_drain) = (Some 5, sys_q run_drain) \<and>
   dtq_send_drainstate (sys_q run_drain) \<noteq> DTQ_DD_DRAINED"
  using draindown_exact [OF reach_run_drain, of 1 5] by (simp add: run_defs)

theorem send_order_witness:
  "mpisendq (snd (fifo_run (\<lambda>(to, m) q. snd (dtq_send_enqueue 0 to m q)) dtq_send_dequeue
      [Enq (1, 7), Enq (2, 8), Deq] (dtq_init []))) = [8]"
  using send_order [of "dtq_init []" 0 "[Enq (1, 7), Enq (2, 8), Deq]" "[7]"] by (simp add: run_defs)

theorem finalize_frees_all_witness:
  "distinct (fst (snd (dtq_finalize (\<lambda>_. True) (sys_q run_sent)))) \<and>
   set (fst (snd (dtq_finalize (\<lambda>_. True) (sys_q run_sent)))) = {0}"
  using finalize_frees_all [OF reach_run_sent, of "\<lambda>_. True"]
  by (simp add: run_defs dtq_finalize_def)

end
