(* ===== verification/Dt_Tables.thy ===== *)
theory Dt_Tables
  imports Dt_Queuing
begin

text \<open>
  The thread tables of a rank and its sequence numbers: the initial state set up by
  \<^verbatim>\<open>dthread_init\<close> and \<^verbatim>\<open>dthread_run\<close> (\<^verbatim>\<open>dt_init.c\<close>), the search of the pending list,
  \<^verbatim>\<open>get_free_seq\<close>, the allocation of \<^verbatim>\<open>gtab[]\<close> and \<^verbatim>\<open>ltab[]\<close> slots
  (\<^verbatim>\<open>dt_mgrthread.c\<close>), and the validation of thread handles (\<^verbatim>\<open>dt_ops.c\<close>).  The
  interface of an allocator of table slots is the locale \<open>slot_table\<close>, with an
  interpretation for each of the two tables.
\<close>

subsection \<open>Initial state of a rank\<close>

definition zero_argret :: dthread_argret_t where
  "zero_argret = \<lparr>dt_argret_type = 0, dt_inlinelen = 0, dt_u = Dt_inline []\<rparr>"

definition zero_gtab :: dthread_gtab_t where
  "zero_gtab = \<lparr>gt_allocated = False, gt_rank = 0, gt_seq = 0, gt_disp_idx = 0, gt_arg = zero_argret,
     gt_ret = zero_argret, gt_detached = False, gt_terminated = LT_NONE, gt_has_ltab = False, gt_ltab_idx = 0\<rparr>"

text \<open>A zeroed local slot; \<^verbatim>\<open>dthread_run\<close> sets the back pointer of its request.\<close>

definition zero_ltab :: "nat \<Rightarrow> dthread_ltab_t" where
  "zero_ltab i = \<lparr>lt_gtab_idx = 0, lt_seq = 0, lt_pth = 0, lt_pth_state = LT_NONE,
     lt_req = new_internal_req\<lparr>req_ltabidx := int i, reqstate := DTREQ_IDLE\<rparr>\<rparr>"

definition zero_mgrstate :: dt_mgrstate where
  "zero_mgrstate = \<lparr>draining = False, rpending = [], mg_ltab_alloc = 0, ltab_lastslot = 0, app0exitval = 0,
     threads_alloc = 0, threads_starting = 0, threads_running = 0, last_slot = 0, next_rank = 0\<rparr>"

definition zero_mqe :: dtq_mpiqentry where
  "zero_mqe = \<lparr>frame = \<lparr>msg_xidseq = 0, msg_body = Dtmsg_other 0\<rparr>, flen = 0, peer = 0\<rparr>"

text \<open>
  The state of rank \<open>rank\<close> of \<open>wsize\<close> when its manager starts: \<open>env\<close>, \<open>pths\<close> and
  \<open>jk\<close> are the environment (malloc outcomes, results of \<^verbatim>\<open>pthread_create\<close>, old frame
  contents).
\<close>

definition dtrs_init ::
    "int \<Rightarrow> int \<Rightarrow> dthread_dispatch_t list \<Rightarrow> nat \<Rightarrow> bool list \<Rightarrow> int list \<Rightarrow>
     dthread_argret_t \<times> u32 \<times> u32 \<Rightarrow> dtrs" where
  "dtrs_init rank wsize ds maxthreads env pths jk =
     \<lparr>mpi_rank = rank, mpi_wsize = wsize, seqsrc = word_of_int (rank + wsize), dsps = ds,
      nmaxthread = maxthreads, gtab = replicate maxthreads zero_gtab, ltab = map zero_ltab [0..<maxthreads],
      dtq = dtq_init env, mgrstate = zero_mgrstate, mqes = (\<lambda>_. zero_mqe), ireqs = (\<lambda>_. new_internal_req),
      junk = fst jk, junk_index = fst (snd jk), junk_seq = snd (snd jk), npth = 0, pth_creates = pths, pth_cancels = []\<rparr>"

subsection \<open>Pending requests and sequence numbers\<close>

definition find_pending_req :: "dtop \<Rightarrow> u32 \<Rightarrow> dtrs \<Rightarrow> reqptr option" where
  "find_pending_req op seq s =
     find (\<lambda>r. xidseq (get_req s r) = seq \<and> reqop (get_req s r) = op) (rpending (mgrstate s))"

text \<open>One turn of the loop of \<^verbatim>\<open>get_free_seq\<close>: the number, and the state with the source advanced.\<close>

definition next_seq :: "dtrs \<Rightarrow> u32 \<Rightarrow> u32" where
  "next_seq s rv =
     (let n = rv + word_of_int (mpi_wsize s)
      in if n < rv then word_of_int (mpi_rank s + mpi_wsize s) else n)"

definition seq_step :: "dtrs \<Rightarrow> u32 \<times> dtrs" where
  "seq_step s = (seqsrc s, s\<lparr>seqsrc := next_seq s (seqsrc s)\<rparr>)"

partial_function (option) get_free_seq :: "dtop \<Rightarrow> dtrs \<Rightarrow> (u32 \<times> dtrs) option" where
  "get_free_seq op s =
     (let (rv, s') = seq_step s
      in if op = DTOP_NONE \<or> find_pending_req op rv s' = None then Some (rv, s')
         else get_free_seq op s')"

subsection \<open>Slots of the thread tables\<close>

text \<open>
  The loop that \<^verbatim>\<open>gtab_alloc\<close> and \<^verbatim>\<open>ltab_alloc\<close> share: from slot \<open>p\<close> on, wrapping at
  \<open>n\<close>, take the first free slot; give up after \<open>lastp\<close>.
\<close>

partial_function (option) next_slot :: "(nat \<Rightarrow> bool) \<Rightarrow> nat \<Rightarrow> nat \<Rightarrow> nat \<Rightarrow> nat option option" where
  "next_slot free n lastp p =
     (let p = (if p + 1 \<ge> n then 0 else p + 1)
      in if free p then Some (Some p)
         else if p = lastp then Some None
         else next_slot free n lastp p)"

definition gtab_alloc :: "int \<Rightarrow> u32 \<Rightarrow> dthread_argret_t \<Rightarrow> dtrs \<Rightarrow> (nat option \<times> dtrs) res" where
  "gtab_alloc rank disp_idx argp s =
     (if threads_alloc (mgrstate s) \<ge> int (nmaxthread s) then Inr (None, s)
      else rbind (or_fault Diverges
             (next_slot (\<lambda>p. \<not> gt_allocated (gtab s ! p)) (nmaxthread s)
                (last_slot (mgrstate s)) (last_slot (mgrstate s))))
        (\<lambda>slot. case slot of
           None \<Rightarrow> Inr (None, s)
         | Some p \<Rightarrow>
             rbind (or_fault Diverges (get_free_seq DTOP_NONE s)) (\<lambda>(seq, s).
               let s = upd_gtab p (\<lambda>gt. gt\<lparr>gt_rank := rank, gt_seq := seq, gt_disp_idx := disp_idx,
                         gt_arg := argp, gt_ret := (gt_ret gt)\<lparr>dt_argret_type := DTHREAD_NODATA\<rparr>,
                         gt_detached := False, gt_terminated := LT_NONE, gt_has_ltab := False,
                         gt_allocated := True\<rparr>) s
               in Inr (Some p, upd_mgr (\<lambda>m. m\<lparr>threads_alloc := threads_alloc m + 1, last_slot := p\<rparr>) s))))"

definition gtab_free :: "nat \<Rightarrow> dtrs \<Rightarrow> dtrs" where
  "gtab_free gidx s =
     (if gt_allocated (gtab s ! gidx) then
        upd_mgr (\<lambda>m. m\<lparr>threads_alloc := threads_alloc m - 1\<rparr>)
          (upd_gtab gidx (\<lambda>gt. gt\<lparr>gt_allocated := False, gt_seq := 0, gt_has_ltab := False\<rparr>) s)
      else s)"

definition ltab_alloc :: "dthread_t \<Rightarrow> dtrs \<Rightarrow> (nat option \<times> dtrs) res" where
  "ltab_alloc thread s =
     (if mg_ltab_alloc (mgrstate s) \<ge> int (nmaxthread s) then Inr (None, s)
      else rbind
        (if mg_ltab_alloc (mgrstate s) = 0 then Inr (Some 0)
         else or_fault Diverges
             (next_slot (\<lambda>p. lt_pth_state (ltab s ! p) = LT_NONE) (nmaxthread s)
                (ltab_lastslot (mgrstate s)) (ltab_lastslot (mgrstate s))))
        (\<lambda>slot. case slot of
           None \<Rightarrow> Inr (None, s)
         | Some p \<Rightarrow>
             let s = upd_ltab p (\<lambda>lt. lt\<lparr>lt_gtab_idx := dt_index thread, lt_seq := dt_seq thread,
                       lt_pth_state := LT_STARTING\<rparr>) s
             in Inr (Some p, upd_mgr (\<lambda>m. m\<lparr>mg_ltab_alloc := mg_ltab_alloc m + 1, ltab_lastslot := p\<rparr>) s)))"

definition ltab_free :: "nat \<Rightarrow> dtrs \<Rightarrow> dtrs" where
  "ltab_free lidx s =
     (if lt_pth_state (ltab s ! lidx) \<noteq> LT_NONE then
        upd_mgr (\<lambda>m. m\<lparr>mg_ltab_alloc := mg_ltab_alloc m - 1\<rparr>)
          (upd_ltab lidx (\<lambda>lt. lt\<lparr>lt_seq := 0, lt_pth_state := LT_NONE\<rparr>) s)
      else s)"

subsection \<open>Thread handles (dt_ops.c)\<close>

text \<open>The index of the global slot of a valid handle.\<close>

definition dthread_dt2gtab :: "dthread_t \<Rightarrow> dtrs \<Rightarrow> nat option" where
  "dthread_dt2gtab thread s =
     (if unat (dt_index thread) \<ge> nmaxthread s then None
      else let gt = gtab s ! unat (dt_index thread)
           in if \<not> gt_allocated gt \<or> dt_seq thread \<noteq> gt_seq gt then None
              else Some (unat (dt_index thread)))"

text \<open>\<open>key\<close> is the value of the thread-specific \<^verbatim>\<open>ltabkey\<close> of the caller.\<close>

definition dthread_self :: "nat option \<Rightarrow> dtrs \<Rightarrow> dthread_t" where
  "dthread_self key s =
     (case key of
        None \<Rightarrow> \<lparr>dt_index = of_nat (nmaxthread s + 1), dt_seq = 0\<rparr>
      | Some l \<Rightarrow>
          if lt_pth_state (ltab s ! l) \<noteq> LT_RUNNING then \<lparr>dt_index = of_nat (nmaxthread s + 1), dt_seq = 0\<rparr>
          else \<lparr>dt_index = lt_gtab_idx (ltab s ! l), dt_seq = lt_seq (ltab s ! l)\<rparr>)"

subsection \<open>Sequence numbers: a cycle of numbers of this rank\<close>

text \<open>
  \<open>seq_ok\<close>: the source is a number of this rank (its residue modulo the size of the
  job is the rank) and not below the size of the job, so never 0.
  \<open>seq_period\<close> is how many numbers the rank has.
\<close>

definition seq_ok :: "dtrs \<Rightarrow> bool" where
  "seq_ok s \<longleftrightarrow> 0 \<le> mpi_rank s \<and> mpi_rank s < mpi_wsize s \<and> mpi_wsize s < 2 ^ 31 \<and>
     uint (seqsrc s) mod mpi_wsize s = mpi_rank s \<and> mpi_wsize s \<le> uint (seqsrc s)"

definition seq_period :: "dtrs \<Rightarrow> nat" where
  "seq_period s = nat ((2 ^ 32 - 1 - mpi_rank s) div mpi_wsize s)"

lemma mod_add_size: "(x :: int) mod w = r \<Longrightarrow> (x + w) mod w = r"
  by simp

text \<open>The source on the integers: the next number of the rank, or back to its first.\<close>

lemma uint_next_seq:
  assumes "0 \<le> mpi_rank s" "mpi_rank s < mpi_wsize s" "mpi_wsize s < 2 ^ 31"
  shows "uint (next_seq s x) =
    (if uint x + mpi_wsize s < 2 ^ 32 then uint x + mpi_wsize s else mpi_rank s + mpi_wsize s)"
proof -
  have w: "uint (word_of_int (mpi_wsize s) :: u32) = mpi_wsize s"
    using assms by (simp add: uint_word_of_int)
  have r: "uint (word_of_int (mpi_rank s + mpi_wsize s) :: u32) = mpi_rank s + mpi_wsize s"
    using assms by (simp add: uint_word_of_int del: of_int_add)
  have b: "uint x < 2 ^ 32" using uint_lt2p [of x] by simp
  have add: "uint (x + word_of_int (mpi_wsize s)) = (uint x + mpi_wsize s) mod 2 ^ 32"
    by (simp add: uint_word_arith_bintrs(1) w take_bit_eq_mod)
  show ?thesis
  proof (cases "uint x + mpi_wsize s < 2 ^ 32")
    case True
    then have "uint (x + word_of_int (mpi_wsize s)) = uint x + mpi_wsize s"
      using assms add uint_ge_0 [of x] by (simp add: mod_pos_pos_trivial)
    with True assms show ?thesis by (simp add: next_seq_def word_less_alt)
  next
    case False
    have "(uint x + mpi_wsize s) mod 2 ^ 32 = (uint x + mpi_wsize s - 2 ^ 32) mod 2 ^ 32"
      by (simp add: mod_diff_right_eq [symmetric])
    also have "\<dots> = uint x + mpi_wsize s - 2 ^ 32"
      using False assms b by (intro mod_pos_pos_trivial) auto
    finally have "uint (x + word_of_int (mpi_wsize s)) < uint x" using add assms by simp
    with False r show ?thesis by (simp add: next_seq_def word_less_alt Let_def)
  qed
qed

lemma next_seq_seqsrc [simp]: "next_seq (s\<lparr>seqsrc := x\<rparr>) = next_seq s"
  by (simp add: next_seq_def fun_eq_iff Let_def)

lemma find_pending_seqsrc [simp]: "find_pending_req op seq (s\<lparr>seqsrc := x\<rparr>) = find_pending_req op seq s"
proof -
  have "get_req (s\<lparr>seqsrc := x\<rparr>) = get_req s"
    by (rule ext, rename_tac r, case_tac r) auto
  then show ?thesis by (simp add: find_pending_req_def)
qed

text \<open>The numbers \<open>get_free_seq\<close> tries, by their position in the cycle.\<close>

lemma seq_cycle:
  assumes "seq_ok s"
  shows "uint ((next_seq s ^^ j) (seqsrc s)) =
    mpi_rank s + mpi_wsize s *
      (1 + int ((nat (uint (seqsrc s) div mpi_wsize s) - 1 + j) mod seq_period s))"
proof -
  define w where "w = mpi_wsize s"
  define r where "r = mpi_rank s"
  define K where "K = seq_period s"
  define k where "k = nat (uint (seqsrc s) div w)"
  have ok: "0 \<le> r" "r < w" "w < 2 ^ 31" "uint (seqsrc s) mod w = r" "w \<le> uint (seqsrc s)"
    using assms by (auto simp: seq_ok_def w_def r_def)
  have Kdiv: "int K = (2 ^ 32 - 1 - r) div w" using ok by (simp add: K_def seq_period_def w_def r_def pos_imp_zdiv_nonneg_iff)
  have fits: "r + w * (1 + int m) + w < 2 ^ 32 \<longleftrightarrow> Suc m < K" for m
  proof -
    have "r + w * (1 + int m) + w < 2 ^ 32 \<longleftrightarrow> (2 + int m) * w \<le> 2 ^ 32 - 1 - r"
      by (auto simp: algebra_simps)
    also have "\<dots> \<longleftrightarrow> 2 + int m \<le> int K" unfolding Kdiv using ok by (simp add: zle_div_iff)
    finally show ?thesis by auto
  qed
  have u: "uint (seqsrc s) = r + w * int k"
    using ok div_mult_mod_eq [of "uint (seqsrc s)" w]
    by (simp add: k_def pos_imp_zdiv_nonneg_iff mult.commute)
  have k1: "1 \<le> k" using ok u by (cases k) auto
  have "int k * w \<le> 2 ^ 32 - 1 - r" using uint_lt2p [of "seqsrc s"] u by (simp add: mult.commute)
  then have "int k \<le> int K" using ok Kdiv by (simp add: zle_div_iff)
  then have kK: "k \<le> K" by simp
  have "uint ((next_seq s ^^ j) (seqsrc s)) = r + w * (1 + int ((k - 1 + j) mod K))"
  proof (induction j)
    case 0
    then show ?case using u k1 kK by simp
  next
    case (Suc j)
    define m where "m = (k - 1 + j) mod K"
    have mK: "m < K" using k1 kK by (simp add: m_def)
    have e: "(k - 1 + Suc j) mod K = (if Suc m = K then 0 else Suc m)" by (simp add: m_def mod_Suc)
    have IH: "uint ((next_seq s ^^ j) (seqsrc s)) = r + w * (1 + int m)" using Suc by (simp only: m_def)
    have "uint ((next_seq s ^^ Suc j) (seqsrc s)) = (if Suc m < K then r + w * (1 + int m) + w else r + w)"
      using uint_next_seq [of s "(next_seq s ^^ j) (seqsrc s)", folded w_def r_def] ok(1-3) fits [of m]
      unfolding IH by simp
    then show ?case using mK unfolding e by (auto simp: distrib_left)
  qed
  then show ?thesis by (simp add: w_def r_def k_def K_def)
qed

lemma seq_period_pos: "seq_ok s \<Longrightarrow> 0 < seq_period s"
  using zle_div_iff [of "mpi_wsize s" 1 "2 ^ 32 - 1 - mpi_rank s"] by (auto simp: seq_ok_def seq_period_def)

lemma seq_cycle_distinct:
  assumes "seq_ok s" "i < j" "j < i + seq_period s"
  shows "(next_seq s ^^ i) (seqsrc s) \<noteq> (next_seq s ^^ j) (seqsrc s)"
proof
  assume eq: "(next_seq s ^^ i) (seqsrc s) = (next_seq s ^^ j) (seqsrc s)"
  define a where "a = nat (uint (seqsrc s) div mpi_wsize s) - 1"
  have "mpi_wsize s \<noteq> 0" using assms(1) by (auto simp: seq_ok_def)
  then have "(a + j) mod seq_period s = (a + i) mod seq_period s"
    using seq_cycle [OF assms(1), of i] seq_cycle [OF assms(1), of j] eq by (simp add: a_def)
  then have "seq_period s dvd (a + j) - (a + i)"
    using assms(2) mod_eq_dvd_iff_nat [of "a + i" "a + j"] by simp
  then show False using assms(2,3) by (auto dest: dvd_imp_le)
qed

lemma seq_cycle_ok:
  assumes "seq_ok s"
  shows "seq_ok (s\<lparr>seqsrc := (next_seq s ^^ j) (seqsrc s)\<rparr>)"
proof -
  obtain q where q: "uint ((next_seq s ^^ j) (seqsrc s)) = mpi_rank s + mpi_wsize s * (1 + int q)"
    using seq_cycle [OF assms] by blast
  have "mpi_wsize s \<le> mpi_rank s + mpi_wsize s * (1 + int q)" using assms by (simp add: seq_ok_def distrib_left)
  then show ?thesis using assms q by (auto simp: seq_ok_def)
qed

lemma get_free_seq_run:
  assumes "\<forall>i < n. find_pending_req op ((next_seq s ^^ i) (seqsrc s)) s \<noteq> None"
    and "find_pending_req op ((next_seq s ^^ n) (seqsrc s)) s = None" "op \<noteq> DTOP_NONE"
  shows "get_free_seq op s =
    Some ((next_seq s ^^ n) (seqsrc s), s\<lparr>seqsrc := (next_seq s ^^ Suc n) (seqsrc s)\<rparr>)"
  using assms
proof (induction n arbitrary: s)
  case 0
  then show ?case by (subst get_free_seq.simps) (simp add: seq_step_def)
next
  case (Suc n)
  define s1 where "s1 = s\<lparr>seqsrc := next_seq s (seqsrc s)\<rparr>"
  have shift: "(next_seq s ^^ Suc i) (seqsrc s) = (next_seq s1 ^^ i) (seqsrc s1)" for i
    by (simp add: s1_def funpow_swap1)
  have fs1: "find_pending_req op q s1 = find_pending_req op q s" for q by (simp add: s1_def)
  have "\<forall>i < n. find_pending_req op ((next_seq s ^^ Suc i) (seqsrc s)) s \<noteq> None"
    using Suc.prems(1) by (meson Suc_less_eq)
  then have "\<forall>i < n. find_pending_req op ((next_seq s1 ^^ i) (seqsrc s1)) s1 \<noteq> None"
    by (simp only: shift fs1 simp_thms)
  moreover have "find_pending_req op ((next_seq s1 ^^ n) (seqsrc s1)) s1 = None"
    using Suc.prems(2) by (simp only: shift fs1)
  ultimately have "get_free_seq op s1 =
      Some ((next_seq s1 ^^ n) (seqsrc s1), s1\<lparr>seqsrc := (next_seq s1 ^^ Suc n) (seqsrc s1)\<rparr>)"
    using Suc.IH Suc.prems(3) by blast
  moreover have "get_free_seq op s = get_free_seq op s1"
    using Suc.prems(1) [rule_format, of 0] Suc.prems(3)
    by (subst get_free_seq.simps) (auto simp: seq_step_def s1_def)
  ultimately show ?case unfolding shift by (simp add: s1_def)
qed

lemma get_free_seq_NONE: "get_free_seq DTOP_NONE s = Some (seq_step s)"
  by (subst get_free_seq.simps) (simp add: seq_step_def)

lemma get_free_seq_state: "get_free_seq op s = Some y \<Longrightarrow> \<exists>x. snd y = s\<lparr>seqsrc := x\<rparr>"
proof (rule get_free_seq.raw_induct [where P = "\<lambda>op s y. \<exists>x. snd y = s\<lparr>seqsrc := x\<rparr>"])
  fix get :: "dtop \<Rightarrow> dtrs \<Rightarrow> (u32 \<times> dtrs) option" and op s y
  assume IH: "\<And>op s y. get op s = Some y \<Longrightarrow> \<exists>x. snd y = s\<lparr>seqsrc := x\<rparr>"
    and run: "(let (rv, s') = seq_step s
      in if op = DTOP_NONE \<or> find_pending_req op rv s' = None then Some (rv, s') else get op s') = Some y"
  show "\<exists>x. snd y = s\<lparr>seqsrc := x\<rparr>"
    using run IH [of op "s\<lparr>seqsrc := next_seq s (seqsrc s)\<rparr>" y]
    by (auto simp: seq_step_def split: if_splits)
qed

text \<open>Fewer pending requests than numbers: one of the numbers is not pending.\<close>

lemma unpending_seq:
  assumes "seq_ok s" "length (rpending (mgrstate s)) < seq_period s"
  shows "\<exists>n. find_pending_req op ((next_seq s ^^ n) (seqsrc s)) s = None"
proof (rule ccontr)
  assume "\<nexists>n. find_pending_req op ((next_seq s ^^ n) (seqsrc s)) s = None"
  then have "\<exists>r \<in> set (rpending (mgrstate s)). xidseq (get_req s r) = (next_seq s ^^ n) (seqsrc s)" for n
    unfolding find_pending_req_def find_None_iff by blast
  then have sub: "(\<lambda>n. (next_seq s ^^ n) (seqsrc s)) ` {..<seq_period s} \<subseteq>
      (\<lambda>r. xidseq (get_req s r)) ` set (rpending (mgrstate s))"
    by (auto simp: image_iff) metis
  have "inj_on (\<lambda>n. (next_seq s ^^ n) (seqsrc s)) {..<seq_period s}"
    using seq_cycle_distinct [OF assms(1)]
    by (auto simp: inj_on_def) (metis linorder_neqE_nat trans_less_add2)
  then have "seq_period s \<le> card ((\<lambda>r. xidseq (get_req s r)) ` set (rpending (mgrstate s)))"
    using card_mono [OF _ sub] by (simp add: card_image)
  also have "\<dots> \<le> length (rpending (mgrstate s))"
    using card_image_le [of "set (rpending (mgrstate s))"] card_length le_trans by blast
  finally show False using assms(2) by simp
qed

lemma get_free_seq_total:
  assumes "seq_ok s" "length (rpending (mgrstate s)) < seq_period s"
  shows "\<exists>seq x. get_free_seq op s = Some (seq, s\<lparr>seqsrc := x\<rparr>) \<and> seq_ok (s\<lparr>seqsrc := x\<rparr>) \<and>
     uint seq mod mpi_wsize s = mpi_rank s \<and> mpi_wsize s \<le> uint seq \<and>
     (op \<noteq> DTOP_NONE \<longrightarrow> find_pending_req op seq s = None)"
proof -
  obtain n where "get_free_seq op s =
      Some ((next_seq s ^^ n) (seqsrc s), s\<lparr>seqsrc := (next_seq s ^^ Suc n) (seqsrc s)\<rparr>)"
    and "op \<noteq> DTOP_NONE \<longrightarrow> find_pending_req op ((next_seq s ^^ n) (seqsrc s)) s = None"
  proof (cases "op = DTOP_NONE")
    case True
    then show ?thesis using that [of 0] by (simp add: get_free_seq_NONE seq_step_def)
  next
    case False
    obtain n where "find_pending_req op ((next_seq s ^^ n) (seqsrc s)) s = None"
      and "\<forall>i < n. find_pending_req op ((next_seq s ^^ i) (seqsrc s)) s \<noteq> None"
      using unpending_seq [OF assms, of op] exists_least_iff
        [of "\<lambda>n. find_pending_req op ((next_seq s ^^ n) (seqsrc s)) s = None"] by blast
    then show ?thesis using that get_free_seq_run False by blast
  qed
  moreover have "seq_ok (s\<lparr>seqsrc := (next_seq s ^^ n) (seqsrc s)\<rparr>)"
    "seq_ok (s\<lparr>seqsrc := (next_seq s ^^ Suc n) (seqsrc s)\<rparr>)" using seq_cycle_ok assms(1) by blast+
  ultimately show ?thesis by (auto simp: seq_ok_def)
qed

subsection \<open>Slots: the interface of a table and its instances\<close>

text \<open>Slots in the order in which the loop tries them.\<close>

definition scan_order :: "nat \<Rightarrow> nat \<Rightarrow> nat list" where
  "scan_order n lastp = map (\<lambda>i. (lastp + i) mod n) [1..<Suc n]"

lemma next_slot_run:
  assumes "p < n" "lastp = (p + k) mod n" "1 \<le> k" "k \<le> n"
  shows "next_slot free n lastp p = Some (find free (map (\<lambda>i. (p + i) mod n) [1..<Suc k]))"
  using assms
proof (induction k arbitrary: p)
  case 0
  then show ?case by simp
next
  case (Suc k)
  define p' where "p' = (p + 1) mod n"
  have p': "(if p + 1 \<ge> n then 0 else p + 1) = p'" using Suc.prems(1) by (cases "Suc p = n") (auto simp: p'_def)
  have shift: "map (\<lambda>i. (p + i) mod n) [1..<Suc (Suc k)] = p' # map (\<lambda>i. (p' + i) mod n) [1..<Suc k]"
  proof -
    have "map (\<lambda>i. (p + i) mod n) [1..<Suc (Suc k)] = p' # map (\<lambda>i. (p + i) mod n) [2..<Suc (Suc k)]"
      by (simp add: p'_def upt_conv_Cons numeral_2_eq_2 del: upt_Suc)
    also have "[2..<Suc (Suc k)] = map Suc [1..<Suc k]" by (simp add: map_Suc_upt numeral_2_eq_2 del: upt_Suc)
    finally show ?thesis by (simp add: p'_def mod_simps del: upt_Suc)
  qed
  have step: "next_slot free n lastp p =
      (if free p' then Some (Some p') else if p' = lastp then Some None else next_slot free n lastp p')"
    by (subst next_slot.simps) (simp only: p' Let_def)
  show ?case
  proof (cases "k = 0")
    case True
    then have "lastp = p'" using Suc.prems(2) by (simp add: p'_def)
    then show ?thesis unfolding shift step using True by simp
  next
    case False
    have lp: "lastp = (p' + k) mod n" using Suc.prems(2) by (simp add: p'_def mod_simps)
    have p'n: "p' < n" using Suc.prems(1) by (simp add: p'_def)
    have "p' \<noteq> lastp"
    proof
      assume "p' = lastp"
      then have "(p' + k) mod n = p' mod n" using lp p'n by simp
      then have "n dvd k" using mod_eq_dvd_iff_nat [of p' "p' + k" n] by simp
      then show False using False Suc.prems(4) by (auto dest: dvd_imp_le)
    qed
    then show ?thesis unfolding shift step using Suc.IH [OF p'n lp] False Suc.prems(4) by simp
  qed
qed

lemma next_slot_eq: "lastp < n \<Longrightarrow> next_slot free n lastp lastp = Some (find free (scan_order n lastp))"
  using next_slot_run [of lastp n lastp n free] by (simp add: scan_order_def)

lemma set_scan_order: "lastp < n \<Longrightarrow> set (scan_order n lastp) = {..<n}"
proof -
  assume l: "lastp < n"
  have "p \<in> set (scan_order n lastp)" if "p < n" for p
  proof (cases "lastp < p")
    case True
    with that show ?thesis by (auto simp: scan_order_def image_iff intro!: bexI [of _ "p - lastp"])
  next
    case False
    with that l show ?thesis
      by (auto simp: scan_order_def image_iff intro!: bexI [of _ "n + p - lastp"])
  qed
  then show ?thesis using l by (auto simp: scan_order_def)
qed

lemma next_slot_free:
  assumes "lastp < n" "\<exists>p < n. free p"
  shows "\<exists>p. next_slot free n lastp lastp = Some (Some p) \<and> p < n \<and> free p"
proof -
  obtain p where "find free (scan_order n lastp) = Some p"
    using assms set_scan_order [OF assms(1)] by (cases "find free (scan_order n lastp)") (auto simp: find_None_iff)
  then show ?thesis
    using next_slot_eq [OF assms(1)] find_Some_mem set_scan_order [OF assms(1)] by (metis lessThan_iff)
qed

text \<open>Allocations one after the other, until the table is full.\<close>

fun slot_allocs :: "('a \<Rightarrow> 's \<Rightarrow> (nat option \<times> 's) res) \<Rightarrow> 'a list \<Rightarrow> 's \<Rightarrow> (nat list \<times> 's) res" where
  "slot_allocs alloc [] s = Inr ([], s)"
| "slot_allocs alloc (a # as) s =
     rbind (alloc a s) (\<lambda>(p, s). case p of
         None \<Rightarrow> Inr ([], s)
       | Some p \<Rightarrow> rbind (slot_allocs alloc as s) (\<lambda>(ps, s). Inr (p # ps, s)))"

locale slot_table =
  fixes alloc :: "'a \<Rightarrow> 's \<Rightarrow> (nat option \<times> 's) res"
    and free :: "nat \<Rightarrow> 's \<Rightarrow> 's"
    and inuse :: "'s \<Rightarrow> nat set"
    and cap :: "'s \<Rightarrow> nat"
    and inv :: "'s \<Rightarrow> bool"
  assumes inuse_cap: "inv s \<Longrightarrow> inuse s \<subseteq> {..<cap s}"
    and alloc_full: "inv s \<Longrightarrow> inuse s = {..<cap s} \<Longrightarrow> alloc a s = Inr (None, s)"
    and alloc_slot: "inv s \<Longrightarrow> inuse s \<noteq> {..<cap s} \<Longrightarrow>
      \<exists>p s'. alloc a s = Inr (Some p, s') \<and> p \<notin> inuse s \<and> inuse s' = insert p (inuse s) \<and>
        cap s' = cap s \<and> inv s'"
    and free_slot: "inv s \<Longrightarrow> p < cap s \<Longrightarrow> inuse (free p s) = inuse s - {p} \<and> cap (free p s) = cap s \<and> inv (free p s)"
begin

lemma alloc_free:
  assumes "inv s" "alloc a s = Inr (Some p, s')"
  shows "inuse (free p s') = inuse s"
proof -
  have "inuse s \<noteq> {..<cap s}" using assms alloc_full by force
  with alloc_slot [OF assms(1) this, of a] assms(2)
  have s': "p \<notin> inuse s" "inuse s' = insert p (inuse s)" "inv s'" by auto
  then have "p < cap s'" using inuse_cap by blast
  then show ?thesis using free_slot [OF s'(3)] s' by simp
qed

lemma allocs_all:
  assumes "inv s" "card (inuse s) + length as \<le> cap s"
  shows "\<exists>ps s'. slot_allocs alloc as s = Inr (ps, s') \<and> length ps = length as \<and> distinct ps \<and>
     set ps \<inter> inuse s = {} \<and> inuse s' = inuse s \<union> set ps \<and> inv s'"
  using assms
proof (induction as arbitrary: s)
  case Nil
  then show ?case by simp
next
  case (Cons a as)
  have "inuse s \<noteq> {..<cap s}" using Cons.prems(2) by (intro card_less_not_full) simp
  then obtain p s1 where p: "alloc a s = Inr (Some p, s1)" "p \<notin> inuse s" "inuse s1 = insert p (inuse s)"
    "cap s1 = cap s" "inv s1" using alloc_slot [OF Cons.prems(1), of a] by auto
  have "finite (inuse s)" using finite_subset [OF inuse_cap [OF Cons.prems(1)]] by simp
  then have "card (inuse s1) + length as \<le> cap s1" using p Cons.prems(2) by simp
  then obtain ps s' where "slot_allocs alloc as s1 = Inr (ps, s')" "length ps = length as" "distinct ps"
    "set ps \<inter> inuse s1 = {}" "inuse s' = inuse s1 \<union> set ps" "inv s'" using Cons.IH [OF p(5)] by auto
  then show ?case using p by auto
qed

end

text \<open>
  The invariants of the two tables: their size, the counter of slots in use, and the
  position of the last allocation.
\<close>

definition gtab_inuse :: "dtrs \<Rightarrow> nat set" where
  "gtab_inuse s = {i. i < length (gtab s) \<and> gt_allocated (gtab s ! i)}"

definition gtab_ok :: "dtrs \<Rightarrow> bool" where
  "gtab_ok s \<longleftrightarrow> length (gtab s) = nmaxthread s \<and> last_slot (mgrstate s) < nmaxthread s \<and>
     threads_alloc (mgrstate s) = int (card (gtab_inuse s))"

definition ltab_inuse :: "dtrs \<Rightarrow> nat set" where
  "ltab_inuse s = {i. i < length (ltab s) \<and> lt_pth_state (ltab s ! i) \<noteq> LT_NONE}"

definition ltab_ok :: "dtrs \<Rightarrow> bool" where
  "ltab_ok s \<longleftrightarrow> length (ltab s) = nmaxthread s \<and> ltab_lastslot (mgrstate s) < nmaxthread s \<and>
     mg_ltab_alloc (mgrstate s) = int (card (ltab_inuse s))"

lemma finite_gtab_inuse [simp]: "finite (gtab_inuse s)"
  by (simp add: gtab_inuse_def)

lemma finite_ltab_inuse [simp]: "finite (ltab_inuse s)"
  by (simp add: ltab_inuse_def)

lemma gtab_alloc_slot:
  assumes "gtab_ok s" "gtab_inuse s \<noteq> {..<nmaxthread s}"
  shows "\<exists>p s'. gtab_alloc r d a s = Inr (Some p, s') \<and> p \<notin> gtab_inuse s \<and> p < nmaxthread s \<and>
     gtab_inuse s' = insert p (gtab_inuse s) \<and> nmaxthread s' = nmaxthread s \<and> gtab_ok s' \<and>
     seqsrc s' = next_seq s (seqsrc s) \<and>
     gtab s' = (gtab s)[p := (gtab s ! p)\<lparr>gt_rank := r, gt_seq := seqsrc s, gt_disp_idx := d, gt_arg := a,
       gt_ret := (gt_ret (gtab s ! p))\<lparr>dt_argret_type := DTHREAD_NODATA\<rparr>, gt_detached := False,
       gt_terminated := LT_NONE, gt_has_ltab := False, gt_allocated := True\<rparr>]"
proof -
  have sub: "gtab_inuse s \<subseteq> {..<nmaxthread s}" using assms by (auto simp: gtab_inuse_def gtab_ok_def)
  then have c: "card (gtab_inuse s) < nmaxthread s" using assms card_full by simp
  have "\<exists>p < nmaxthread s. \<not> gt_allocated (gtab s ! p)"
    using sub assms by (auto simp: gtab_inuse_def gtab_ok_def)
  then obtain p where p: "next_slot (\<lambda>p. \<not> gt_allocated (gtab s ! p)) (nmaxthread s) (last_slot (mgrstate s))
      (last_slot (mgrstate s)) = Some (Some p)" "p < nmaxthread s" "\<not> gt_allocated (gtab s ! p)"
    using next_slot_free [of "last_slot (mgrstate s)" "nmaxthread s" "\<lambda>p. \<not> gt_allocated (gtab s ! p)"] assms(1)
    unfolding gtab_ok_def by blast
  define gt where "gt = (gtab s ! p)\<lparr>gt_rank := r, gt_seq := seqsrc s, gt_disp_idx := d, gt_arg := a,
       gt_ret := (gt_ret (gtab s ! p))\<lparr>dt_argret_type := DTHREAD_NODATA\<rparr>, gt_detached := False,
       gt_terminated := LT_NONE, gt_has_ltab := False, gt_allocated := True\<rparr>"
  define s' where "s' = s\<lparr>seqsrc := next_seq s (seqsrc s), gtab := (gtab s)[p := gt], mgrstate :=
      (mgrstate s)\<lparr>threads_alloc := threads_alloc (mgrstate s) + 1, last_slot := p\<rparr>\<rparr>"
  have run: "gtab_alloc r d a s = Inr (Some p, s')"
    using p(1) c assms(1)
    by (simp add: s'_def gt_def gtab_alloc_def gtab_ok_def get_free_seq_NONE seq_step_def Let_def mgr_ops)
  have use: "gtab_inuse s' = insert p (gtab_inuse s)"
    using p(2) assms(1) by (auto simp: s'_def gt_def gtab_ok_def gtab_inuse_def nth_list_update)
  have new: "p \<notin> gtab_inuse s" using p(3) by (simp add: gtab_inuse_def)
  have "card (gtab_inuse s') = Suc (card (gtab_inuse s))" using use new by simp
  then have "gtab_ok s'" using assms(1) p(2) by (simp add: gtab_ok_def s'_def)
  then show ?thesis using run use p(2) new by (intro exI [of _ p] exI [of _ s']) (simp add: s'_def gt_def)
qed

lemma gtab_free_slot:
  assumes "gtab_ok s" "p < nmaxthread s"
  shows "gtab_inuse (gtab_free p s) = gtab_inuse s - {p} \<and> nmaxthread (gtab_free p s) = nmaxthread s \<and>
    gtab_ok (gtab_free p s)"
proof (cases "gt_allocated (gtab s ! p)")
  case True
  have use: "gtab_inuse (gtab_free p s) = gtab_inuse s - {p}"
    using True assms by (auto simp: gtab_free_def mgr_ops gtab_inuse_def nth_list_update gtab_ok_def)
  moreover have "p \<in> gtab_inuse s" using True assms by (simp add: gtab_inuse_def gtab_ok_def)
  then have "int (card (gtab_inuse s - {p})) = int (card (gtab_inuse s)) - 1"
    by (intro int_card_remove) simp_all
  ultimately show ?thesis using True assms by (simp add: gtab_ok_def) (simp add: gtab_free_def mgr_ops)
next
  case False
  then show ?thesis using assms by (auto simp: gtab_free_def gtab_inuse_def)
qed

interpretation gslot: slot_table "\<lambda>(r, d, a). gtab_alloc r d a" gtab_free gtab_inuse nmaxthread gtab_ok
proof
  show "gtab_inuse s \<subseteq> {..<nmaxthread s}" if "gtab_ok s" for s
    using that by (auto simp: gtab_inuse_def gtab_ok_def)
  show "(case a of (r, d, a) \<Rightarrow> gtab_alloc r d a) s = Inr (None, s)"
    if "gtab_ok s" "gtab_inuse s = {..<nmaxthread s}" for s a
    using that by (auto simp: gtab_alloc_def gtab_ok_def split: prod.splits)
  show "\<exists>p s'. (case a of (r, d, a) \<Rightarrow> gtab_alloc r d a) s = Inr (Some p, s') \<and> p \<notin> gtab_inuse s \<and>
      gtab_inuse s' = insert p (gtab_inuse s) \<and> nmaxthread s' = nmaxthread s \<and> gtab_ok s'"
    if "gtab_ok s" "gtab_inuse s \<noteq> {..<nmaxthread s}" for s a
    using gtab_alloc_slot [OF that] by (cases a) (simp, blast)
  show "gtab_inuse (gtab_free p s) = gtab_inuse s - {p} \<and> nmaxthread (gtab_free p s) = nmaxthread s \<and>
    gtab_ok (gtab_free p s)" if "gtab_ok s" "p < nmaxthread s" for s p
    using gtab_free_slot [OF that] .
qed

lemma ltab_alloc_slot:
  assumes "ltab_ok s" "ltab_inuse s \<noteq> {..<nmaxthread s}"
  shows "\<exists>p s'. ltab_alloc th s = Inr (Some p, s') \<and> p \<notin> ltab_inuse s \<and> p < nmaxthread s \<and>
     ltab_inuse s' = insert p (ltab_inuse s) \<and> nmaxthread s' = nmaxthread s \<and> ltab_ok s' \<and>
     ltab s' = (ltab s)[p := (ltab s ! p)\<lparr>lt_gtab_idx := dt_index th, lt_seq := dt_seq th,
       lt_pth_state := LT_STARTING\<rparr>]"
proof -
  have sub: "ltab_inuse s \<subseteq> {..<nmaxthread s}" using assms by (auto simp: ltab_inuse_def ltab_ok_def)
  then have c: "card (ltab_inuse s) < nmaxthread s" using assms card_full by simp
  have "\<exists>p < nmaxthread s. lt_pth_state (ltab s ! p) = LT_NONE"
    using sub assms by (auto simp: ltab_inuse_def ltab_ok_def)
  then obtain p where p: "(if mg_ltab_alloc (mgrstate s) = 0 then Inr (Some 0)
         else or_fault Diverges
             (next_slot (\<lambda>p. lt_pth_state (ltab s ! p) = LT_NONE) (nmaxthread s)
                (ltab_lastslot (mgrstate s)) (ltab_lastslot (mgrstate s)))) = Inr (Some p)"
      "p < nmaxthread s" "lt_pth_state (ltab s ! p) = LT_NONE"
  proof (cases "mg_ltab_alloc (mgrstate s) = 0")
    case True
    then have "ltab_inuse s = {}" using assms(1) by (simp add: ltab_ok_def)
    then have "lt_pth_state (ltab s ! 0) = LT_NONE" using c assms(1) by (auto simp: ltab_inuse_def ltab_ok_def)
    with True c that show ?thesis by simp
  next
    case False
    then show ?thesis
      using next_slot_free [of "ltab_lastslot (mgrstate s)" "nmaxthread s" "\<lambda>p. lt_pth_state (ltab s ! p) = LT_NONE"]
        \<open>\<exists>p < nmaxthread s. _ p\<close> assms(1) that by (auto simp: ltab_ok_def)
  qed
  define lt where "lt = (ltab s ! p)\<lparr>lt_gtab_idx := dt_index th, lt_seq := dt_seq th, lt_pth_state := LT_STARTING\<rparr>"
  define s' where "s' = s\<lparr>ltab := (ltab s)[p := lt], mgrstate :=
      (mgrstate s)\<lparr>mg_ltab_alloc := mg_ltab_alloc (mgrstate s) + 1, ltab_lastslot := p\<rparr>\<rparr>"
  have "mg_ltab_alloc (mgrstate s) < int (nmaxthread s)" using c assms(1) by (simp add: ltab_ok_def)
  then have run: "ltab_alloc th s = Inr (Some p, s')"
    unfolding ltab_alloc_def p(1) by (simp add: s'_def lt_def mgr_ops)
  have use: "ltab_inuse s' = insert p (ltab_inuse s)"
    using p(2) assms(1) by (auto simp: s'_def lt_def ltab_ok_def ltab_inuse_def nth_list_update)
  have new: "p \<notin> ltab_inuse s" using p(3) by (simp add: ltab_inuse_def)
  have "card (ltab_inuse s') = Suc (card (ltab_inuse s))" using use new by simp
  then have "ltab_ok s'" using assms(1) p(2) by (simp add: ltab_ok_def s'_def)
  then show ?thesis using run use p(2) new by (intro exI [of _ p] exI [of _ s']) (simp add: s'_def lt_def)
qed

lemma ltab_free_slot:
  assumes "ltab_ok s" "p < nmaxthread s"
  shows "ltab_inuse (ltab_free p s) = ltab_inuse s - {p} \<and> nmaxthread (ltab_free p s) = nmaxthread s \<and>
    ltab_ok (ltab_free p s)"
proof (cases "lt_pth_state (ltab s ! p) \<noteq> LT_NONE")
  case True
  have use: "ltab_inuse (ltab_free p s) = ltab_inuse s - {p}"
    using True assms by (auto simp: ltab_free_def mgr_ops ltab_inuse_def nth_list_update ltab_ok_def)
  moreover have "p \<in> ltab_inuse s" using True assms by (simp add: ltab_inuse_def ltab_ok_def)
  then have "int (card (ltab_inuse s - {p})) = int (card (ltab_inuse s)) - 1"
    by (intro int_card_remove) simp_all
  ultimately show ?thesis using True assms by (simp add: ltab_ok_def) (simp add: ltab_free_def mgr_ops)
next
  case False
  then show ?thesis using assms by (auto simp: ltab_free_def ltab_inuse_def)
qed

interpretation lslot: slot_table ltab_alloc ltab_free ltab_inuse nmaxthread ltab_ok
proof
  show "ltab_inuse s \<subseteq> {..<nmaxthread s}" if "ltab_ok s" for s
    using that by (auto simp: ltab_inuse_def ltab_ok_def)
  show "ltab_alloc a s = Inr (None, s)" if "ltab_ok s" "ltab_inuse s = {..<nmaxthread s}" for s a
    using that by (auto simp: ltab_alloc_def ltab_ok_def)
  show "\<exists>p s'. ltab_alloc a s = Inr (Some p, s') \<and> p \<notin> ltab_inuse s \<and>
      ltab_inuse s' = insert p (ltab_inuse s) \<and> nmaxthread s' = nmaxthread s \<and> ltab_ok s'"
    if "ltab_ok s" "ltab_inuse s \<noteq> {..<nmaxthread s}" for s a
    using ltab_alloc_slot [OF that] by blast
  show "ltab_inuse (ltab_free p s) = ltab_inuse s - {p} \<and> nmaxthread (ltab_free p s) = nmaxthread s \<and>
    ltab_ok (ltab_free p s)" if "ltab_ok s" "p < nmaxthread s" for s p
    using ltab_free_slot [OF that] .
qed

subsection \<open>Properties of the tables\<close>

text \<open>
  C14. Transaction numbers: with fewer pending requests than the rank has numbers,
  \<^verbatim>\<open>get_free_seq\<close> returns.  The number is one of this rank (so no other rank can
  produce it), is not 0 (the mark of a free slot), and is not the number of a pending
  request of that operation; nothing but the source of numbers changes.
\<close>

theorem get_free_seq_returns:
  assumes "seq_ok s" and "length (rpending (mgrstate s)) < seq_period s"
  shows "\<exists>seq x. get_free_seq op s = Some (seq, s\<lparr>seqsrc := x\<rparr>) \<and> seq_ok (s\<lparr>seqsrc := x\<rparr>) \<and>
     uint seq mod mpi_wsize s = mpi_rank s \<and> seq \<noteq> 0 \<and>
     (op \<noteq> DTOP_NONE \<longrightarrow> find_pending_req op seq s = None)"
proof -
  obtain seq x where g: "get_free_seq op s = Some (seq, s\<lparr>seqsrc := x\<rparr>)" "seq_ok (s\<lparr>seqsrc := x\<rparr>)"
     "uint seq mod mpi_wsize s = mpi_rank s" "mpi_wsize s \<le> uint seq"
     "op \<noteq> DTOP_NONE \<longrightarrow> find_pending_req op seq s = None" using get_free_seq_total [OF assms] by blast
  have "seq \<noteq> 0" using g(4) assms(1) by (auto simp: seq_ok_def)
  with g show ?thesis by blast
qed

text \<open>
  C22. The global table: as many allocations as there are free slots all succeed, each
  with a slot of its own that was free; when all slots are in use the allocation is
  refused and changes nothing.
\<close>

theorem gtab_alloc_distinct:
  assumes "gtab_ok s" and "card (gtab_inuse s) + length reqs \<le> nmaxthread s"
  shows "(\<exists>ps s'. slot_allocs (\<lambda>(r, d, a). gtab_alloc r d a) reqs s = Inr (ps, s') \<and>
      length ps = length reqs \<and> distinct ps \<and> set ps \<inter> gtab_inuse s = {} \<and>
      gtab_inuse s' = gtab_inuse s \<union> set ps \<and> gtab_ok s') \<and>
     (gtab_inuse s = {..<nmaxthread s} \<longrightarrow> gtab_alloc r d a s = Inr (None, s))"
  using gslot.allocs_all [OF assms] gslot.alloc_full [OF assms(1), of "(r, d, a)"] by simp

text \<open>
  A slot is reused as late as possible: the slot allocated is the first free one
  after the last slot allocated, in cyclic order.
\<close>

theorem gtab_alloc_cyclic:
  assumes "gtab_ok s" and "threads_alloc (mgrstate s) < int (nmaxthread s)"
  shows "\<exists>s'. gtab_alloc r d a s =
    Inr (find (\<lambda>p. \<not> gt_allocated (gtab s ! p)) (scan_order (nmaxthread s) (last_slot (mgrstate s))), s')"
proof -
  have "card (gtab_inuse s) < nmaxthread s" using assms by (simp add: gtab_ok_def)
  then have "gtab_inuse s \<noteq> {..<nmaxthread s}" by (rule card_less_not_full)
  then obtain p s' where "gtab_alloc r d a s = Inr (Some p, s')" using gtab_alloc_slot [OF assms(1)] by blast
  moreover have "next_slot (\<lambda>p. \<not> gt_allocated (gtab s ! p)) (nmaxthread s) (last_slot (mgrstate s))
      (last_slot (mgrstate s)) =
      Some (find (\<lambda>p. \<not> gt_allocated (gtab s ! p)) (scan_order (nmaxthread s) (last_slot (mgrstate s))))"
    using assms(1) by (intro next_slot_eq) (simp add: gtab_ok_def)
  ultimately show ?thesis
    by (auto simp: gtab_alloc_def Let_def split: if_splits option.splits)
qed

text \<open>
  The local table: allocating a slot takes a free one, and freeing it afterwards
  leaves exactly the slots in use that were in use before.
\<close>

theorem ltab_alloc_free:
  assumes "ltab_ok s" and "ltab_inuse s \<noteq> {..<nmaxthread s}"
  shows "\<exists>p s'. ltab_alloc th s = Inr (Some p, s') \<and> p \<notin> ltab_inuse s \<and> ltab_ok s' \<and>
     lt_pth_state (ltab s' ! p) = LT_STARTING \<and> ltab_inuse (ltab_free p s') = ltab_inuse s"
proof -
  obtain p s' where p: "ltab_alloc th s = Inr (Some p, s')" "p \<notin> ltab_inuse s" "p < nmaxthread s" "ltab_ok s'"
    "ltab s' = (ltab s)[p := (ltab s ! p)\<lparr>lt_gtab_idx := dt_index th, lt_seq := dt_seq th,
       lt_pth_state := LT_STARTING\<rparr>]" using ltab_alloc_slot [OF assms] by blast
  have "lt_pth_state (ltab s' ! p) = LT_STARTING" using p(3,5) assms(1) by (simp add: ltab_ok_def)
  then show ?thesis using p lslot.alloc_free [OF assms(1) p(1)] by blast
qed

text \<open>
  C13. Stale handles are rejected: after a slot has been freed and allocated again, the
  handle of its former thread is not valid, as long as fewer numbers have been drawn
  in between than the rank has.
\<close>

theorem stale_handle_rejected:
  assumes "seq_ok s" and "i < j" and "j < i + seq_period s"
    and "dt_seq h = (next_seq s ^^ i) (seqsrc s)"
    and "seqsrc s1 = (next_seq s ^^ j) (seqsrc s)" and "gtab_ok s1"
    and "gtab_alloc r d a s1 = Inr (Some p, s2)" and "unat (dt_index h) = p"
  shows "dthread_dt2gtab h s2 = None"
proof -
  have "gtab_inuse s1 \<noteq> {..<nmaxthread s1}"
    using assms(7) gslot.alloc_full [OF assms(6), of "(r, d, a)"] by auto
  then have "gt_seq (gtab s2 ! p) = seqsrc s1 \<and> p < nmaxthread s2"
    using gtab_alloc_slot [OF assms(6), of r d a] assms(6,7) by (auto simp: gtab_ok_def)
  then show ?thesis
    using seq_cycle_distinct [OF assms(1-3)] assms(4,5,8) by (auto simp: dthread_dt2gtab_def Let_def)
qed

text \<open>A rank 0 of 4 with 3 thread slots, as \<^verbatim>\<open>dthread_run\<close> leaves it.\<close>

definition rank_ex :: dtrs where
  "rank_ex = dtrs_init 0 4 [] 3 [] [] (zero_argret, 0, 0)"

lemma rank_ex_seq_ok: "seq_ok rank_ex"
  by (simp add: rank_ex_def dtrs_init_def seq_ok_def)

lemma rank_ex_inuse: "gtab_inuse rank_ex = {}" "ltab_inuse rank_ex = {}"
  by (auto simp: rank_ex_def dtrs_init_def gtab_inuse_def ltab_inuse_def zero_gtab_def zero_ltab_def)

lemma rank_ex_tables: "gtab_ok rank_ex" "ltab_ok rank_ex" "nmaxthread rank_ex = 3"
  using rank_ex_inuse by (simp_all add: gtab_ok_def ltab_ok_def)
    (simp_all add: rank_ex_def dtrs_init_def zero_mgrstate_def)

theorem get_free_seq_returns_witness:
  "\<exists>seq x. get_free_seq DTOP_JOIN rank_ex = Some (seq, rank_ex\<lparr>seqsrc := x\<rparr>) \<and> uint seq mod 4 = 0 \<and> seq \<noteq> 0"
  using get_free_seq_returns [OF rank_ex_seq_ok, of DTOP_JOIN]
  by (auto simp: rank_ex_def dtrs_init_def zero_mgrstate_def seq_period_def)

theorem gtab_alloc_distinct_witness:
  "\<exists>p q s'. slot_allocs (\<lambda>(r, d, a). gtab_alloc r d a) [(1, 1, zero_argret), (2, 1, zero_argret)] rank_ex =
     Inr ([p, q], s') \<and> p \<noteq> q"
  using gtab_alloc_distinct [OF rank_ex_tables(1), of "[(1, 1, zero_argret), (2, 1, zero_argret)]" 0 0 zero_argret]
  by (auto simp: rank_ex_inuse rank_ex_tables length_Suc_conv)

theorem gtab_alloc_cyclic_witness: "\<exists>s'. gtab_alloc 1 1 zero_argret rank_ex = Inr (Some 1, s')"
  using gtab_alloc_cyclic [OF rank_ex_tables(1), of 1 1 zero_argret]
  by (simp add: rank_ex_def dtrs_init_def zero_mgrstate_def scan_order_def zero_gtab_def upt_rec)

theorem ltab_alloc_free_witness:
  "\<exists>p s'. ltab_alloc zero_thread rank_ex = Inr (Some p, s') \<and> ltab_inuse (ltab_free p s') = {}"
  using ltab_alloc_free [OF rank_ex_tables(2), of zero_thread] card_less_not_full [of "{}" 3]
  by (auto simp: rank_ex_inuse rank_ex_tables)

theorem stale_handle_rejected_witness:
  "\<exists>p s2. gtab_alloc 1 1 zero_argret (rank_ex\<lparr>seqsrc := next_seq rank_ex (seqsrc rank_ex)\<rparr>) = Inr (Some p, s2) \<and>
     dthread_dt2gtab \<lparr>dt_index = 1, dt_seq = seqsrc rank_ex\<rparr> s2 = None"
proof -
  let ?s1 = "rank_ex\<lparr>seqsrc := next_seq rank_ex (seqsrc rank_ex)\<rparr>"
  have ok: "gtab_ok ?s1" using rank_ex_tables(1) by (simp add: gtab_ok_def gtab_inuse_def)
  obtain s2 where s2: "gtab_alloc 1 1 zero_argret ?s1 = Inr (Some 1, s2)"
    by (simp add: rank_ex_def dtrs_init_def zero_mgrstate_def zero_gtab_def gtab_alloc_def
        get_free_seq_NONE seq_step_def next_slot.simps)
  have "dthread_dt2gtab \<lparr>dt_index = 1, dt_seq = seqsrc rank_ex\<rparr> s2 = None"
    by (rule stale_handle_rejected [OF rank_ex_seq_ok, of 0 1 _ ?s1 1 1 zero_argret 1])
      (use s2 ok in \<open>simp_all add: seq_period_def rank_ex_def dtrs_init_def\<close>)
  with s2 show ?thesis by blast
qed

end
