(* ===== verification/Dt_Router.thy ===== *)
theory Dt_Router
  imports Dt_Prelude
begin

text \<open>
  The binary broadcast tree over the ranks of the job (\<^verbatim>\<open>binary_router\<close> of
  \<^verbatim>\<open>dt_mgrthread.c\<close>), used to spread the shutdown.  Ranks and sizes are C ints; they
  are far below the range in which \<^verbatim>\<open>2 * rank + 1\<close> overflows, so they are \<open>int\<close> here.
\<close>

text \<open>The children of \<open>my_rank\<close>, in the order of the array \<^verbatim>\<open>children[]\<close>.\<close>

definition binary_router :: "int \<Rightarrow> int \<Rightarrow> int \<Rightarrow> int list" where
  "binary_router root_rank world_size my_rank =
     (let my_adjusted_rank = my_rank - root_rank;
          my_adjusted_rank = (if my_adjusted_rank < 0 then my_adjusted_rank + world_size else my_adjusted_rank);
          adjusted_child0 = my_adjusted_rank * 2 + 1
      in if adjusted_child0 \<ge> world_size then []
         else let child0 = (adjusted_child0 + root_rank) mod world_size
              in if adjusted_child0 = world_size - 1 then [child0]
                 else [child0, (child0 + 1) mod world_size])"

text \<open>
  The position of a rank in the tree that has the root at 0, and back.
\<close>

definition tree_pos :: "int \<Rightarrow> int \<Rightarrow> int \<Rightarrow> int" where
  "tree_pos root w x = (x - root) mod w"

definition tree_rank :: "int \<Rightarrow> int \<Rightarrow> int \<Rightarrow> int" where
  "tree_rank root w k = (k + root) mod w"

definition is_rank :: "int \<Rightarrow> int \<Rightarrow> bool" where
  "is_rank w x \<longleftrightarrow> 0 \<le> x \<and> x < w"

lemma tree_pos_range: "is_rank w root \<Longrightarrow> is_rank w (tree_pos root w x)"
  by (auto simp: is_rank_def tree_pos_def)

lemma tree_rank_range: "is_rank w root \<Longrightarrow> is_rank w (tree_rank root w k)"
  by (auto simp: is_rank_def tree_rank_def)

lemma tree_rank_pos [simp]: "is_rank w x \<Longrightarrow> tree_rank root w (tree_pos root w x) = x"
  by (simp add: is_rank_def tree_pos_def tree_rank_def mod_simps)

lemma tree_pos_rank [simp]: "is_rank w k \<Longrightarrow> tree_pos root w (tree_rank root w k) = k"
  by (simp add: is_rank_def tree_pos_def tree_rank_def mod_simps)

lemma tree_pos_root: "is_rank w root \<Longrightarrow> is_rank w x \<Longrightarrow> tree_pos root w x = 0 \<longleftrightarrow> x = root"
  by (metis add_0 diff_self is_rank_def mod_0 mod_pos_pos_trivial tree_pos_def tree_rank_def tree_rank_pos)

text \<open>The router computes the children of a heap-ordered binary tree on the positions.\<close>

lemma binary_router_eq:
  assumes "is_rank w root" "is_rank w me"
  shows "binary_router root w me =
     map (tree_rank root w) (filter (\<lambda>k. k < w) [2 * tree_pos root w me + 1, 2 * tree_pos root w me + 2])"
proof -
  have adj: "(if me - root < 0 then me - root + w else me - root) = tree_pos root w me"
    using assms mod_pos_pos_trivial [of "me - root + w" w] mod_pos_pos_trivial [of "me - root" w]
    by (auto simp: is_rank_def tree_pos_def)
  define t where "t = tree_pos root w me"
  have "((2 * t + 1 + root) mod w + 1) mod w = (2 * t + 1 + root + 1) mod w" by (rule mod_add_left_eq)
  then have "((2 * t + 1 + root) mod w + 1) mod w = (2 * t + 2 + root) mod w" by (simp add: algebra_simps)
  then show ?thesis
    unfolding binary_router_def Let_def adj t_def [symmetric] tree_rank_def
    by (auto simp: mult.commute [of t 2])
qed

lemma tree_rank_eq_iff:
  "is_rank w j \<Longrightarrow> is_rank w k \<Longrightarrow> tree_rank root w j = tree_rank root w k \<longleftrightarrow> j = k"
  by (metis tree_pos_rank)

lemma router_child_iff:
  assumes "is_rank w root" "is_rank w p" "is_rank w c"
  shows "c \<in> set (binary_router root w p) \<longleftrightarrow>
     c \<noteq> root \<and> tree_pos root w p = (tree_pos root w c - 1) div 2"
proof -
  have pos: "is_rank w (tree_pos root w p)" "is_rank w (tree_pos root w c)"
    using assms tree_pos_range by blast+
  have "c = tree_rank root w k \<longleftrightarrow> tree_pos root w c = k" if "is_rank w k" for k
    using that assms(3) by auto
  then have "c \<in> set (binary_router root w p) \<longleftrightarrow>
      tree_pos root w c \<in> {2 * tree_pos root w p + 1, 2 * tree_pos root w p + 2}"
    using assms(1,2) pos by (auto simp: binary_router_eq is_rank_def)
  also have "\<dots> \<longleftrightarrow> tree_pos root w c \<noteq> 0 \<and> tree_pos root w p = (tree_pos root w c - 1) div 2"
    using pos unfolding is_rank_def insert_iff empty_iff by presburger
  finally show ?thesis using tree_pos_root assms by simp
qed

lemma router_children_ranks:
  assumes "is_rank w root" "is_rank w p" "c \<in> set (binary_router root w p)"
  shows "is_rank w c"
  using assms by (auto simp: binary_router_eq intro: tree_rank_range)

lemma router_distinct:
  assumes "is_rank w root" "is_rank w p"
  shows "distinct (binary_router root w p)"
proof -
  have "0 \<le> tree_pos root w p" using tree_pos_range assms by (auto simp: is_rank_def)
  then show ?thesis using assms by (auto simp: binary_router_eq tree_rank_eq_iff is_rank_def)
qed

text \<open>\<open>n\<close> hops in the tree.\<close>

primrec hops :: "int \<Rightarrow> int \<Rightarrow> nat \<Rightarrow> int \<Rightarrow> int \<Rightarrow> bool" where
  "hops root w 0 p c \<longleftrightarrow> c = p"
| "hops root w (Suc n) p c \<longleftrightarrow>
     (\<exists>q. is_rank w q \<and> hops root w n p q \<and> c \<in> set (binary_router root w q))"

lemma hops_depth:
  assumes "is_rank w root" "is_rank w c" "tree_pos root w c < 2 ^ Suc n - 1" "2 ^ n - 1 \<le> tree_pos root w c"
  shows "hops root w n root c"
  using assms
proof (induction n arbitrary: c)
  case 0
  then show ?case using tree_pos_root [of w root c] tree_pos_range [of w root c] by (auto simp: is_rank_def)
next
  case (Suc n)
  define k where "k = tree_pos root w c"
  define p where "p = tree_rank root w ((k - 1) div 2)"
  have k: "is_rank w k" "2 ^ Suc n - 1 \<le> k" "k < 2 ^ Suc (Suc n) - 1"
    using Suc.prems tree_pos_range by (auto simp: k_def)
  have "(1::int) \<le> 2 ^ n" by simp
  with k(2) have k1: "1 \<le> k" unfolding power_Suc by linarith
  then have "is_rank w ((k - 1) div 2)" using k(1) by (auto simp: is_rank_def)
  then have p: "is_rank w p" "tree_pos root w p = (k - 1) div 2"
    using Suc.prems(1) by (auto simp: p_def tree_rank_range)
  have "c \<noteq> root" using tree_pos_root [OF Suc.prems(1,2)] k1 by (auto simp: k_def)
  then have "c \<in> set (binary_router root w p)"
    using router_child_iff [OF Suc.prems(1) p(1) Suc.prems(2)] p(2) by (simp add: k_def)
  moreover have "hops root w n root p"
    using k p Suc.prems(1) by (intro Suc.IH) auto
  ultimately show ?case using p(1) by auto
qed

lemma pow2_bracket: "0 \<le> k \<Longrightarrow> \<exists>n. 2 ^ n - 1 \<le> k \<and> k < (2::int) ^ Suc n - 1"
proof -
  assume "0 \<le> k"
  then obtain m where m: "k + 1 = int m" "1 \<le> m" using zero_le_imp_eq_int [of "k + 1"] by fastforce
  then obtain n where "2 ^ n \<le> m" "m < 2 ^ (n + 1)" using ex_power_ivl1 [of 2 m] by auto
  then have "int (2 ^ n) \<le> k + 1" "k + 1 < int (2 ^ (n + 1))" unfolding m(1) by presburger+
  then show ?thesis by (intro exI [of _ n]) simp
qed

text \<open>
  C20. The broadcast tree is a tree: every rank other than the root is the child of
  exactly one rank, the root is the child of none, and the children of a rank are
  distinct ranks of the job.  So a broadcast delivers one message to each rank.
\<close>

theorem router_unique_parent:
  assumes "is_rank w root" and "is_rank w c"
  shows "(if c = root then \<forall>p. is_rank w p \<longrightarrow> c \<notin> set (binary_router root w p)
          else \<exists>!p. is_rank w p \<and> c \<in> set (binary_router root w p)) \<and>
         distinct (binary_router root w c) \<and> (\<forall>d \<in> set (binary_router root w c). is_rank w d)"
proof -
  have u: "\<exists>!p. is_rank w p \<and> c \<in> set (binary_router root w p)" if "c \<noteq> root"
  proof (rule ex1I [of _ "tree_rank root w ((tree_pos root w c - 1) div 2)"])
    have k: "is_rank w (tree_pos root w c)" "tree_pos root w c \<noteq> 0"
      using that assms tree_pos_range tree_pos_root by auto
    then have "is_rank w ((tree_pos root w c - 1) div 2)" by (auto simp: is_rank_def)
    then show "is_rank w (tree_rank root w ((tree_pos root w c - 1) div 2)) \<and>
        c \<in> set (binary_router root w (tree_rank root w ((tree_pos root w c - 1) div 2)))"
      using assms that by (simp add: router_child_iff tree_rank_range)
  next
    fix p assume "is_rank w p \<and> c \<in> set (binary_router root w p)"
    then show "p = tree_rank root w ((tree_pos root w c - 1) div 2)"
      using assms router_child_iff tree_rank_pos by metis
  qed
  have r: "c \<notin> set (binary_router root w p)" if "c = root" "is_rank w p" for p
    using router_child_iff [OF assms(1) that(2) assms(2)] that(1) by simp
  show ?thesis
    using u r router_distinct [OF assms] router_children_ranks [OF assms] by (cases "c = root") simp_all
qed

text \<open>
  C21. The broadcast reaches every rank, within the depth of a balanced binary tree:
  a rank is reached from the root in \<open>n\<close> hops for an \<open>n\<close> with \<open>2 ^ n \<le> w\<close>.
\<close>

theorem router_reaches_all:
  assumes "is_rank w root" and "is_rank w c"
  shows "\<exists>n. 2 ^ n \<le> w \<and> hops root w n root c"
proof -
  have "is_rank w (tree_pos root w c)" using assms tree_pos_range by blast
  moreover obtain n where "2 ^ n - 1 \<le> tree_pos root w c" "tree_pos root w c < 2 ^ Suc n - 1"
    using pow2_bracket calculation by (auto simp: is_rank_def)
  ultimately show ?thesis using hops_depth [OF assms] by (intro exI [of _ n]) (auto simp: is_rank_def)
qed

theorem router_unique_parent_witness:
  "(\<exists>!p. is_rank 6 p \<and> 4 \<in> set (binary_router 2 6 p)) \<and> binary_router 2 6 4 = [1]"
  using router_unique_parent [of 6 2 4] by (simp add: is_rank_def binary_router_def)

theorem router_reaches_all_witness: "\<exists>n. 2 ^ n \<le> (5 :: int) \<and> hops 0 5 n 0 4"
  by (rule router_reaches_all) (simp_all add: is_rank_def)

end
