(* ===== verification/Dt_Manager.thy ===== *)
theory Dt_Manager
  imports Dt_Tables Dt_Router
begin

text \<open>
  The manager thread of a rank (\<^verbatim>\<open>libdthread/dt_mgrthread.c\<close>): one definition per
  message handler, \<^verbatim>\<open>process_mqe\<close>, \<^verbatim>\<open>process_req\<close>, the start of the application and the
  turns of the main loop.  A handler gets the decoded fields of the message it casts
  the frame to.  Handlers that can run into undefined behaviour or loop return a
  \<^typ>\<open>dtrs res\<close>.  A handler is one step of the rank: the manager is the only thread that
  touches \<^verbatim>\<open>mgrstate\<close> and, on rank 0, the allocation fields of \<^verbatim>\<open>gtab[]\<close>.
\<close>

subsection \<open>Queue operations on the rank state\<close>

definition mqe_alloc :: "dtrs \<Rightarrow> nat option \<times> dtrs" where
  "mqe_alloc s = (let (m, q) = dtq_mqe_alloc (dtq s) in (m, s\<lparr>dtq := q\<rparr>))"

definition recv_release :: "nat \<Rightarrow> dtrs \<Rightarrow> dtrs" where
  [mgr_ops]: "recv_release m s = s\<lparr>dtq := dtq_recv_release m (dtq s)\<rparr>"

text \<open>
  The pattern \<^verbatim>\<open>mqe = dtq_send_enqueue(mqe); if (mqe) dtq_mqe_unalloc(mqe);\<close>: the result
  tells whether the entry was queued.
\<close>

definition send_or_unalloc :: "nat \<Rightarrow> dtrs \<Rightarrow> bool \<times> dtrs" where
  "send_or_unalloc m s =
     (let (r, q) = dtq_send_enqueue (mpi_rank s) (peer (mqes s m)) m (dtq s)
      in case r of
           None \<Rightarrow> (True, s\<lparr>dtq := q\<rparr>)
         | Some m' \<Rightarrow> (False, s\<lparr>dtq := dtq_mqe_unalloc m' q\<rparr>))"

text \<open>
  Comparison of the \<^verbatim>\<open>int\<close> length of a frame with a \<^verbatim>\<open>size_t\<close>: the length is converted
  to unsigned.
\<close>

definition flen_lt :: "int \<Rightarrow> int \<Rightarrow> bool" where
  "flen_lt f n \<longleftrightarrow> f mod 2 ^ 64 < n"

text \<open>\<^verbatim>\<open>recycle_dtmsg_mqe\<close>, followed by the caller's writes to the new message.\<close>

definition recycle_dtmsg_mqe :: "nat \<Rightarrow> dtmsg_body \<Rightarrow> u32 \<Rightarrow> dtrs \<Rightarrow> dtrs" where
  [mgr_ops]: "recycle_dtmsg_mqe m body to_xidseq s =
     upd_mqe m (\<lambda>e. e\<lparr>flen := sizeof_dtmsg body, frame := \<lparr>msg_xidseq = to_xidseq, msg_body = body\<rparr>\<rparr>) s"

definition write_dtmsg :: "nat \<Rightarrow> dtmsg_body \<Rightarrow> u32 \<Rightarrow> int \<Rightarrow> dtrs \<Rightarrow> dtrs" where
  [mgr_ops]: "write_dtmsg m body xid to s =
     upd_mqe m (\<lambda>_. \<lparr>frame = \<lparr>msg_xidseq = xid, msg_body = body\<rparr>, flen = sizeof_dtmsg body, peer = to\<rparr>) s"

definition nodata_ret :: "dtrs \<Rightarrow> dthread_argret_t" where
  "nodata_ret s = (junk s)\<lparr>dt_argret_type := DTHREAD_NODATA\<rparr>"

subsection \<open>Pending requests\<close>

definition rm_pending :: "reqptr \<Rightarrow> dtrs \<Rightarrow> dtrs" where
  [mgr_ops]: "rm_pending r s = upd_mgr (\<lambda>m. m\<lparr>rpending := remove1 r (rpending m)\<rparr>) s"

definition add_pending :: "reqptr \<Rightarrow> dtrs \<Rightarrow> dtrs" where
  [mgr_ops]: "add_pending r s = upd_mgr (\<lambda>m. m\<lparr>rpending := rpending m @ [r]\<rparr>) s"

definition find_pending_msgreq :: "nat \<Rightarrow> dtop \<Rightarrow> int \<Rightarrow> dtrs \<Rightarrow> reqptr option \<times> dtrs" where
  "find_pending_msgreq m pending_op msgsize s =
     (let e = mqes s m
      in if flen_lt (flen e) sizeof_hdr \<or> flen_lt (flen e) msgsize then (None, s)
         else case find_pending_req pending_op (msg_xidseq (frame e)) s of
                None \<Rightarrow> (None, s)
              | Some r \<Rightarrow> (Some r, rm_pending r s))"

definition joinwait_search :: "dthread_t \<Rightarrow> bool \<Rightarrow> dtrs \<Rightarrow> reqptr option \<times> dtrs" where
  "joinwait_search thread rm s =
     (case find (\<lambda>r. reqop (get_req s r) = DTOP_JOINWAIT \<and>
                     dt_index (req_waitthread (get_req s r)) = dt_index thread \<and>
                     dt_seq (req_waitthread (get_req s r)) = dt_seq thread) (rpending (mgrstate s)) of
        None \<Rightarrow> (None, s)
      | Some r \<Rightarrow> (Some r, if rm then rm_pending r s else s))"

definition joinwait_end_release :: "reqptr \<Rightarrow> dtrs \<Rightarrow> dtrs" where
  "joinwait_end_release rqe s =
     (let s = (if reqop (get_req s rqe) \<noteq> DTOP_JOINWAIT then s
               else case mqe_alloc s of
                      (None, s) \<Rightarrow> s
                    | (Some m, s) \<Rightarrow>
                        let rq = get_req s rqe;
                            joinret = (if reqerror rq = 0
                                       then gt_ret (gtab s ! unat (dt_index (req_waitthread rq)))
                                       else nodata_ret s)
                        in snd (send_or_unalloc m
                             (write_dtmsg m (Dtmsg_joined (reqerror rq) joinret) (xidseq rq) (reqpeer rq) s)))
      in dtq_req_release rqe True s)"

definition detached_ret_cleanup :: "nat \<Rightarrow> dtrs \<Rightarrow> dtrs" where
  "detached_ret_cleanup gidx s =
     (let gt = gtab s ! gidx
      in if unat (gt_disp_idx gt) < 1 \<or> unat (gt_disp_idx gt) \<ge> ndsps s then s
         else case dt_retproc (dsps s ! unat (gt_disp_idx gt)) of
                None \<Rightarrow> s
              | Some proc \<Rightarrow>
                  let (_, ret, _) = proc DTHREAD_PROC_FREE (Some (gt_ret gt)) None;
                      ret = (case ret of None \<Rightarrow> gt_ret gt | Some r \<Rightarrow> r)
                  in upd_gtab gidx (\<lambda>gt. gt\<lparr>gt_ret := ret\<lparr>dt_argret_type := DTHREAD_NODATA\<rparr>\<rparr>) s)"

subsection \<open>Shutdown\<close>

definition shutdown_to :: "int \<Rightarrow> dtrs \<Rightarrow> dtrs" where
  "shutdown_to child s =
     (case mqe_alloc s of
        (None, s) \<Rightarrow> s
      | (Some m, s) \<Rightarrow> snd (send_or_unalloc m (write_dtmsg m Dtmsg_bcastshutdown 0 child s)))"

definition broadcast_shutdown :: "dtrs \<Rightarrow> dtrs" where
  "broadcast_shutdown s =
     (let s = fold shutdown_to (binary_router 0 (mpi_wsize s) (mpi_rank s)) s;
          s = s\<lparr>dtq := snd (dtq_send_draindown (dtq s))\<rparr>;
          s = upd_mgr (\<lambda>m. m\<lparr>draining := True\<rparr>) s
      in s\<lparr>dtq := dtq_notifytimelimit 10 (dtq s)\<rparr>)"

subsection \<open>Creating a thread\<close>

text \<open>POSIX: a stack below the minimum is refused and leaves the attributes as they were.\<close>

abbreviation (input) "PTHREAD_STACK_MIN \<equiv> (16384 :: u64)"

definition pthread_attr_setstack :: "u64 \<Rightarrow> u64 \<Rightarrow> dthread_attr_t \<Rightarrow> dthread_attr_t" where
  "pthread_attr_setstack addr stk_size a =
     (if stk_size < PTHREAD_STACK_MIN then a else a\<lparr>attr_stackaddr := addr, attr_stacksize := stk_size\<rparr>)"

definition sanitize_attrs :: "dthread_attr_t \<Rightarrow> dthread_attr_t" where
  "sanitize_attrs a =
     (let a = (if attr_detached a then a\<lparr>attr_detached := False\<rparr> else a)
      in pthread_attr_setstack 0 (attr_stacksize a) a)"

definition send_created_error :: "int \<Rightarrow> int \<Rightarrow> u32 \<Rightarrow> dtrs \<Rightarrow> dtrs" where
  "send_created_error errstatus to xid s =
     (case mqe_alloc s of
        (None, s) \<Rightarrow> s
      | (Some m, s) \<Rightarrow>
          snd (send_or_unalloc m (write_dtmsg m
            (Dtmsg_created errstatus \<lparr>dt_index = of_nat (nmaxthread s + 1), dt_seq = junk_seq s\<rparr>) xid to s)))"

definition deallocate_and_error ::
    "int \<Rightarrow> reqptr option \<Rightarrow> nat option \<Rightarrow> nat option \<Rightarrow> int \<Rightarrow> u32 \<Rightarrow> dtrs \<Rightarrow> dtrs" where
  "deallocate_and_error errstatus startreq startmqe gidx to xid s =
     (let s = (case startreq of None \<Rightarrow> s | Some r \<Rightarrow> dtq_req_release r False s);
          s = (case startmqe of None \<Rightarrow> s | Some m \<Rightarrow> s\<lparr>dtq := dtq_mqe_unalloc m (dtq s)\<rparr>);
          s = (case gidx of None \<Rightarrow> s | Some g \<Rightarrow> gtab_free g s)
      in send_created_error errstatus to xid s)"

text \<open>The last part of \<^verbatim>\<open>create_thread\<close>: the START message and the pending START request.\<close>

definition send_start ::
    "reqptr \<Rightarrow> nat \<Rightarrow> nat \<Rightarrow> int \<Rightarrow> dthread_attr_t \<Rightarrow> int \<Rightarrow> u32 \<Rightarrow> dtrs \<Rightarrow> dtrs res" where
  "send_start startreq startmqe gidx target attrs from xid s =
     rbind (or_fault Diverges (get_free_seq DTOP_START s)) (\<lambda>(seq, s).
       let thread = \<lparr>dt_index = of_nat gidx, dt_seq = gt_seq (gtab s ! gidx)\<rparr>;
           s = write_dtmsg startmqe (Dtmsg_start thread attrs) seq target s;
           s = upd_req startreq (\<lambda>r. r\<lparr>reqpeer := target, reqop := DTOP_START, req_mqe := None, xidseq := seq,
                 reqerror := 0, req_creinfo := \<lparr>c_thread = thread, c_peer = from, c_xidseq = xid\<rparr>\<rparr>) s;
           (r, q) = dtq_send_enqueue (mpi_rank s) target startmqe (dtq s);
           s = s\<lparr>dtq := q\<rparr>
       in case r of
            None \<Rightarrow> Inr (add_pending startreq (upd_mgr (\<lambda>m. m\<lparr>threads_starting := threads_starting m + 1\<rparr>) s))
          | Some m \<Rightarrow> Inr (deallocate_and_error EIO (Some startreq) (Some m) (Some gidx) from xid s))"

definition create_thread ::
    "nat \<Rightarrow> dthread_attr_t \<Rightarrow> u32 \<Rightarrow> dthread_argret_t \<Rightarrow> dtrs \<Rightarrow> dtrs res" where
  "create_thread mqe attrs disp_idx arg s =
     (let from = peer (mqes s mqe); xid = msg_xidseq (frame (mqes s mqe));
          errstatus = (if disp_idx = 0 \<or> unat disp_idx \<ge> ndsps s then EINVAL
                       else if threads_alloc (mgrstate s) \<ge> int (nmaxthread s) then EAGAIN else 0)
      in if errstatus \<noteq> 0 then Inr (send_created_error errstatus from xid s)
         else
           let attrs = sanitize_attrs attrs;
               target = next_rank (mgrstate s);
               s = upd_mgr (\<lambda>m. m\<lparr>next_rank := (next_rank m + 1) mod mpi_wsize s\<rparr>) s;
               (startreq, s) = dtq_req_alloc s;
               (startmqe, s) = (if startreq \<noteq> None then mqe_alloc s else (None, s))
           in rbind (if startmqe \<noteq> None then gtab_alloc target disp_idx arg s else Inr (None, s))
                (\<lambda>(gidx, s).
                   case (startreq, startmqe, gidx) of
                     (Some r, Some m, Some g) \<Rightarrow> send_start r m g target attrs from xid s
                   | _ \<Rightarrow> Inr (deallocate_and_error ENOMEM startreq startmqe gidx from xid s)))"

subsection \<open>Starting a thread\<close>

text \<open>\<^verbatim>\<open>pthread_create\<close> for the slot \<open>lidx\<close>: its result, and the new pthread in the slot.\<close>

definition pthread_create_for :: "nat \<Rightarrow> dtrs \<Rightarrow> int \<times> dtrs" where
  "pthread_create_for lidx s =
     (let (rv, s) = (case pth_creates s of [] \<Rightarrow> (0, s) | e # es \<Rightarrow> (e, s\<lparr>pth_creates := es\<rparr>))
      in if rv = 0 then (0, upd_ltab lidx (\<lambda>lt. lt\<lparr>lt_pth := npth s\<rparr>) (s\<lparr>npth := npth s + 1\<rparr>))
         else (rv, s))"

definition start_thread :: "nat \<Rightarrow> dthread_t \<Rightarrow> dthread_attr_t \<Rightarrow> dtrs \<Rightarrow> dtrs res" where
  "start_thread mqe thread attrs s =
     (case mqe_alloc s of
        (None, s) \<Rightarrow> Inr s
      | (Some startedmqe, s) \<Rightarrow>
          let xid = msg_xidseq (frame (mqes s mqe));
              idx = unat (dt_index thread);
              send = (\<lambda>errstatus s. snd (send_or_unalloc startedmqe
                        (write_dtmsg startedmqe (Dtmsg_started errstatus) xid 0 s)))
          in if idx \<ge> nmaxthread s \<or> dt_seq thread \<noteq> gt_seq (gtab s ! idx) \<or>
                \<not> gt_allocated (gtab s ! idx) \<or> gt_disp_idx (gtab s ! idx) = 0 \<or>
                unat (gt_disp_idx (gtab s ! idx)) \<ge> ndsps s \<or> gt_has_ltab (gtab s ! idx)
             then Inr (send EINVAL s)
             else rbind (ltab_alloc thread s) (\<lambda>(lidx, s).
                    case lidx of
                      None \<Rightarrow> Inl Out_of_bounds
                    | Some l \<Rightarrow>
                        let (errstatus, s) = pthread_create_for l s;
                            s = (if errstatus \<noteq> 0 then ltab_free l s else s)
                        in Inr (send errstatus s)))"

subsection \<open>Detach, cancel, join\<close>

definition detach_thread :: "nat \<Rightarrow> dthread_t \<Rightarrow> dtrs \<Rightarrow> dtrs" where
  "detach_thread mqe thread s =
     (let xid = msg_xidseq (frame (mqes s mqe))
      in case dthread_dt2gtab thread s of
           None \<Rightarrow> snd (send_or_unalloc mqe (recycle_dtmsg_mqe mqe (Dtmsg_detached ESRCH) xid s))
         | Some g \<Rightarrow>
             let s = upd_gtab g (\<lambda>gt. gt\<lparr>gt_detached := True\<rparr>) s;
                 (rqe, s) = joinwait_search thread True s;
                 s = snd (send_or_unalloc mqe (recycle_dtmsg_mqe mqe (Dtmsg_detached 0) xid s))
             in case rqe of
                  None \<Rightarrow> s
                | Some r \<Rightarrow> joinwait_end_release r (upd_req r (\<lambda>q. q\<lparr>reqerror := EINVAL\<rparr>) s))"

definition cancel_pthread :: "nat \<Rightarrow> dtrs \<Rightarrow> dtrs" where
  "cancel_pthread l s =
     (if lt_pth_state (ltab s ! l) = LT_RUNNING then
        upd_ltab l (\<lambda>lt. lt\<lparr>lt_pth_state := LT_CANCELED\<rparr>)
          (s\<lparr>pth_cancels := pth_cancels s @ [lt_pth (ltab s ! l)]\<rparr>)
      else s)"

definition cancel_thread :: "nat \<Rightarrow> dthread_t \<Rightarrow> dtrs \<Rightarrow> dtrs" where
  "cancel_thread mqe thread s =
     (let (errstatus, s) =
            (case dthread_dt2gtab thread s of
               None \<Rightarrow> (ESRCH, s)
             | Some g \<Rightarrow>
                 let gt = gtab s ! g
                 in if gt_rank gt \<noteq> mpi_rank s then (EINVAL, s)
                    else if gt_has_ltab gt \<and> gt_ltab_idx gt < nmaxthread s \<and>
                            lt_seq (ltab s ! gt_ltab_idx gt) = gt_seq gt
                    then (0, cancel_pthread (gt_ltab_idx gt) s)
                    else (0, s));
          xid = msg_xidseq (frame (mqes s mqe))
      in snd (send_or_unalloc mqe (recycle_dtmsg_mqe mqe (Dtmsg_canceled errstatus) xid s)))"

definition send_joined :: "nat \<Rightarrow> int \<Rightarrow> dthread_argret_t \<Rightarrow> dtrs \<Rightarrow> dtrs" where
  "send_joined mqe errstatus joinret s =
     snd (send_or_unalloc mqe (recycle_dtmsg_mqe mqe (Dtmsg_joined errstatus joinret)
       (msg_xidseq (frame (mqes s mqe))) s))"

definition join_thread :: "nat \<Rightarrow> dthread_t \<Rightarrow> dtrs \<Rightarrow> dtrs" where
  "join_thread mqe thread s =
     (case dthread_dt2gtab thread s of
        None \<Rightarrow> send_joined mqe ESRCH (nodata_ret s) s
      | Some g \<Rightarrow>
          let gt = gtab s ! g
          in if gt_detached gt then send_joined mqe EINVAL (nodata_ret s) s
             else if \<not> LT_NEED_FINALSTATE (gt_terminated gt) then
               gtab_free g (send_joined mqe 0 (gt_ret gt) s)
             else
               let (prev, s) = joinwait_search thread False s;
                   (rqe, s) = (if prev \<noteq> None then (None, s) else dtq_req_alloc s)
               in case rqe of
                    Some r \<Rightarrow>
                      let e = mqes s mqe;
                          s = upd_req r (\<lambda>q. q\<lparr>reqpeer := peer e, reqop := DTOP_JOINWAIT, req_mqe := None,
                                xidseq := msg_xidseq (frame e), reqerror := 0, req_waitthread := thread\<rparr>) s
                      in recv_release mqe (add_pending r s)
                  | None \<Rightarrow> send_joined mqe (if prev \<noteq> None then EINVAL else ENOMEM) (nodata_ret s) s)"

subsection \<open>Termination of a thread\<close>

definition terminated_thread :: "dthread_t \<Rightarrow> lt_state \<Rightarrow> dtrs \<Rightarrow> dtrs" where
  "terminated_thread thr finstate s =
     (let g = unat (dt_index thr);
          s = upd_gtab g (\<lambda>gt. gt\<lparr>gt_terminated := finstate\<rparr>) s;
          s = upd_mgr (\<lambda>m. m\<lparr>threads_running := threads_running m - 1\<rparr>) s;
          s = upd_gtab g (\<lambda>gt. gt\<lparr>gt_has_ltab := False\<rparr>) s;
          (rqe, s) = joinwait_search thr True s;
          s = (case rqe of
                 None \<Rightarrow> s
               | Some r \<Rightarrow>
                   joinwait_end_release r
                     (if gt_detached (gtab s ! g) then upd_req r (\<lambda>q. q\<lparr>reqerror := EINVAL\<rparr>) s else s));
          s = (if gt_detached (gtab s ! g) then detached_ret_cleanup g s else s)
      in if gt_detached (gtab s ! g) \<or> rqe \<noteq> None then gtab_free g s else s)"

subsection \<open>Messages: process_mqe\<close>

text \<open>The messages that only rank 0 handles.\<close>

fun rank0_msg :: "dtmsg_body \<Rightarrow> bool" where
  "rank0_msg (Dtmsg_create _ _ _) = True"
| "rank0_msg (Dtmsg_started _) = True"
| "rank0_msg (Dtmsg_detach _) = True"
| "rank0_msg (Dtmsg_join _) = True"
| "rank0_msg (Dtmsg_terminated _ _) = True"
| "rank0_msg _ = False"

text \<open>
  The four replies to requests of application threads (CREATED, DETACHED, CANCELED,
  JOINED) differ in what they store in the request: \<open>f\<close>.
\<close>

definition process_reply ::
    "nat \<Rightarrow> dtop \<Rightarrow> (dthread_request_t \<Rightarrow> dthread_request_t) \<Rightarrow> dtrs \<Rightarrow> dtrs" where
  "process_reply mqe pending_op f s =
     (let (req, s) = find_pending_msgreq mqe pending_op (sizeof_dtmsg (msg_body (frame (mqes s mqe)))) s;
          s = (case req of None \<Rightarrow> s | Some r \<Rightarrow> dtq_req_release r True (upd_req r f s))
      in recv_release mqe s)"

definition created_result :: "int \<Rightarrow> dthread_t \<Rightarrow> dthread_request_t \<Rightarrow> dthread_request_t" where
  "created_result err newthread r =
     (if err = 0 then r\<lparr>reqerror := err, req_newdthread := newthread\<rparr> else r\<lparr>reqerror := err\<rparr>)"

definition joined_result :: "int \<Rightarrow> dthread_argret_t \<Rightarrow> dthread_request_t \<Rightarrow> dthread_request_t" where
  "joined_result err joinret r =
     (case req_retval r of
        None \<Rightarrow> r\<lparr>reqerror := err\<rparr>
      | Some _ \<Rightarrow> r\<lparr>reqerror := err, req_retval := Some joinret\<rparr>)"

definition process_started :: "nat \<Rightarrow> int \<Rightarrow> dtrs \<Rightarrow> dtrs" where
  "process_started mqe errstatus s =
     (let (req, s) = find_pending_msgreq mqe DTOP_START (sizeof_dtmsg (Dtmsg_started errstatus)) s
      in case req of
           None \<Rightarrow> recv_release mqe s
         | Some r \<Rightarrow>
             let ci = req_creinfo (get_req s r);
                 s = upd_mgr (\<lambda>m. m\<lparr>threads_starting := threads_starting m - 1\<rparr>) s;
                 newthread = (if errstatus = 0 then c_thread ci
                              else \<lparr>dt_index = junk_index s, dt_seq = junk_seq s\<rparr>);
                 s = recycle_dtmsg_mqe mqe (Dtmsg_created errstatus newthread) (c_xidseq ci) s;
                 s = upd_mqe mqe (\<lambda>e. e\<lparr>peer := c_peer ci\<rparr>) s;
                 s = (if errstatus = 0 then upd_mgr (\<lambda>m. m\<lparr>threads_running := threads_running m + 1\<rparr>) s
                      else gtab_free (unat (dt_index (c_thread ci))) s)
             in dtq_req_release r False (snd (send_or_unalloc mqe s)))"

definition process_terminated :: "nat \<Rightarrow> dthread_t \<Rightarrow> lt_state \<Rightarrow> dtrs \<Rightarrow> dtrs" where
  "process_terminated mqe thread finalstate s =
     recv_release mqe
       (if mpi_rank s \<noteq> 0 then s
        else if flen (mqes s mqe) mod 2 ^ 64 \<noteq> sizeof_dtmsg (Dtmsg_terminated thread finalstate) then s
        else if unat (dt_index thread) \<ge> nmaxthread s \<or>
                gt_seq (gtab s ! unat (dt_index thread)) \<noteq> dt_seq thread then s
        else if finalstate = LT_RUNNING then s
        else terminated_thread thread finalstate s)"

definition process_mqe :: "nat \<Rightarrow> dtrs \<Rightarrow> dtrs res" where
  "process_mqe mqe s =
     (let e = mqes s mqe; body = msg_body (frame e); runt = flen_lt (flen e) (sizeof_dtmsg body)
      in if flen_lt (flen e) sizeof_hdr then Inr (recv_release mqe s)
         else if mpi_rank s \<noteq> 0 \<and> rank0_msg body then Inr (recv_release mqe s)
         else case body of
             Dtmsg_create attrs disp_idx arg \<Rightarrow>
               rbind (if runt then Inr s else create_thread mqe attrs disp_idx arg s)
                 (\<lambda>s. Inr (recv_release mqe s))
           | Dtmsg_created err newthread \<Rightarrow>
               Inr (process_reply mqe DTOP_CREATE (created_result err newthread) s)
           | Dtmsg_start thread attrs \<Rightarrow>
               rbind (if runt then Inr s else start_thread mqe thread attrs s)
                 (\<lambda>s. Inr (recv_release mqe s))
           | Dtmsg_started err \<Rightarrow> Inr (process_started mqe err s)
           | Dtmsg_detach thread \<Rightarrow> Inr (if runt then s else detach_thread mqe thread s)
           | Dtmsg_detached err \<Rightarrow> Inr (process_reply mqe DTOP_DETACH (\<lambda>r. r\<lparr>reqerror := err\<rparr>) s)
           | Dtmsg_cancel thread \<Rightarrow> Inr (if runt then s else cancel_thread mqe thread s)
           | Dtmsg_canceled err \<Rightarrow> Inr (process_reply mqe DTOP_CANCEL (\<lambda>r. r\<lparr>reqerror := err\<rparr>) s)
           | Dtmsg_join thread \<Rightarrow> Inr (if runt then recv_release mqe s else join_thread mqe thread s)
           | Dtmsg_joined err joinret \<Rightarrow> Inr (process_reply mqe DTOP_JOIN (joined_result err joinret) s)
           | Dtmsg_terminated thread finalstate \<Rightarrow> Inr (process_terminated mqe thread finalstate s)
           | Dtmsg_bcastshutdown \<Rightarrow> Inr (recv_release mqe (broadcast_shutdown s))
           | Dtmsg_other _ \<Rightarrow> Inr (recv_release mqe s))"

subsection \<open>Requests: process_req\<close>

text \<open>CREATE, DETACH, CANCEL and JOIN: forward the message of the request, which becomes pending.\<close>

definition forward_req :: "reqptr \<Rightarrow> dtrs \<Rightarrow> dtrs res" where
  "forward_req rqe s =
     (let mqe = req_mqe (get_req s rqe);
          s = upd_req rqe (\<lambda>r. r\<lparr>req_mqe := None\<rparr>) s
      in rbind (or_fault Diverges (get_free_seq (reqop (get_req s rqe)) s)) (\<lambda>(seq, s).
           let s = upd_req rqe (\<lambda>r. r\<lparr>xidseq := seq\<rparr>) s
           in case mqe of
                None \<Rightarrow> Inl Null_deref
              | Some m \<Rightarrow>
                  let s = upd_mqe m (\<lambda>e. e\<lparr>frame := (frame e)\<lparr>msg_xidseq := seq\<rparr>\<rparr>) s;
                      (queued, s) = send_or_unalloc m s
                  in if queued then Inr (add_pending rqe s)
                     else Inr (dtq_req_release rqe True (upd_req rqe (\<lambda>r. r\<lparr>reqerror := EIO\<rparr>) s))))"

definition retclean_req :: "reqptr \<Rightarrow> nat \<Rightarrow> dtrs \<Rightarrow> dtrs" where
  "retclean_req rqe l s =
     (let s = (case mqe_alloc s of
                 (None, s) \<Rightarrow> s
               | (Some m, s) \<Rightarrow>
                   let lt = ltab s ! l;
                       g = unat (lt_gtab_idx lt);
                       s = (if gt_has_ltab (gtab s ! g) \<and> gt_ltab_idx (gtab s ! g) = l \<and> gt_seq (gtab s ! g) = lt_seq lt
                            then upd_gtab g (\<lambda>gt. gt\<lparr>gt_has_ltab := False\<rparr>) s else s);
                       s = write_dtmsg m (Dtmsg_terminated \<lparr>dt_index = lt_gtab_idx lt, dt_seq = lt_seq lt\<rparr>
                             (lt_pth_state lt)) 0 0 s
                   in ltab_free l (snd (send_or_unalloc m s)))
      in dtq_req_release rqe False s)"

definition app0_ret_req :: "reqptr \<Rightarrow> dtrs \<Rightarrow> dtrs" where
  "app0_ret_req rqe s =
     dtq_req_release rqe False (if mpi_rank s \<noteq> 0 then s else broadcast_shutdown s)"

definition process_req :: "reqptr \<Rightarrow> dtrs \<Rightarrow> dtrs res" where
  "process_req rqe s =
     (let i = req_ltabidx (get_req s rqe)
      in if i < 0 \<or> i \<ge> int (nmaxthread s) \<or> rqe \<noteq> Ltab_req (nat i) then Inr (dtq_req_release rqe True s)
         else if reqstate (lt_req (ltab s ! nat i)) \<noteq> DTREQ_BUSY then Inr (dtq_req_release rqe True s)
         else case reqop (get_req s rqe) of
             DTOP_CREATE \<Rightarrow> forward_req rqe s
           | DTOP_DETACH \<Rightarrow> forward_req rqe s
           | DTOP_CANCEL \<Rightarrow> forward_req rqe s
           | DTOP_JOIN \<Rightarrow> forward_req rqe s
           | DTOP_RETCLEAN \<Rightarrow> Inr (retclean_req rqe (nat i) s)
           | DTOP_APP0_RET \<Rightarrow> Inr (app0_ret_req rqe s)
           | _ \<Rightarrow> Inr (dtq_req_release rqe True s))"

subsection \<open>Start and main loop\<close>

text \<open>
  \<^verbatim>\<open>mgr_startapp\<close>: \<open>arg\<close> is the inline argument that holds the \<^verbatim>\<open>app0args\<close> (24 bytes).
  The result is that of \<^verbatim>\<open>pthread_create\<close>.
\<close>

definition mgr_startapp :: "u8 list \<Rightarrow> dtrs \<Rightarrow> (int \<times> dtrs) res" where
  "mgr_startapp arg s =
     (let s = upd_mgr (\<lambda>m. m\<lparr>mg_ltab_alloc := 1, ltab_lastslot := 0, threads_alloc := 1, threads_running := 1,
            last_slot := 0, next_rank := (next_rank m + 1) mod mpi_wsize s\<rparr>) s
      in rbind (or_fault Diverges (get_free_seq DTOP_NONE s)) (\<lambda>(seq, s).
           let s = upd_gtab 0 (\<lambda>gt. gt\<lparr>gt_allocated := True, gt_rank := 0, gt_seq := seq, gt_disp_idx := 0,
                 gt_arg := \<lparr>dt_argret_type = DTHREAD_INLINE, dt_inlinelen = 24, dt_u = Dt_inline arg\<rparr>,
                 gt_ret := (gt_ret gt)\<lparr>dt_argret_type := DTHREAD_NODATA\<rparr>, gt_detached := False,
                 gt_has_ltab := True, gt_ltab_idx := 0\<rparr>) s;
               s = upd_ltab 0 (\<lambda>lt. lt\<lparr>lt_gtab_idx := 0, lt_seq := seq, lt_pth_state := LT_RUNNING\<rparr>) s
           in Inr (pthread_create_for 0 s)))"

text \<open>
  A turn of the main loop is \<open>mgr_check\<close> (a shutdown when no thread runs any more), the
  exit test \<open>mgr_done\<close>, the wait, and \<open>mgr_work\<close> on what the wait returned.
\<close>

definition mgr_check :: "dtrs \<Rightarrow> dtrs" where
  "mgr_check s =
     (if mpi_rank s = 0 \<and> threads_running (mgrstate s) = 0 \<and> \<not> draining (mgrstate s)
      then broadcast_shutdown s else s)"

definition mgr_done :: "dtrs \<Rightarrow> bool" where
  "mgr_done s \<longleftrightarrow> draining (mgrstate s) \<and> dtq_send_drainstate (dtq s) = DTQ_DD_DRAINED"

definition mgr_work :: "dtrs \<Rightarrow> dtrs res" where
  "mgr_work s =
     (let (mqe, req, q) = dtq_notifywait_finish (dtq s); s = s\<lparr>dtq := q\<rparr>
      in rbind (case mqe of None \<Rightarrow> Inr s | Some m \<Rightarrow> process_mqe m s)
           (\<lambda>s. case req of None \<Rightarrow> Inr s | Some r \<Rightarrow> process_req r s))"

definition mgr_exitval :: "dtrs \<Rightarrow> int" where
  "mgr_exitval s = (if mpi_rank s = 0 then app0exitval (mgrstate s) else 0)"

end
