(* ===== verification/Dt_Frames.thy ===== *)
theory Dt_Frames
  imports Dt_Manager
begin

text \<open>
  What the helpers of the manager leave alone, and the invariant of the two thread
  tables.  \<open>gview\<close> and \<open>lview\<close> are the parts of the state on which the invariants of
  \<^verbatim>\<open>gtab[]\<close> and \<^verbatim>\<open>ltab[]\<close> depend; every helper that does not allocate or free a slot
  keeps them, so the proofs about the handlers only look at the few that do.
\<close>

subsection \<open>Helpers that only touch the queues\<close>

lemma send_or_unalloc_frame: "snd (send_or_unalloc m s) = s\<lparr>dtq := dtq (snd (send_or_unalloc m s))\<rparr>"
  by (simp add: send_or_unalloc_def Let_def split: prod.splits option.splits)

lemma mqe_alloc_frame: "mqe_alloc s = (m, s') \<Longrightarrow> s' = s\<lparr>dtq := dtq s'\<rparr>"
  by (auto simp: mqe_alloc_def split: prod.splits)

lemma fields_send_or_unalloc [simp]:
  "gtab (snd (send_or_unalloc m s)) = gtab s" "ltab (snd (send_or_unalloc m s)) = ltab s"
  "mgrstate (snd (send_or_unalloc m s)) = mgrstate s" "mqes (snd (send_or_unalloc m s)) = mqes s"
  "ireqs (snd (send_or_unalloc m s)) = ireqs s" "nmaxthread (snd (send_or_unalloc m s)) = nmaxthread s"
  "mpi_rank (snd (send_or_unalloc m s)) = mpi_rank s" "mpi_wsize (snd (send_or_unalloc m s)) = mpi_wsize s"
  "seqsrc (snd (send_or_unalloc m s)) = seqsrc s" "dsps (snd (send_or_unalloc m s)) = dsps s"
  by (subst send_or_unalloc_frame; simp)+

lemma fields_mqe_alloc:
  assumes "mqe_alloc s = (m, s')"
  shows "gtab s' = gtab s" "ltab s' = ltab s" "mgrstate s' = mgrstate s" "mqes s' = mqes s" "ireqs s' = ireqs s"
    "nmaxthread s' = nmaxthread s" "mpi_rank s' = mpi_rank s" "mpi_wsize s' = mpi_wsize s" "seqsrc s' = seqsrc s"
    "dsps s' = dsps s" "junk s' = junk s" "junk_seq s' = junk_seq s" "junk_index s' = junk_index s"
  by (subst mqe_alloc_frame [OF assms]; simp)+

subsection \<open>Views of the tables\<close>

definition gview :: "dtrs \<Rightarrow> bool list \<times> nat \<times> nat \<times> int \<times> int" where
  "gview s = (map gt_allocated (gtab s), nmaxthread s, last_slot (mgrstate s), threads_alloc (mgrstate s), mpi_rank s)"

definition lview :: "dtrs \<Rightarrow> bool list \<times> nat \<times> nat \<times> int" where
  "lview s = (map (\<lambda>l. lt_pth_state l \<noteq> LT_NONE) (ltab s), nmaxthread s, ltab_lastslot (mgrstate s),
     mg_ltab_alloc (mgrstate s))"

lemma gtab_ok_gview:
  assumes "gview s' = gview s"
  shows "gtab_ok s' = gtab_ok s" "gtab_inuse s' = gtab_inuse s"
proof -
  have len: "length (gtab s') = length (gtab s)" using assms by (simp add: gview_def) (metis length_map)
  have "gt_allocated (gtab s' ! i) = gt_allocated (gtab s ! i)" if "i < length (gtab s)" for i
    using assms that len by (simp add: gview_def) (metis nth_map)
  then show "gtab_inuse s' = gtab_inuse s" using len by (auto simp: gtab_inuse_def)
  then show "gtab_ok s' = gtab_ok s" using assms len by (auto simp: gtab_ok_def gview_def)
qed

lemma ltab_ok_lview:
  assumes "lview s' = lview s"
  shows "ltab_ok s' = ltab_ok s" "ltab_inuse s' = ltab_inuse s"
proof -
  have len: "length (ltab s') = length (ltab s)" using assms by (simp add: lview_def) (metis length_map)
  have "(lt_pth_state (ltab s' ! i) \<noteq> LT_NONE) = (lt_pth_state (ltab s ! i) \<noteq> LT_NONE)" if "i < length (ltab s)" for i
    using arg_cong [OF assms [unfolded lview_def], of "\<lambda>v. fst v ! i"] that len by simp
  then show "ltab_inuse s' = ltab_inuse s" using len by (auto simp: ltab_inuse_def)
  then show "ltab_ok s' = ltab_ok s" using assms len by (auto simp: ltab_ok_def lview_def)
qed

lemma map_update_same: "(\<And>x. f (g x) = f x) \<Longrightarrow> map f (xs[i := g (xs ! i)]) = map f xs"
  by (cases "i < length xs") (simp_all add: map_update list_update_same_conv linorder_not_less list_update_beyond)

lemma gview_upd_gtab: "(\<And>g. gt_allocated (f g) = gt_allocated g) \<Longrightarrow> gview (upd_gtab i f s) = gview s"
  by (simp add: gview_def mgr_ops map_update_same)

lemma lview_upd_ltab:
  "(\<And>l. (lt_pth_state (f l) = LT_NONE) = (lt_pth_state l = LT_NONE)) \<Longrightarrow> lview (upd_ltab i f s) = lview s"
  by (simp add: lview_def mgr_ops map_update_same)

lemma view_upd [simp]:
  "gview (upd_ltab i fl s) = gview s" "lview (upd_gtab i fg s) = lview s"
  "gview (upd_mqe m fm s) = gview s" "lview (upd_mqe m fm s) = lview s"
  "gview (write_dtmsg m b x t s) = gview s" "lview (write_dtmsg m b x t s) = lview s"
  "gview (recycle_dtmsg_mqe m b x s) = gview s" "lview (recycle_dtmsg_mqe m b x s) = lview s"
  "gview (rm_pending r s) = gview s" "lview (rm_pending r s) = lview s"
  "gview (add_pending r s) = gview s" "lview (add_pending r s) = lview s"
  "gview (s\<lparr>dtq := q\<rparr>) = gview s" "lview (s\<lparr>dtq := q\<rparr>) = lview s"
  "gview (s\<lparr>seqsrc := x\<rparr>) = gview s" "lview (s\<lparr>seqsrc := x\<rparr>) = lview s"
  "gview (s\<lparr>ireqs := fi\<rparr>) = gview s" "lview (s\<lparr>ireqs := fi\<rparr>) = lview s"
  "gview (recv_release m s) = gview s" "lview (recv_release m s) = lview s"
  "gview (snd (send_or_unalloc m s)) = gview s" "lview (snd (send_or_unalloc m s)) = lview s"
  by (simp_all add: gview_def lview_def mgr_ops)

lemma view_upd_req [simp]: "gview (upd_req r f s) = gview s" "lview (upd_req r f s) = lview s"
  by (cases r; simp add: gview_def lview_def map_update_same [where g = "\<lambda>l. l\<lparr>lt_req := f (lt_req l)\<rparr>"])+

lemma view_req_release [simp]: "gview (dtq_req_release r n s) = gview s" "lview (dtq_req_release r n s) = lview s"
  by (simp_all add: dtq_req_release_def)

lemma view_mqe_alloc: "mqe_alloc s = (m, s') \<Longrightarrow> gview s' = gview s \<and> lview s' = lview s"
  using fields_mqe_alloc by (simp add: gview_def lview_def)

lemma view_req_alloc: "dtq_req_alloc s = (r, s') \<Longrightarrow> gview s' = gview s \<and> lview s' = lview s"
  by (auto simp: dtq_req_alloc_def gview_def lview_def split: list.splits prod.splits if_splits)

lemma view_alloc_case [simp]:
  "(\<And>m s1. gview (f m s1) = gview s1) \<Longrightarrow>
     gview (case mqe_alloc s of (None, s) \<Rightarrow> s | (Some m, s) \<Rightarrow> f m s) = gview s"
  "(\<And>m s1. lview (f m s1) = lview s1) \<Longrightarrow>
     lview (case mqe_alloc s of (None, s) \<Rightarrow> s | (Some m, s) \<Rightarrow> f m s) = lview s"
  using view_mqe_alloc by (auto split: prod.splits option.splits)

subsection \<open>Handlers that keep both views\<close>

lemma view_joinwait_search [simp]:
  "gview (snd (joinwait_search th rm s)) = gview s" "lview (snd (joinwait_search th rm s)) = lview s"
  by (simp_all add: joinwait_search_def split: option.splits)

lemma view_joinwait_end_release [simp]:
  "gview (joinwait_end_release r s) = gview s" "lview (joinwait_end_release r s) = lview s"
  by (simp_all add: joinwait_end_release_def Let_def)

lemma view_shutdown [simp]:
  "gview (broadcast_shutdown s) = gview s" "lview (broadcast_shutdown s) = lview s"
proof -
  have "gview (fold shutdown_to cs s) = gview s \<and> lview (fold shutdown_to cs s) = lview s" for cs
    by (induction cs arbitrary: s) (simp_all add: shutdown_to_def)
  then show "gview (broadcast_shutdown s) = gview s" "lview (broadcast_shutdown s) = lview s"
    by (simp_all add: broadcast_shutdown_def Let_def) (simp_all add: gview_def lview_def mgr_ops)
qed

lemma view_send_created_error [simp]:
  "gview (send_created_error e t x s) = gview s" "lview (send_created_error e t x s) = lview s"
  by (simp_all add: send_created_error_def)

lemma view_detached_ret_cleanup [simp]:
  "gview (detached_ret_cleanup g s) = gview s" "lview (detached_ret_cleanup g s) = lview s"
  by (simp_all add: detached_ret_cleanup_def Let_def gview_upd_gtab split: option.splits prod.splits)

lemma view_send_joined [simp]:
  "gview (send_joined m e r s) = gview s" "lview (send_joined m e r s) = lview s"
  by (simp_all add: send_joined_def)

lemma view_cancel_pthread [simp]: "gview (cancel_pthread l s) = gview s" "lview (cancel_pthread l s) = lview s"
proof -
  have "lview (upd_ltab l f (s\<lparr>pth_cancels := ps\<rparr>)) = lview s"
    if "lt_pth_state (ltab s ! l) = LT_RUNNING" "f = (\<lambda>lt. lt\<lparr>lt_pth_state := LT_CANCELED\<rparr>)" for f ps
    using that by (cases "l < length (ltab s)")
      (auto simp: lview_def mgr_ops map_update list_update_same_conv linorder_not_less list_update_beyond)
  then show "lview (cancel_pthread l s) = lview s" by (simp add: cancel_pthread_def lview_def)
  show "gview (cancel_pthread l s) = gview s" by (simp add: cancel_pthread_def gview_def mgr_ops)
qed

lemma view_pthread_create_for [simp]:
  "gview (snd (pthread_create_for l s)) = gview s" "lview (snd (pthread_create_for l s)) = lview s"
  by (auto simp: pthread_create_for_def Let_def lview_upd_ltab split: list.splits) (simp_all add: gview_def lview_def)

lemma view_gtab_free [simp]: "lview (gtab_free g s) = lview s"
  by (simp add: gtab_free_def lview_def mgr_ops)

lemma view_ltab_free [simp]: "gview (ltab_free l s) = gview s"
  by (simp add: ltab_free_def gview_def mgr_ops)

subsection \<open>The two ways start_thread answers\<close>

definition send_started :: "nat \<Rightarrow> u32 \<Rightarrow> int \<Rightarrow> dtrs \<Rightarrow> dtrs" where
  "send_started m xid err s = snd (send_or_unalloc m (write_dtmsg m (Dtmsg_started err) xid 0 s))"

text \<open>What \<^verbatim>\<open>start_thread\<close> does after \<^verbatim>\<open>pthread_create\<close> for slot \<open>l\<close>.\<close>

definition launched :: "nat \<Rightarrow> dtrs \<Rightarrow> dtrs" where
  "launched l s = (if fst (pthread_create_for l s) \<noteq> 0 then ltab_free l (snd (pthread_create_for l s))
     else snd (pthread_create_for l s))"

definition start_refused :: "dthread_t \<Rightarrow> dtrs \<Rightarrow> bool" where
  "start_refused th s \<longleftrightarrow> unat (dt_index th) \<ge> nmaxthread s \<or> dt_seq th \<noteq> gt_seq (gtab s ! unat (dt_index th)) \<or>
      \<not> gt_allocated (gtab s ! unat (dt_index th)) \<or> gt_disp_idx (gtab s ! unat (dt_index th)) = 0 \<or>
      unat (gt_disp_idx (gtab s ! unat (dt_index th))) \<ge> ndsps s \<or> gt_has_ltab (gtab s ! unat (dt_index th))"

lemma start_thread_run:
  assumes "mqe_alloc s = (Some m, s1)"
  shows "start_thread mqe th a s =
    (if start_refused th s1 then Inr (send_started m (msg_xidseq (frame (mqes s1 mqe))) EINVAL s1)
     else rbind (ltab_alloc th s1) (\<lambda>(lidx, s). case lidx of None \<Rightarrow> Inl Out_of_bounds
       | Some l \<Rightarrow> Inr (send_started m (msg_xidseq (frame (mqes s1 mqe))) (fst (pthread_create_for l s)) (launched l s))))"
  unfolding start_thread_def assms
  by (simp only: prod.case option.case Let_def start_refused_def send_started_def launched_def case_prod_unfold
      fst_conv snd_conv)

lemma start_thread_cases:
  assumes "start_thread mqe th a s = Inr s'" "mqe_alloc s = (Some m, s1)"
  shows "s' = send_started m (msg_xidseq (frame (mqes s1 mqe))) EINVAL s1 \<or>
    (\<exists>l s2. ltab_alloc th s1 = Inr (Some l, s2) \<and>
       s' = send_started m (msg_xidseq (frame (mqes s1 mqe))) (fst (pthread_create_for l s2)) (launched l s2))"
proof (cases "start_refused th s1")
  case True
  then show ?thesis using assms by (simp add: start_thread_run)
next
  case False
  then obtain lo s2 where l: "ltab_alloc th s1 = Inr (lo, s2)"
    using assms by (cases "ltab_alloc th s1") (auto simp: start_thread_run)
  with False assms obtain k where "lo = Some k" by (cases lo) (auto simp: start_thread_run)
  with False assms l show ?thesis by (simp add: start_thread_run)
qed

end
