(* ===== verification/Dt_Requests.thy ===== *)
theory Dt_Requests
  imports Dt_Frames
begin

text \<open>
  The requests the manager keeps: its own (START and JOINWAIT, malloc'd and recycled
  through \<^verbatim>\<open>reqfree\<close>) and those of application threads, queued or waiting for a reply.
  \<open>req_inv H s\<close> is their invariant while a handler holds the internal requests \<open>H\<close>:
  each internal request is free, pending or held, exactly once; a pending request is of
  the right kind for its pointer.  As for the tables, \<open>rview\<close> is the part of the state
  that the invariant depends on.
\<close>

subsection \<open>The invariant\<close>

fun is_int :: "reqptr \<Rightarrow> bool" where
  "is_int (Int_req _) = True"
| "is_int (Ltab_req _) = False"

definition pend_ok :: "dtrs \<Rightarrow> reqptr \<Rightarrow> bool" where
  "pend_ok s r \<longleftrightarrow>
     (case r of
        Int_req _ \<Rightarrow> reqop (get_req s r) = DTOP_JOINWAIT \<or>
          (reqop (get_req s r) = DTOP_START \<and>
           unat (dt_index (c_thread (req_creinfo (get_req s r)))) < nmaxthread s)
      | Ltab_req i \<Rightarrow> i < length (ltab s) \<and> reqstate (get_req s r) = DTREQ_BUSY \<and>
          reqop (get_req s r) \<in> {DTOP_CREATE, DTOP_DETACH, DTOP_CANCEL, DTOP_JOIN})"

definition req_inv :: "reqptr multiset \<Rightarrow> dtrs \<Rightarrow> bool" where
  "req_inv H s \<longleftrightarrow>
     mset (reqfree (dtq s)) + filter_mset is_int (mset (rpending (mgrstate s))) + H =
       mset (map Int_req [0..<nreq (dtq s)]) \<and>
     (\<forall>k < nreq (dtq s). reqstate (ireqs s k) = DTREQ_INTERNAL) \<and>
     (\<forall>i < length (ltab s). reqstate (lt_req (ltab s ! i)) \<noteq> DTREQ_INTERNAL) \<and>
     distinct (rpending (mgrstate s)) \<and> (\<forall>r \<in> set (rpending (mgrstate s)). pend_ok s r)"

definition rview :: "dtrs \<Rightarrow> reqptr list \<times> nat \<times> reqptr list \<times> (nat \<Rightarrow> dthread_request_t) \<times>
    dthread_request_t list \<times> nat \<times> reqptr list" where
  "rview s = (reqfree (dtq s), nreq (dtq s), rpending (mgrstate s), ireqs s, map lt_req (ltab s), nmaxthread s,
     mgrreqq (dtq s))"

lemma rview_get_req:
  assumes "rview s' = rview s"
  shows "length (ltab s') = length (ltab s)"
    and "i < length (ltab s) \<Longrightarrow> lt_req (ltab s' ! i) = lt_req (ltab s ! i)" and "ireqs s' = ireqs s"
proof -
  show len: "length (ltab s') = length (ltab s)"
    using arg_cong [OF assms [unfolded rview_def], of "\<lambda>v. length (fst (snd (snd (snd (snd v)))))"] by simp
  show "i < length (ltab s) \<Longrightarrow> lt_req (ltab s' ! i) = lt_req (ltab s ! i)"
    using arg_cong [OF assms [unfolded rview_def], of "\<lambda>v. fst (snd (snd (snd (snd v)))) ! i"] len by simp
  show "ireqs s' = ireqs s" using assms by (simp add: rview_def)
qed

lemma rview_pending: "rview s' = rview s \<Longrightarrow> rpending (mgrstate s') = rpending (mgrstate s)"
  by (simp add: rview_def)

lemma pend_ok_rview: "rview s' = rview s \<Longrightarrow> pend_ok s' r = pend_ok s r"
  using rview_get_req [of s' s] by (auto simp: pend_ok_def rview_def split: reqptr.splits)

lemma req_inv_rview:
  assumes "rview s' = rview s"
  shows "req_inv H s' = req_inv H s"
proof -
  have "reqfree (dtq s') = reqfree (dtq s)" "nreq (dtq s') = nreq (dtq s)"
    "rpending (mgrstate s') = rpending (mgrstate s)" using assms by (auto simp: rview_def)
  then show ?thesis using rview_get_req [OF assms] pend_ok_rview [OF assms] by (auto simp: req_inv_def)
qed

lemma rview_upd [simp]:
  "rview (upd_gtab i fg s) = rview s" "rview (upd_mqe m fm s) = rview s"
  "rview (write_dtmsg m b x t s) = rview s" "rview (recycle_dtmsg_mqe m b x s) = rview s"
  "rview (s\<lparr>seqsrc := y\<rparr>) = rview s" "rview (recv_release m s) = rview s"
  by (simp_all add: rview_def mgr_ops dtq_ops)

lemma rview_upd_mgr [simp]: "(\<And>m. rpending (f m) = rpending m) \<Longrightarrow> rview (upd_mgr f s) = rview s"
  by (simp add: rview_def mgr_ops)

lemma rview_upd_ltab [simp]: "(\<And>l. lt_req (f l) = lt_req l) \<Longrightarrow> rview (upd_ltab i f s) = rview s"
  by (simp add: rview_def mgr_ops map_update_same)

lemma rview_send_or_unalloc [simp]: "rview (snd (send_or_unalloc m s)) = rview s"
  by (simp add: rview_def send_or_unalloc_def dtq_ops Let_def)

lemma rview_mqe_alloc: "mqe_alloc s = (m, s') \<Longrightarrow> rview s' = rview s"
  using fields_mqe_alloc [of s m s']
  by (auto simp: rview_def mqe_alloc_def dtq_alloc_defs split: list.splits prod.splits if_splits)

lemma rview_alloc_case [simp]:
  "(\<And>m s1. rview (f m s1) = rview s1) \<Longrightarrow>
     rview (case mqe_alloc s of (None, s) \<Rightarrow> s | (Some m, s) \<Rightarrow> f m s) = rview s"
  using rview_mqe_alloc by (auto split: prod.splits option.splits)

lemma rview_helpers [simp]:
  "rview (gtab_free g s) = rview s" "rview (ltab_free l s) = rview s" "rview (cancel_pthread l s) = rview s"
  "rview (detached_ret_cleanup g s) = rview s" "rview (send_created_error e t x s) = rview s"
  "rview (send_joined m e r s) = rview s" "rview (snd (pthread_create_for l s)) = rview s"
  by (auto simp: gtab_free_def ltab_free_def cancel_pthread_def detached_ret_cleanup_def send_created_error_def
      send_joined_def pthread_create_for_def Let_def split: option.splits prod.splits list.splits)
    (simp_all add: rview_def mgr_ops map_update_same)

lemma rview_shutdown [simp]: "rview (broadcast_shutdown s) = rview s"
proof -
  have "rview (fold shutdown_to cs s) = rview s" for cs
    by (induction cs arbitrary: s) (simp_all add: shutdown_to_def)
  then show ?thesis by (auto simp: broadcast_shutdown_def Let_def rview_def mgr_ops dtq_ops)
qed

subsection \<open>Holding and giving back requests\<close>

lemma held_not_pending:
  assumes "req_inv H s" "r \<in># H"
  shows "r \<notin> set (rpending (mgrstate s))" "\<exists>k < nreq (dtq s). r = Int_req k"
proof -
  let ?all = "mset (map Int_req [0..<nreq (dtq s)])"
  have all: "mset (reqfree (dtq s)) + filter_mset is_int (mset (rpending (mgrstate s))) + H = ?all"
    using assms(1) by (simp add: req_inv_def)
  have "r \<in># ?all" using assms(2) by (metis all union_iff)
  then show ex: "\<exists>k < nreq (dtq s). r = Int_req k" by auto
  have "count ?all r \<le> 1" by (metis (no_types, lifting) count_mset_0_iff distinct_count_atmost_1
        distinct_map distinct_upt inj_on_def le_numeral_extra(3) le_numeral_extra(4) mset_map reqptr.inject(2) zero_le_one)
  then have "count (filter_mset is_int (mset (rpending (mgrstate s)))) r + count H r \<le> 1"
    using arg_cong [OF all, of "\<lambda>M. count M r"] by simp
  moreover have "0 < count H r" using assms(2) by simp
  ultimately have "count (filter_mset is_int (mset (rpending (mgrstate s)))) r = 0" by linarith
  then show "r \<notin> set (rpending (mgrstate s))" using ex by (auto simp: count_eq_zero_iff)
qed

lemma pend_ok_upd_req_other:
  "r \<noteq> r' \<Longrightarrow> pend_ok (upd_req r f s) r' = pend_ok s r'"
proof -
  assume "r \<noteq> r'"
  then have "get_req (upd_req r f s) r' = get_req s r'" by simp
  moreover have "nmaxthread (upd_req r f s) = nmaxthread s" "length (ltab (upd_req r f s)) = length (ltab s)"
    by (cases r; simp)+
  ultimately show ?thesis by (cases r') (auto simp: pend_ok_def)
qed

lemma upd_req_fields [simp]:
  "mgrstate (upd_req r f s) = mgrstate s" "length (ltab (upd_req r f s)) = length (ltab s)"
  "dtq (upd_req r f s) = dtq s" "nmaxthread (upd_req r f s) = nmaxthread s" "gtab (upd_req r f s) = gtab s"
  "mqes (upd_req r f s) = mqes s" "mpi_rank (upd_req r f s) = mpi_rank s" "mpi_wsize (upd_req r f s) = mpi_wsize s"
  "seqsrc (upd_req r f s) = seqsrc s"
  by (cases r; simp)+

text \<open>A change of a request that is not pending and stays internal or not internal.\<close>

lemma req_inv_upd_req:
  assumes "req_inv H s" "r \<notin> set (rpending (mgrstate s))"
    and "\<And>q. (reqstate (f q) = DTREQ_INTERNAL) = (reqstate q = DTREQ_INTERNAL)"
  shows "req_inv H (upd_req r f s)"
proof -
  have "\<forall>k < nreq (dtq s). reqstate (ireqs (upd_req r f s) k) = DTREQ_INTERNAL"
    using assms(1,3) by (cases r) (auto simp: req_inv_def)
  moreover have "\<forall>i < length (ltab s). reqstate (lt_req (ltab (upd_req r f s) ! i)) \<noteq> DTREQ_INTERNAL"
    using assms(1,3) by (cases r) (auto simp: req_inv_def nth_list_update_if)
  moreover have "\<forall>r' \<in> set (rpending (mgrstate s)). pend_ok (upd_req r f s) r'"
    using assms(1,2) unfolding req_inv_def by (metis pend_ok_upd_req_other)
  ultimately show ?thesis using assms(1) by (simp add: req_inv_def)
qed

lemma req_inv_alloc:
  assumes "req_inv H s" "dtq_req_alloc s = (ro, s')"
  shows "req_inv (H + (case ro of None \<Rightarrow> {#} | Some r \<Rightarrow> {#r#})) s'"
proof (cases "reqfree (dtq s)")
  case (Cons r rs)
  then have "ro = Some r" "s' = s\<lparr>dtq := (dtq s)\<lparr>reqfree := rs\<rparr>\<rparr>" using assms(2) by (auto simp: dtq_req_alloc_def)
  moreover have "get_req (s\<lparr>dtq := (dtq s)\<lparr>reqfree := rs\<rparr>\<rparr>) q = get_req s q" for q by (cases q) simp_all
  ultimately show ?thesis using assms(1) Cons
    by (auto simp: req_inv_def pend_ok_def ac_simps split: reqptr.splits)
next
  case Nil
  obtain ok q where m: "q_malloc (dtq s) = (ok, q)" by fastforce
  then have q: "nreq q = nreq (dtq s)" "reqfree q = reqfree (dtq s)" "mgrreqq q = mgrreqq (dtq s)"
    by (auto simp: q_malloc_def split: list.splits)
  show ?thesis
  proof (cases ok)
    case False
    then have "ro = None" "s' = s\<lparr>dtq := q\<rparr>" using assms(2) Nil m by (auto simp: dtq_req_alloc_def)
    moreover have "rview (s\<lparr>dtq := q\<rparr>) = rview s" using q by (simp add: rview_def)
    ultimately show ?thesis using assms(1) req_inv_rview [of "s\<lparr>dtq := q\<rparr>" s H] by simp
  next
    case True
    then have r: "ro = Some (Int_req (nreq q))"
      and s': "s' = s\<lparr>dtq := q\<lparr>nreq := nreq q + 1\<rparr>, ireqs := (ireqs s)(nreq q := new_internal_req)\<rparr>"
      using assms(2) Nil m by (auto simp: dtq_req_alloc_def)
    have kb: "k < nreq q" if "Int_req k \<in> set (rpending (mgrstate s))" for k
    proof -
      have all: "mset (reqfree (dtq s)) + filter_mset is_int (mset (rpending (mgrstate s))) + H =
          mset (map Int_req [0..<nreq (dtq s)])" using assms(1) by (simp only: req_inv_def)
      have "Int_req k \<in># mset (map Int_req [0..<nreq (dtq s)])" unfolding all [symmetric] using that by simp
      then show ?thesis using q(1) by auto
    qed
    have "pend_ok s' p = pend_ok s p" if "p \<in> set (rpending (mgrstate s))" for p
    proof (cases p)
      case (Int_req k)
      then have "k \<noteq> nreq q" using kb [of k] that by auto
      with Int_req show ?thesis by (simp add: pend_ok_def s')
    qed (simp add: pend_ok_def s')
    then have "\<forall>p \<in> set (rpending (mgrstate s)). pend_ok s' p" using assms(1) unfolding req_inv_def by metis
    then show ?thesis using assms(1) q
      by (auto simp: req_inv_def r s' new_internal_req_def less_Suc_eq ac_simps)
  qed
qed

lemma req_inv_add_pending:
  assumes "req_inv (add_mset r H) s" "pend_ok s r"
  shows "req_inv H (add_pending r s)"
proof -
  have r: "r \<notin> set (rpending (mgrstate s))" "is_int r" using held_not_pending [OF assms(1), of r] by auto
  have "get_req (add_pending r s) p = get_req s p" for p by (cases p) (simp_all add: mgr_ops)
  then have "pend_ok (add_pending r s) p = pend_ok s p" for p by (simp add: pend_ok_def mgr_ops split: reqptr.splits)
  then show ?thesis using assms r by (auto simp: req_inv_def mgr_ops ac_simps)
qed

lemma req_inv_add_pending_ltab:
  assumes "req_inv H s" "pend_ok s (Ltab_req i)" "Ltab_req i \<notin> set (rpending (mgrstate s))"
  shows "req_inv H (add_pending (Ltab_req i) s)"
proof -
  have "get_req (add_pending (Ltab_req i) s) p = get_req s p" for p by (cases p) (simp_all add: mgr_ops)
  then have "pend_ok (add_pending (Ltab_req i) s) p = pend_ok s p" for p
    by (simp add: pend_ok_def mgr_ops split: reqptr.splits)
  then show ?thesis using assms by (auto simp: req_inv_def mgr_ops)
qed

lemma req_inv_rm_pending:
  assumes "req_inv H s" "r \<in> set (rpending (mgrstate s))"
  shows "req_inv (H + (if is_int r then {#r#} else {#})) (rm_pending r s)"
    and "r \<notin> set (rpending (mgrstate (rm_pending r s)))"
proof -
  have d: "distinct (rpending (mgrstate s))" using assms(1) by (simp add: req_inv_def)
  have "get_req (rm_pending r s) p = get_req s p" for p by (cases p) (simp_all add: mgr_ops)
  then have p: "pend_ok (rm_pending r s) p = pend_ok s p" for p by (simp add: pend_ok_def mgr_ops split: reqptr.splits)
  have "filter_mset is_int (mset (rpending (mgrstate s))) =
      filter_mset is_int (mset (remove1 r (rpending (mgrstate s)))) + (if is_int r then {#r#} else {#})"
    using assms(2) by (simp add: multiset_partition [of _ "\<lambda>x. x = r"])
  then show "req_inv (H + (if is_int r then {#r#} else {#})) (rm_pending r s)"
    using assms(1) p d by (auto simp: req_inv_def mgr_ops ac_simps)
  show "r \<notin> set (rpending (mgrstate (rm_pending r s)))" using d by (simp add: mgr_ops)
qed

lemma req_inv_release:
  assumes "req_inv (add_mset r H) s"
  shows "req_inv H (dtq_req_release r n s)"
proof -
  obtain k where k: "r = Int_req k" "k < nreq (dtq s)" using held_not_pending [OF assms, of r] by auto
  then have "reqstate (get_req s r) = DTREQ_INTERNAL" using assms by (simp add: req_inv_def)
  moreover have "get_req (s\<lparr>dtq := q\<rparr>) p = get_req s p" for p q by (cases p) simp_all
  ultimately show ?thesis using assms
    by (auto simp: req_inv_def dtq_req_release_def pend_ok_def ac_simps split: reqptr.splits)
qed

lemma req_inv_release_ltab:
  assumes "req_inv H s" "Ltab_req i \<notin> set (rpending (mgrstate s))" "i < length (ltab s)"
  shows "req_inv H (dtq_req_release (Ltab_req i) n s)"
proof -
  have "reqstate (get_req s (Ltab_req i)) \<noteq> DTREQ_INTERNAL" using assms(1,3) by (simp add: req_inv_def)
  then have "dtq_req_release (Ltab_req i) n s =
      upd_req (Ltab_req i) (\<lambda>q. q\<lparr>reqstate := (if n then DTREQ_DONE else DTREQ_IDLE)\<rparr>) s"
    by (simp add: dtq_req_release_def)
  moreover have "\<forall>r \<in> set (rpending (mgrstate s)). pend_ok (upd_req (Ltab_req i) f s) r" for f
    using assms(1,2) unfolding req_inv_def by (metis pend_ok_upd_req_other)
  ultimately show ?thesis using assms(1) by (simp add: req_inv_def nth_list_update_if)
qed

end
