(* ===== verification/Dt_Threadops.thy ===== *)
theory Dt_Threadops
  imports Dt_Requests
begin

text \<open>
  The calls of application threads (\<^verbatim>\<open>libdthread/dt_threadops.c\<close>) and the functions
  that wrap the code of an application thread (\<^verbatim>\<open>retclean_request\<close>, \<^verbatim>\<open>dthreadwrap\<close>,
  \<^verbatim>\<open>dthreadcleanup\<close>, \<^verbatim>\<open>app0wrap\<close> and \<^verbatim>\<open>app0cleanup\<close> of \<^verbatim>\<open>dt_mgrthread.c\<close>).

  A call that makes a request of the manager is two steps: \<open>_start\<close> runs up to the wait
  on the condition variable of the request, \<open>_finish\<close> from the moment the request is no
  longer busy to the return.  A result \<open>None\<close> of a first step means that the call waits.
\<close>

subsection \<open>The calling thread\<close>

text \<open>
  What a call sees of its thread: the value of the thread-specific \<^verbatim>\<open>ltabkey\<close> (the slot
  of \<^verbatim>\<open>ltab[]\<close>), the cancel state (enabled or not), the local variables \<^verbatim>\<open>oldcanstate\<close> and
  \<^verbatim>\<open>procarg\<close> or \<^verbatim>\<open>procret\<close> of the call it is in, and the calls of proc functions it has
  made.  The other fields are the answers of the C library to this thread: to
  \<^verbatim>\<open>pthread_setcancelstate\<close>, to \<^verbatim>\<open>pthread_setspecific\<close>, to \<^verbatim>\<open>pthread_getschedparam\<close>
  (\<open>None\<close> on failure), and the attributes set by \<^verbatim>\<open>pthread_attr_init\<close>.
\<close>

record app_thread =
  tls :: "nat option"
  canstate :: bool
  oldcanstate :: bool
  procarg :: dthread_argret_t
  proc_log :: "(procop \<times> dthread_argret_t option \<times> u64 option) list"
  setcancel_rv :: int
  setspecific_rv :: int
  schedparam :: "(int \<times> int) option"
  attr_init :: dthread_attr_t

definition call_proc ::
    "dthread_proc_pth_t \<Rightarrow> procop \<Rightarrow> dthread_argret_t option \<Rightarrow> u64 option \<Rightarrow> app_thread \<Rightarrow>
     (int \<times> dthread_argret_t option \<times> u64 option) \<times> app_thread" where
  "call_proc p op a v t = (p op a v, t\<lparr>proc_log := proc_log t @ [(op, a, v)]\<rparr>)"

text \<open>\<^verbatim>\<open>pthread_setcancelstate(PTHREAD_CANCEL_DISABLE, &oldcanstate)\<close> and the way back.\<close>

definition block_cancel :: "app_thread \<Rightarrow> int \<times> app_thread" where
  "block_cancel t = (if setcancel_rv t = 0 then (0, t\<lparr>oldcanstate := canstate t, canstate := False\<rparr>) else (setcancel_rv t, t))"

definition restore_cancel :: "app_thread \<Rightarrow> app_thread" where
  "restore_cancel t = (if setcancel_rv t = 0 then t\<lparr>canstate := oldcanstate t\<rparr> else t)"

subsection \<open>Requests of a thread\<close>

definition get_dispatch_idx :: "u64 \<Rightarrow> dtrs \<Rightarrow> u32" where
  "get_dispatch_idx function s =
     (case find (\<lambda>i. function = dt_st (dsps s ! i)) [1..<ndsps s] of None \<Rightarrow> 0 | Some i \<Rightarrow> of_nat i)"

definition get_my_req :: "app_thread \<Rightarrow> dtrs \<Rightarrow> (reqptr \<times> nat) option \<times> dtrs" where
  "get_my_req t s =
     (case tls t of
        None \<Rightarrow> (None, s)
      | Some l \<Rightarrow>
          if reqstate (lt_req (ltab s ! l)) \<noteq> DTREQ_IDLE then (None, s)
          else case mqe_alloc s of
                 (None, s) \<Rightarrow> (None, s)
               | (Some m, s) \<Rightarrow> (Some (Ltab_req l, m), s))"

text \<open>The message of a request: the transaction number is left to the manager.\<close>

definition setup_msg :: "nat \<Rightarrow> dtmsg_body \<Rightarrow> int \<Rightarrow> dtrs \<Rightarrow> dtrs" where
  [mgr_ops]: "setup_msg m body to s =
     upd_mqe m (\<lambda>e. e\<lparr>frame := (frame e)\<lparr>msg_body := body\<rparr>, flen := sizeof_dtmsg body, peer := to\<rparr>) s"

text \<open>Lock, set up and queue the request; \<open>f\<close> writes the member of its union.\<close>

definition post_req :: "reqptr \<Rightarrow> dtop \<Rightarrow> nat \<Rightarrow> (dthread_request_t \<Rightarrow> dthread_request_t) \<Rightarrow> dtrs \<Rightarrow> dtrs" where
  "post_req r op m f s =
     (let s = upd_req r (\<lambda>q. f (q\<lparr>reqstate := DTREQ_BUSY, reqpeer := peer (mqes s m), reqop := op,
                req_mqe := Some m, reqerror := 0\<rparr>)) s
      in s\<lparr>dtq := dtq_req_enqueue r (dtq s)\<rparr>)"

text \<open>After the wait: the request with its results, which becomes idle; \<open>None\<close> while it is busy.\<close>

definition collect_req :: "reqptr \<Rightarrow> dtrs \<Rightarrow> (dthread_request_t \<times> dtrs) option" where
  "collect_req r s =
     (if reqstate (get_req s r) = DTREQ_BUSY then None
      else Some (get_req s r, upd_req r (\<lambda>q. q\<lparr>reqstate := DTREQ_IDLE\<rparr>) s))"

subsection \<open>create\<close>

text \<open>Scheduling attributes cannot be inherited from a thread of another process.\<close>

definition explicit_sched :: "app_thread \<Rightarrow> dthread_attr_t \<Rightarrow> dthread_attr_t" where
  "explicit_sched t a =
     (if attr_explicit_sched a then a
      else let a = (case schedparam t of
                      None \<Rightarrow> a
                    | Some (policy, param) \<Rightarrow> a\<lparr>attr_schedpolicy := policy, attr_schedparam := param\<rparr>)
           in a\<lparr>attr_explicit_sched := True\<rparr>)"

definition dthread_create_common ::
    "dthread_attr_t option \<Rightarrow> u32 \<Rightarrow> dthread_argret_t option \<Rightarrow> app_thread \<Rightarrow> dtrs \<Rightarrow> int option \<times> dtrs" where
  "dthread_create_common attr didx arg t s =
     (case get_my_req t s of
        (None, s) \<Rightarrow> (Some ENOMEM, s)
      | (Some (treq, mqe), s) \<Rightarrow>
          let attrs = explicit_sched t (case attr of None \<Rightarrow> attr_init t | Some a \<Rightarrow> a);
              a = (case arg of None \<Rightarrow> zero_argret\<lparr>dt_argret_type := DTHREAD_NODATA\<rparr> | Some a \<Rightarrow> a);
              s = setup_msg mqe (Dtmsg_create attrs didx a) 0 s
          in (None, post_req treq DTOP_CREATE mqe (\<lambda>q. q) s))"

text \<open>The last part: the error code and, on success, the new thread.\<close>

definition create_collect :: "reqptr \<Rightarrow> dtrs \<Rightarrow> ((int \<times> dthread_t option) \<times> dtrs) option" where
  "create_collect treq s =
     (case collect_req treq s of
        None \<Rightarrow> None
      | Some (q, s) \<Rightarrow> Some ((reqerror q, if reqerror q = 0 then Some (req_newdthread q) else None), s))"

text \<open>\<open>dthread\<close> tells whether the pointer to the result is not NULL.\<close>

definition dthread_ncreate_start ::
    "bool \<Rightarrow> dthread_attr_t option \<Rightarrow> u64 \<Rightarrow> dthread_argret_t option \<Rightarrow> app_thread \<Rightarrow> dtrs \<Rightarrow>
     int option \<times> app_thread \<times> dtrs" where
  "dthread_ncreate_start dthread attr dtstart arg t s =
     (let didx = get_dispatch_idx dtstart s; d = dsps s ! unat didx
      in if \<not> dthread then (Some EINVAL, t, s)
         else if didx = 0 then (Some ENOENT, t, s)
         else if dt_argproc d \<noteq> None \<or> dt_retproc d \<noteq> None then (Some EOPNOTSUPP, t, s)
         else let (rv, t) = block_cancel t
              in if rv \<noteq> 0 then (Some rv, t, s)
                 else let (rv, s) = dthread_create_common attr didx arg t s
                      in (rv, if rv = None then t else restore_cancel t, s))"

definition dthread_ncreate_finish ::
    "reqptr \<Rightarrow> app_thread \<Rightarrow> dtrs \<Rightarrow> ((int \<times> dthread_t option) \<times> app_thread \<times> dtrs) option" where
  "dthread_ncreate_finish treq t s =
     (case create_collect treq s of None \<Rightarrow> None | Some (res, s) \<Rightarrow> Some (res, restore_cancel t, s))"

text \<open>
  The pthread-style call encodes its argument first and frees the encoded argument when
  the call fails.
\<close>

definition free_procarg :: "dthread_proc_pth_t \<Rightarrow> app_thread \<Rightarrow> app_thread" where
  "free_procarg p t =
     (let ((_, a, _), t) = call_proc p DTHREAD_PROC_FREE (Some (procarg t)) None t
      in t\<lparr>procarg := (case a of None \<Rightarrow> procarg t | Some a \<Rightarrow> a)\<rparr>)"

definition dthread_create_start ::
    "bool \<Rightarrow> dthread_attr_t option \<Rightarrow> u64 \<Rightarrow> u64 \<Rightarrow> app_thread \<Rightarrow> dtrs \<Rightarrow> int option \<times> app_thread \<times> dtrs" where
  "dthread_create_start dthread attr dtstartpth arg t s =
     (let didx = get_dispatch_idx dtstartpth s; d = dsps s ! unat didx
      in if \<not> dthread then (Some EINVAL, t, s)
         else if didx = 0 then (Some ENOENT, t, s)
         else case (dt_argproc d, dt_retproc d) of
                (Some proc, Some _) \<Rightarrow>
                  let (rv, t) = block_cancel t
                  in if rv \<noteq> 0 then (Some rv, t, s)
                     else let ((rv, a, _), t) = call_proc proc DTHREAD_PROC_ENCODE (Some (procarg t)) (Some arg) t;
                              t = t\<lparr>procarg := (case a of None \<Rightarrow> procarg t | Some a \<Rightarrow> a)\<rparr>
                          in if rv \<noteq> 0 then (Some rv, restore_cancel t, s)
                             else case dthread_create_common attr didx (Some (procarg t)) t s of
                                    (None, s) \<Rightarrow> (None, t, s)
                                  | (Some rv, s) \<Rightarrow> (Some rv, restore_cancel (free_procarg proc t), s)
              | _ \<Rightarrow> (Some EOPNOTSUPP, t, s))"

definition dthread_create_finish ::
    "dthread_proc_pth_t \<Rightarrow> reqptr \<Rightarrow> app_thread \<Rightarrow> dtrs \<Rightarrow> ((int \<times> dthread_t option) \<times> app_thread \<times> dtrs) option" where
  "dthread_create_finish proc treq t s =
     (case create_collect treq s of
        None \<Rightarrow> None
      | Some (res, s) \<Rightarrow> Some (res, restore_cancel (if fst res \<noteq> 0 then free_procarg proc t else t), s))"

subsection \<open>detach and cancel\<close>

text \<open>The common shape of the two: validate the handle, block cancel, send \<open>body\<close> to \<open>to\<close>.\<close>

definition handle_request ::
    "dthread_t \<Rightarrow> dtop \<Rightarrow> dtmsg_body \<Rightarrow> int \<Rightarrow> app_thread \<Rightarrow> dtrs \<Rightarrow> int option \<times> app_thread \<times> dtrs" where
  "handle_request thread op body to t s =
     (if dthread_dt2gtab thread s = None then (Some ESRCH, t, s)
      else let (rv, t) = block_cancel t
           in if rv \<noteq> 0 then (Some rv, t, s)
              else case get_my_req t s of
                     (None, s) \<Rightarrow> (Some ENOMEM, restore_cancel t, s)
                   | (Some (treq, mqe), s) \<Rightarrow> (None, t, post_req treq op mqe (\<lambda>q. q) (setup_msg mqe body to s)))"

definition dthread_detach_start :: "dthread_t \<Rightarrow> app_thread \<Rightarrow> dtrs \<Rightarrow> int option \<times> app_thread \<times> dtrs" where
  "dthread_detach_start thread t s = handle_request thread DTOP_DETACH (Dtmsg_detach thread) 0 t s"

definition dthread_cancel_start :: "dthread_t \<Rightarrow> app_thread \<Rightarrow> dtrs \<Rightarrow> int option \<times> app_thread \<times> dtrs" where
  "dthread_cancel_start thread t s =
     handle_request thread DTOP_CANCEL (Dtmsg_cancel thread) (gt_rank (gtab s ! unat (dt_index thread))) t s"

definition handle_finish :: "reqptr \<Rightarrow> app_thread \<Rightarrow> dtrs \<Rightarrow> (int \<times> app_thread \<times> dtrs) option" where
  "handle_finish treq t s =
     (case collect_req treq s of None \<Rightarrow> None | Some (q, s) \<Rightarrow> Some (reqerror q, restore_cancel t, s))"

subsection \<open>join\<close>

text \<open>\<open>ret\<close> is the memory that the result pointer of the call points to.\<close>

definition dthread_join_common :: "dthread_t \<Rightarrow> dthread_argret_t \<Rightarrow> app_thread \<Rightarrow> dtrs \<Rightarrow> int option \<times> dtrs" where
  "dthread_join_common dthread ret t s =
     (case get_my_req t s of
        (None, s) \<Rightarrow> (Some ENOMEM, s)
      | (Some (treq, mqe), s) \<Rightarrow>
          (None, post_req treq DTOP_JOIN mqe (\<lambda>q. q\<lparr>req_retval := Some ret\<rparr>) (setup_msg mqe (Dtmsg_join dthread) 0 s)))"

definition join_collect :: "reqptr \<Rightarrow> dtrs \<Rightarrow> ((int \<times> dthread_argret_t option) \<times> dtrs) option" where
  "join_collect treq s =
     (case collect_req treq s of
        None \<Rightarrow> None
      | Some (q, s) \<Rightarrow>
          Some ((reqerror q, if reqerror q \<noteq> 0
                             then map_option (\<lambda>r. r\<lparr>dt_argret_type := DTHREAD_NODATA\<rparr>) (req_retval q)
                             else req_retval q), s))"

text \<open>The tests that both calls make first: an error code, or the dispatch index of the thread.\<close>

definition join_check :: "dthread_t \<Rightarrow> app_thread \<Rightarrow> dtrs \<Rightarrow> int + nat" where
  "join_check thread t s =
     (if dthread_dt2gtab thread s = None then Inl ESRCH
      else if (case tls t of None \<Rightarrow> False | Some l \<Rightarrow> lt_gtab_idx (ltab s ! l) = dt_index thread) then Inl EDEADLK
      else let didx = unat (gt_disp_idx (gtab s ! unat (dt_index thread)))
           in if didx \<ge> ndsps s then Inl EIO else Inr didx)"

definition dthread_njoin_start ::
    "dthread_t \<Rightarrow> dthread_argret_t \<Rightarrow> app_thread \<Rightarrow> dtrs \<Rightarrow> int option \<times> app_thread \<times> dtrs" where
  "dthread_njoin_start thread ret t s =
     (case join_check thread t s of
        Inl e \<Rightarrow> (Some e, t, s)
      | Inr didx \<Rightarrow>
          if dt_argproc (dsps s ! didx) \<noteq> None \<or> dt_retproc (dsps s ! didx) \<noteq> None then (Some EOPNOTSUPP, t, s)
          else let (rv, t) = block_cancel t
               in if rv \<noteq> 0 then (Some rv, t, s)
                  else let (rv, s) = dthread_join_common thread ret t s
                       in (rv, if rv = None then t else restore_cancel t, s))"

definition dthread_njoin_finish ::
    "reqptr \<Rightarrow> app_thread \<Rightarrow> dtrs \<Rightarrow> ((int \<times> dthread_argret_t option) \<times> app_thread \<times> dtrs) option" where
  "dthread_njoin_finish treq t s =
     (case join_collect treq s of None \<Rightarrow> None | Some (res, s) \<Rightarrow> Some (res, restore_cancel t, s))"

definition dthread_join_start :: "dthread_t \<Rightarrow> app_thread \<Rightarrow> dtrs \<Rightarrow> int option \<times> app_thread \<times> dtrs" where
  "dthread_join_start thread t s =
     (case join_check thread t s of
        Inl e \<Rightarrow> (Some e, t, s)
      | Inr didx \<Rightarrow>
          if dt_argproc (dsps s ! didx) = None \<or> dt_retproc (dsps s ! didx) = None then (Some EOPNOTSUPP, t, s)
          else let (rv, t) = block_cancel t
               in if rv \<noteq> 0 then (Some rv, t, s)
                  else let (rv, s) = dthread_join_common thread (procarg t) t s
                       in (rv, if rv = None then t else restore_cancel t, s))"

text \<open>
  \<open>proc\<close> is the return proc read by the first step.  The result is the error code and
  what was stored through \<^verbatim>\<open>retptr\<close>, which held \<open>old\<close>.
\<close>

abbreviation "PTHREAD_CANCELED \<equiv> (- 1 :: u64)"

definition dthread_join_finish ::
    "dthread_proc_pth_t \<Rightarrow> u64 \<Rightarrow> reqptr \<Rightarrow> app_thread \<Rightarrow> dtrs \<Rightarrow> ((int \<times> u64) \<times> app_thread \<times> dtrs) option" where
  "dthread_join_finish proc old treq t s =
     (case join_collect treq s of
        None \<Rightarrow> None
      | Some ((rv, ret), s) \<Rightarrow>
          let t = t\<lparr>procarg := (case ret of None \<Rightarrow> procarg t | Some r \<Rightarrow> r)\<rparr>
          in if rv \<noteq> 0 then Some ((rv, old), restore_cancel t, s)
             else let ((rv, a, v), t) = call_proc proc DTHREAD_PROC_DECODE (Some (procarg t)) (Some old) t;
                      t = t\<lparr>procarg := (case a of None \<Rightarrow> procarg t | Some a \<Rightarrow> a)\<rparr>;
                      res = (if rv \<noteq> 0 then PTHREAD_CANCELED else case v of None \<Rightarrow> old | Some v \<Rightarrow> v)
                  in Some ((rv, res), restore_cancel (free_procarg proc t), s))"

subsection \<open>exit\<close>

text \<open>
  \<open>None\<close> is \<^verbatim>\<open>exit(1)\<close>: the process ends.  Otherwise the thread goes on to
  \<^verbatim>\<open>pthread_exit\<close>, which runs the cleanup function of its wrapper.
\<close>

definition exit_ret :: "bool \<Rightarrow> dthread_argret_t option \<Rightarrow> u64 \<Rightarrow> nat \<Rightarrow> app_thread \<Rightarrow> dtrs \<Rightarrow> (app_thread \<times> dtrs) res" where
  "exit_ret native ret v g t s =
     (let didx = unat (gt_disp_idx (gtab s ! g)); d = dsps s ! didx;
          native_didx = (dt_argproc d = None \<and> dt_retproc d = None)
      in if didx \<ge> ndsps s then Inr (t, s)
         else if native then
           (case ret of
              Some r \<Rightarrow> Inr (t, if native_didx then upd_gtab g (\<lambda>gt. gt\<lparr>gt_ret := r\<rparr>) s else s)
            | None \<Rightarrow> Inr (t, s))
         else if native_didx then Inr (t, s)
         else case dt_retproc d of
                None \<Rightarrow> Inl Null_deref
              | Some proc \<Rightarrow>
                  let ((prv, a, v'), t) = call_proc proc DTHREAD_PROC_ENCODE (Some (gt_ret (gtab s ! g))) (Some v) t;
                      s = upd_gtab g (\<lambda>gt. gt\<lparr>gt_ret := (case a of None \<Rightarrow> gt_ret gt | Some a \<Rightarrow> a)\<rparr>) s
                  in if prv \<noteq> 0 then
                       Inr (snd (call_proc proc DTHREAD_PROC_FREE None v' t),
                            upd_gtab g (\<lambda>gt. gt\<lparr>gt_ret := (gt_ret gt)\<lparr>dt_argret_type := DTHREAD_CANCELED\<rparr>\<rparr>) s)
                     else Inr (t, s))"

definition dthread_exit_common ::
    "bool \<Rightarrow> dthread_argret_t option \<Rightarrow> u64 \<Rightarrow> app_thread \<Rightarrow> dtrs \<Rightarrow> (app_thread \<times> dtrs) option res" where
  "dthread_exit_common native ret v t s =
     (let t = (if setcancel_rv t = 0 then t\<lparr>canstate := False\<rparr> else t)
      in case tls t of
           None \<Rightarrow> Inr None
         | Some l \<Rightarrow>
             let g = unat (lt_gtab_idx (ltab s ! l))
             in if g \<ge> nmaxthread s \<or> lt_seq (ltab s ! l) \<noteq> gt_seq (gtab s ! g) then Inr None
                else let s = upd_gtab g (\<lambda>gt. gt\<lparr>gt_ret := (gt_ret gt)\<lparr>dt_argret_type := DTHREAD_NODATA\<rparr>\<rparr>) s
                     in rbind (exit_ret native ret v g t s) (\<lambda>(t, s).
                          Inr (Some (t, upd_ltab l (\<lambda>lt. lt\<lparr>lt_pth_state := LT_EXITED\<rparr>) s))))"

definition dthread_nexit :: "dthread_argret_t option \<Rightarrow> app_thread \<Rightarrow> dtrs \<Rightarrow> (app_thread \<times> dtrs) option res" where
  "dthread_nexit ret t s = dthread_exit_common True ret 0 t s"

definition dthread_exit :: "u64 \<Rightarrow> app_thread \<Rightarrow> dtrs \<Rightarrow> (app_thread \<times> dtrs) option res" where
  "dthread_exit ret t s = dthread_exit_common False None ret t s"

subsection \<open>The end of a thread\<close>

text \<open>A request without reply and without message, of the thread of slot \<open>l\<close>.\<close>

definition post_final :: "nat \<Rightarrow> dtop \<Rightarrow> dtrs \<Rightarrow> dtrs" where
  "post_final l op s =
     (let s = upd_req (Ltab_req l) (\<lambda>q. q\<lparr>reqstate := DTREQ_BUSY, reqpeer := 0, reqop := op, req_mqe := None\<rparr>) s
      in s\<lparr>dtq := dtq_req_enqueue (Ltab_req l) (dtq s)\<rparr>)"

definition retclean_request :: "nat \<Rightarrow> lt_state \<Rightarrow> dtrs \<Rightarrow> dtrs" where
  "retclean_request l finalstate s =
     (let s = (if LT_NEED_FINALSTATE (lt_pth_state (ltab s ! l))
               then upd_ltab l (\<lambda>lt. lt\<lparr>lt_pth_state := finalstate\<rparr>) s else s);
          s = (if lt_pth_state (ltab s ! l) = LT_CANCELED \<or> lt_pth_state (ltab s ! l) = LT_CLEANUP
               then upd_gtab (unat (lt_gtab_idx (ltab s ! l)))
                      (\<lambda>gt. gt\<lparr>gt_ret := (gt_ret gt)\<lparr>dt_argret_type := DTHREAD_CANCELED\<rparr>\<rparr>) s
               else s)
      in post_final l DTOP_RETCLEAN s)"

subsection \<open>The wrapper of application threads\<close>

record dt_wrapstate =
  ws_lt :: nat
  ws_disp :: dthread_dispatch_t
  ws_native :: bool
  ws_pth_decarg :: u64
  ws_pth_ret :: u64
  ws_returned :: bool

text \<open>Cancel is blocked until the slot is set up.\<close>

definition wrap_block :: "app_thread \<Rightarrow> app_thread" where
  "wrap_block t =
     (if setcancel_rv t = 0 then t\<lparr>oldcanstate := canstate t, canstate := False\<rparr> else t\<lparr>oldcanstate := True\<rparr>)"

text \<open>The slot becomes running; \<open>decarg\<close> is the decoded argument.\<close>

definition wrap_run ::
    "nat \<Rightarrow> nat \<Rightarrow> u64 \<Rightarrow> app_thread \<Rightarrow> dtrs \<Rightarrow> (dt_wrapstate option \<times> app_thread \<times> dtrs) res" where
  "wrap_run l g decarg t s =
     (let d = dsps s ! unat (gt_disp_idx (gtab s ! g));
          ws = \<lparr>ws_lt = l, ws_disp = d, ws_native = (dt_argproc d = None \<and> dt_retproc d = None), ws_pth_decarg = decarg,
                ws_pth_ret = 0, ws_returned = False\<rparr>;
          s = upd_gtab g (\<lambda>gt. gt\<lparr>gt_ltab_idx := l, gt_has_ltab := True\<rparr>) s;
          s = upd_ltab l (\<lambda>lt. lt\<lparr>lt_pth_state := LT_RUNNING\<rparr>) s
      in Inr (Some ws, restore_cancel t, s))"

text \<open>
  \<^verbatim>\<open>dthreadwrap\<close> up to the call of the application function for the slot \<open>l\<close>: \<open>None\<close> is a
  return before that call.  The decoded argument is the pointee of the second pointer of
  the proc call, which is not initialised before (0 here).
\<close>

definition dthreadwrap_start ::
    "nat \<Rightarrow> app_thread \<Rightarrow> dtrs \<Rightarrow> (dt_wrapstate option \<times> app_thread \<times> dtrs) res" where
  "dthreadwrap_start l t s =
     (let t = wrap_block t; g = unat (lt_gtab_idx (ltab s ! l))
      in if l \<ge> nmaxthread s \<or> g \<ge> nmaxthread s \<or> gt_seq (gtab s ! g) \<noteq> lt_seq (ltab s ! l) then Inr (None, t, s)
         else if setspecific_rv t \<noteq> 0 then Inr (None, t, retclean_request l LT_CANCELED s)
         else
           let t = t\<lparr>tls := Some l\<rparr>; didx = unat (gt_disp_idx (gtab s ! g)); d = dsps s ! didx
           in if didx < 1 \<or> didx \<ge> ndsps s then Inr (None, t, retclean_request l LT_CANCELED s)
              else if dt_argproc d = None \<and> dt_retproc d = None then wrap_run l g 0 t s
              else case dt_argproc d of
                     None \<Rightarrow> Inl Null_deref
                   | Some proc \<Rightarrow>
                       let ((rv, a, v), t) = call_proc proc DTHREAD_PROC_DECODE (Some (gt_arg (gtab s ! g))) (Some 0) t;
                           s = upd_gtab g (\<lambda>gt. gt\<lparr>gt_arg := (case a of None \<Rightarrow> gt_arg gt | Some a \<Rightarrow> a)\<rparr>) s
                       in if rv \<noteq> 0 then Inr (None, t, retclean_request l LT_CANCELED s)
                          else wrap_run l g (case v of None \<Rightarrow> 0 | Some v \<Rightarrow> v) t s)"

definition dthreadcleanup :: "dt_wrapstate \<Rightarrow> app_thread \<Rightarrow> dtrs \<Rightarrow> (app_thread \<times> dtrs) res" where
  "dthreadcleanup ws t s =
     (let l = ws_lt ws; g = unat (lt_gtab_idx (ltab s ! l));
          finalstate = (if ws_returned ws then LT_RETURNED else LT_CLEANUP)
      in if ws_native ws then Inr (t, retclean_request l finalstate s)
         else case dt_argproc (ws_disp ws) of
                None \<Rightarrow> Inl Null_deref
              | Some argproc \<Rightarrow>
                  let ((_, a, _), t) = call_proc argproc DTHREAD_PROC_FREE (Some (gt_arg (gtab s ! g)))
                        (Some (ws_pth_decarg ws)) t;
                      s = upd_gtab g (\<lambda>gt. gt\<lparr>gt_arg := (case a of None \<Rightarrow> gt_arg gt | Some a \<Rightarrow> a)\<rparr>) s
                  in if \<not> ws_returned ws then Inr (t, retclean_request l finalstate s)
                     else case dt_retproc (ws_disp ws) of
                            None \<Rightarrow> Inl Null_deref
                          | Some retproc \<Rightarrow>
                              let ((rv, a, _), t) = call_proc retproc DTHREAD_PROC_ENCODE (Some (gt_ret (gtab s ! g)))
                                    (Some (ws_pth_ret ws)) t;
                                  s = upd_gtab g (\<lambda>gt. gt\<lparr>gt_ret := (case a of None \<Rightarrow> gt_ret gt | Some a \<Rightarrow> a)\<rparr>) s
                              in if rv \<noteq> 0 then
                                   Inr (t, retclean_request l LT_CANCELED
                                     (upd_gtab g (\<lambda>gt. gt\<lparr>gt_ret := (gt_ret gt)\<lparr>dt_argret_type := DTHREAD_CANCELED\<rparr>\<rparr>) s))
                                 else Inr (t, retclean_request l finalstate s))"

text \<open>
  The rest of \<^verbatim>\<open>dthreadwrap\<close> when the application function returns: \<open>nret\<close> is the value
  of a native function, \<open>pret\<close> that of a pthread-style function.
\<close>

definition dthreadwrap_return ::
    "dt_wrapstate \<Rightarrow> dthread_argret_t \<Rightarrow> u64 \<Rightarrow> app_thread \<Rightarrow> dtrs \<Rightarrow> (app_thread \<times> dtrs) res" where
  "dthreadwrap_return ws nret pret t s =
     (let g = unat (lt_gtab_idx (ltab s ! ws_lt ws));
          s = (if ws_native ws then upd_gtab g (\<lambda>gt. gt\<lparr>gt_ret := nret\<rparr>) s else s);
          ws = (if ws_native ws then ws else ws\<lparr>ws_pth_ret := pret\<rparr>);
          t = (if setcancel_rv t = 0 then t\<lparr>canstate := False\<rparr> else t)
      in dthreadcleanup (ws\<lparr>ws_returned := True\<rparr>) t s)"

subsection \<open>The wrapper of the main thread of the application\<close>

definition app0cleanup :: "app_thread \<Rightarrow> dtrs \<Rightarrow> app_thread \<times> dtrs" where
  "app0cleanup t s = (if setcancel_rv t = 0 then t\<lparr>canstate := False\<rparr> else t, retclean_request 0 LT_CLEANUP s)"

text \<open>\<^verbatim>\<open>app0wrap\<close> up to the call of \<^verbatim>\<open>app0main\<close>: the first result tells whether it is called.\<close>

definition app0wrap_start :: "app_thread \<Rightarrow> dtrs \<Rightarrow> bool \<times> app_thread \<times> dtrs" where
  "app0wrap_start t s =
     (if setspecific_rv t \<noteq> 0 then (False, app0cleanup t s) else (True, t\<lparr>tls := Some 0\<rparr>, s))"

definition app0wrap_return :: "int \<Rightarrow> app_thread \<Rightarrow> dtrs \<Rightarrow> app_thread \<times> dtrs" where
  "app0wrap_return exitval t s =
     (let s = upd_mgr (\<lambda>m. m\<lparr>app0exitval := exitval\<rparr>) s;
          t = (if setcancel_rv t = 0 then t\<lparr>canstate := False\<rparr> else t);
          s = upd_ltab 0 (\<lambda>lt. lt\<lparr>lt_pth_state := LT_RETURNED\<rparr>) s
      in (t, post_final 0 DTOP_APP0_RET s))"

end
