(* ===== verification/Dt_Invariant.thy ===== *)
theory Dt_Invariant
  imports Dt_Requests
begin

text \<open>
  The invariant of the manager: its two thread tables (slot counters and positions) and
  its requests.  The global table is managed by rank 0 only: the other ranks read it in
  shared memory.  Every handler keeps the invariant, for every message a rank can
  receive, truncated, stale or sent to the wrong rank, and for every outcome of malloc
  and of \<^verbatim>\<open>pthread_create\<close>.
\<close>

definition tables_ok :: "dtrs \<Rightarrow> bool" where
  "tables_ok s \<longleftrightarrow> length (gtab s) = nmaxthread s \<and> (mpi_rank s = 0 \<longrightarrow> gtab_ok s) \<and> ltab_ok s"

definition mgr_inv :: "dtrs \<Rightarrow> bool" where
  "mgr_inv s \<longleftrightarrow> tables_ok s \<and> req_inv {#} s"

definition mgr_inv_held :: "reqptr multiset \<Rightarrow> dtrs \<Rightarrow> bool" where
  "mgr_inv_held H s \<longleftrightarrow> tables_ok s \<and> req_inv H s"

lemma gview_rank:
  assumes "gview s' = gview s"
  shows "mpi_rank s' = mpi_rank s" "nmaxthread s' = nmaxthread s" "length (gtab s') = length (gtab s)"
proof -
  have "map gt_allocated (gtab s') = map gt_allocated (gtab s)" using assms by (simp add: gview_def)
  then show "length (gtab s') = length (gtab s)" by (rule map_eq_imp_length_eq)
qed (use assms in \<open>simp_all add: gview_def\<close>)

lemma tables_ok_views: "gview s' = gview s \<Longrightarrow> lview s' = lview s \<Longrightarrow> tables_ok s' = tables_ok s"
  using gtab_ok_gview(1) [of s' s] ltab_ok_lview(1) [of s' s] gview_rank [of s' s] by (simp add: tables_ok_def)

lemma mgr_inv_views:
  "gview s' = gview s \<Longrightarrow> lview s' = lview s \<Longrightarrow> rview s' = rview s \<Longrightarrow> mgr_inv_held H s' = mgr_inv_held H s"
  using tables_ok_views req_inv_rview by (metis mgr_inv_held_def)

lemma mgr_inv_views_tables:
  "gview s' = gview s \<Longrightarrow> lview s' = lview s \<Longrightarrow> mgr_inv_held H s \<Longrightarrow> req_inv H' s' \<Longrightarrow> mgr_inv_held H' s'"
  using tables_ok_views by (metis mgr_inv_held_def)

lemma mpi_rank_gtab_free:
  "mpi_rank (gtab_free g s) = mpi_rank s" "length (gtab (gtab_free g s)) = length (gtab s)"
  "nmaxthread (gtab_free g s) = nmaxthread s"
  by (simp_all add: gtab_free_def mgr_ops)

lemma mgr_inv_gtab_free:
  "mgr_inv_held H s \<Longrightarrow> g < nmaxthread s \<Longrightarrow> mgr_inv_held H (gtab_free g s)"
  using gtab_free_slot [of s g] ltab_ok_lview(1) [of "gtab_free g s" s] req_inv_rview [of "gtab_free g s" s H]
  by (simp add: mgr_inv_held_def tables_ok_def mpi_rank_gtab_free)

lemma mgr_inv_ltab_free:
  "mgr_inv_held H s \<Longrightarrow> l < nmaxthread s \<Longrightarrow> mgr_inv_held H (ltab_free l s)"
  using ltab_free_slot [of s l] gtab_ok_gview(1) [of "ltab_free l s" s] req_inv_rview [of "ltab_free l s" s H]
    gview_rank [of "ltab_free l s" s] by (simp add: mgr_inv_held_def tables_ok_def)

lemma mgr_inv_release: "mgr_inv_held (add_mset r H) s \<Longrightarrow> mgr_inv_held H (dtq_req_release r n s)"
  by (rule mgr_inv_views_tables [of "dtq_req_release r n s" s "add_mset r H"])
    (auto simp: mgr_inv_held_def intro: req_inv_release)

lemma mgr_inv_req_alloc:
  "mgr_inv_held H s \<Longrightarrow> dtq_req_alloc s = (ro, s') \<Longrightarrow>
   mgr_inv_held (H + (case ro of None \<Rightarrow> {#} | Some r \<Rightarrow> {#r#})) s'"
  using view_req_alloc [of s ro s'] req_inv_alloc [of H s ro s'] mgr_inv_views_tables [of s' s H]
  by (simp add: mgr_inv_held_def)

lemma mgr_inv_held_upd_req:
  assumes "mgr_inv_held (add_mset r H) s" "\<And>q. reqstate (f q) = reqstate q"
  shows "mgr_inv_held (add_mset r H) (upd_req r f s)"
  using assms held_not_pending(1) [of "add_mset r H" s r]
  by (intro mgr_inv_views_tables [OF _ _ assms(1)]) (auto simp: mgr_inv_held_def intro: req_inv_upd_req)

lemma mgr_inv_add_pending:
  "mgr_inv_held (add_mset r H) s \<Longrightarrow> pend_ok s r \<Longrightarrow> mgr_inv_held H (add_pending r s)"
  by (rule mgr_inv_views_tables [of "add_pending r s" s "add_mset r H"])
    (auto simp: mgr_inv_held_def intro: req_inv_add_pending)

lemma mgr_inv_rm_pending:
  "mgr_inv_held H s \<Longrightarrow> r \<in> set (rpending (mgrstate s)) \<Longrightarrow>
   mgr_inv_held (H + (if is_int r then {#r#} else {#})) (rm_pending r s)"
  using req_inv_rm_pending(1) [of H s r] mgr_inv_views_tables [of "rm_pending r s" s H]
  by (simp add: mgr_inv_held_def)

lemma pend_is_int:
  "pend_ok s r \<Longrightarrow> reqop (get_req s r) = DTOP_JOINWAIT \<or> reqop (get_req s r) = DTOP_START \<Longrightarrow> is_int r"
  by (cases r) (auto simp: pend_ok_def)

lemma pend_is_ltab:
  "pend_ok s r \<Longrightarrow> reqop (get_req s r) \<in> {DTOP_CREATE, DTOP_DETACH, DTOP_CANCEL, DTOP_JOIN} \<Longrightarrow>
   \<exists>i < length (ltab s). r = Ltab_req i"
  by (cases r) (auto simp: pend_ok_def)

lemma pend_ok_of_inv: "mgr_inv_held H s \<Longrightarrow> r \<in> set (rpending (mgrstate s)) \<Longrightarrow> pend_ok s r"
  by (simp add: mgr_inv_held_def req_inv_def)

subsection \<open>Waiting joins\<close>

lemma joinwait_search_inv:
  assumes "mgr_inv_held H s" "joinwait_search th True s = (ro, s')"
  shows "mgr_inv_held (H + (case ro of None \<Rightarrow> {#} | Some r \<Rightarrow> {#r#})) s'"
proof (cases ro)
  case None
  then show ?thesis using assms by (auto simp: joinwait_search_def split: option.splits)
next
  case (Some r)
  then have r: "r \<in> set (rpending (mgrstate s))" "reqop (get_req s r) = DTOP_JOINWAIT" "s' = rm_pending r s"
    using assms(2) by (auto simp: joinwait_search_def split: option.splits dest: find_Some_mem)
  then have "is_int r" using pend_is_int [OF pend_ok_of_inv [OF assms(1) r(1)]] by simp
  then show ?thesis using mgr_inv_rm_pending [OF assms(1) r(1)] r(3) Some by simp
qed

lemma joinwait_end_release_inv:
  assumes "mgr_inv_held (add_mset r H) s"
  shows "mgr_inv_held H (joinwait_end_release r s)"
proof -
  define s1 where "s1 = (if reqop (get_req s r) \<noteq> DTOP_JOINWAIT then s
     else case mqe_alloc s of (None, s) \<Rightarrow> s
      | (Some m, s) \<Rightarrow> snd (send_or_unalloc m (write_dtmsg m (Dtmsg_joined (reqerror (get_req s r))
          (if reqerror (get_req s r) = 0 then gt_ret (gtab s ! unat (dt_index (req_waitthread (get_req s r))))
           else nodata_ret s)) (xidseq (get_req s r)) (reqpeer (get_req s r)) s)))"
  have "gview s1 = gview s" "lview s1 = lview s" "rview s1 = rview s" by (simp_all add: s1_def)
  then have "mgr_inv_held (add_mset r H) s1" using assms mgr_inv_views [of s1 s] by blast
  then have "mgr_inv_held H (dtq_req_release r True s1)" by (rule mgr_inv_release)
  then show ?thesis unfolding joinwait_end_release_def Let_def s1_def .
qed

subsection \<open>Handlers of rank 0\<close>

lemma deallocate_and_error_inv:
  assumes "mgr_inv_held (case r of None \<Rightarrow> {#} | Some r \<Rightarrow> {#r#}) s" "\<And>p. g = Some p \<Longrightarrow> p < nmaxthread s"
  shows "mgr_inv_held {#} (deallocate_and_error e r m g t x s)"
proof -
  define s1 where "s1 = (case r of None \<Rightarrow> s | Some r \<Rightarrow> dtq_req_release r False s)"
  define s2 where "s2 = (case m of None \<Rightarrow> s1 | Some m \<Rightarrow> s1\<lparr>dtq := dtq_mqe_unalloc m (dtq s1)\<rparr>)"
  define s3 where "s3 = (case g of None \<Rightarrow> s2 | Some g \<Rightarrow> gtab_free g s2)"
  have "mgr_inv_held {#} s1" using assms(1) mgr_inv_release by (auto simp: s1_def split: option.splits)
  moreover have "gview s2 = gview s1" "lview s2 = lview s1" "rview s2 = rview s1"
    by (auto simp: s2_def rview_def dtq_ops split: option.splits)
  ultimately have i2: "mgr_inv_held {#} s2" using mgr_inv_views by blast
  have "nmaxthread s2 = nmaxthread s"
    by (auto simp: s1_def s2_def dtq_req_release_def split: option.splits)
  then have "mgr_inv_held {#} s3" using i2 assms(2) mgr_inv_gtab_free by (auto simp: s3_def split: option.splits)
  then show ?thesis
    unfolding deallocate_and_error_def Let_def s1_def [symmetric] s2_def [symmetric] s3_def [symmetric]
    using mgr_inv_views [of "send_created_error e t x s3" s3 "{#}"] by simp
qed

lemma send_start_inv:
  assumes "mgr_inv_held {#r#} s" "g < nmaxthread s" "send_start r m g t a f x s = Inr s'"
  shows "mgr_inv_held {#} s'"
proof -
  obtain seq s0 where g: "get_free_seq DTOP_START s = Some (seq, s0)" using assms(3) by (auto simp: send_start_def)
  obtain y where s0: "s0 = s\<lparr>seqsrc := y\<rparr>" using get_free_seq_state [OF g] by auto
  define th where "th = \<lparr>dt_index = of_nat g, dt_seq = gt_seq (gtab s0 ! g)\<rparr>"
  define fr :: "dthread_request_t \<Rightarrow> dthread_request_t" where "fr = (\<lambda>r. r\<lparr>reqpeer := t, reqop := DTOP_START, req_mqe := None, xidseq := seq,
     reqerror := 0, req_creinfo := \<lparr>c_thread = th, c_peer = f, c_xidseq = x\<rparr>\<rparr>)"
  define s1 where "s1 = write_dtmsg m (Dtmsg_start th a) seq t s0"
  define s2 where "s2 = upd_req r fr s1"
  obtain mo q where e: "dtq_send_enqueue (mpi_rank s2) t m (dtq s2) = (mo, q)" by fastforce
  have "mgr_inv_held {#r#} s1" using assms(1) mgr_inv_views [of s1 s] by (simp add: s1_def s0)
  then have i2: "mgr_inv_held {#r#} s2" unfolding s2_def
    using mgr_inv_held_upd_req [of r "{#}" s1 fr] by (simp add: fr_def)
  have n2: "nmaxthread s2 = nmaxthread s" by (simp add: s2_def s1_def s0 mgr_ops)
  have v: "gview (s2\<lparr>dtq := q\<rparr>) = gview s2" "lview (s2\<lparr>dtq := q\<rparr>) = lview s2"  "rview (s2\<lparr>dtq := q\<rparr>) = rview s2"
    using e by (auto simp: rview_def dtq_ops Let_def split: if_splits)
  then have iq: "mgr_inv_held {#r#} (s2\<lparr>dtq := q\<rparr>)" using i2 mgr_inv_views by blast
  have run: "s' = (case mo of
       None \<Rightarrow> add_pending r (upd_mgr (\<lambda>m. m\<lparr>threads_starting := threads_starting m + 1\<rparr>) (s2\<lparr>dtq := q\<rparr>))
     | Some m \<Rightarrow> deallocate_and_error EIO (Some r) (Some m) (Some g) f x (s2\<lparr>dtq := q\<rparr>))"
    using assms(3) g e
    by (auto simp: send_start_def Let_def s2_def s1_def fr_def th_def s0 split: option.splits)
  show ?thesis
  proof (cases mo)
    case None
    define s3 where "s3 = upd_mgr (\<lambda>m. m\<lparr>threads_starting := threads_starting m + 1\<rparr>) (s2\<lparr>dtq := q\<rparr>)"
    have i3: "mgr_inv_held {#r#} s3"
      using iq mgr_inv_views [of s3 "s2\<lparr>dtq := q\<rparr>"] by (simp add: s3_def) (simp add: gview_def lview_def mgr_ops)
    obtain k where k: "r = Int_req k" using held_not_pending(2) [of "{#r#}" s3 r] i3 by (auto simp: mgr_inv_held_def)
    have "unat (of_nat g :: u32) \<le> g" by (simp add: unat_of_nat)
    then have "pend_ok s3 r"
      using assms(2) n2 by (simp add: pend_ok_def k s3_def s2_def fr_def th_def mgr_ops)
    then show ?thesis using mgr_inv_add_pending [OF i3] run None by (simp add: s3_def)
  next
    case (Some m')
    then show ?thesis using run iq n2 assms(2) deallocate_and_error_inv [of "Some r" "s2\<lparr>dtq := q\<rparr>" "Some g"] by simp
  qed
qed

lemma mgr_inv_gtab_alloc:
  assumes "mgr_inv_held H s" "gtab_alloc t d a s = Inr (go, s')" "mpi_rank s = 0"
  shows "mgr_inv_held H s' \<and> nmaxthread s' = nmaxthread s \<and> (\<forall>g. go = Some g \<longrightarrow> g < nmaxthread s)"
proof -
  have ok: "gtab_ok s" using assms by (simp add: mgr_inv_held_def tables_ok_def)
  show ?thesis
  proof (cases "gtab_inuse s = {..<nmaxthread s}")
    case True
    then show ?thesis using gslot.alloc_full [of s "(t, d, a)"] assms ok by auto
  next
    case False
    then obtain p s1 where p: "gtab_alloc t d a s = Inr (Some p, s1)" "p < nmaxthread s" "nmaxthread s1 = nmaxthread s"
      "gtab_ok s1" using gtab_alloc_slot [OF ok, of t d a] by auto
    then have s': "s' = s1" "go = Some p" using assms(2) by auto
    have "lview s' = lview s" "rview s' = rview s" using assms(2)
      by (auto simp: gtab_alloc_def get_free_seq_NONE seq_step_def Let_def split: if_splits option.splits)
        (simp_all add: lview_def rview_def mgr_ops)
    then have "ltab_ok s' = ltab_ok s" "req_inv H s' = req_inv H s" using ltab_ok_lview(1) req_inv_rview by blast+
    then show ?thesis using p s' assms(1) by (simp add: mgr_inv_held_def tables_ok_def gtab_ok_def)
  qed
qed

lemma create_thread_inv:
  assumes "mgr_inv_held {#} s" "create_thread mqe a d arg s = Inr s'" "mpi_rank s = 0"
  shows "mgr_inv_held {#} s'"
proof (cases "d = 0 \<or> unat d \<ge> ndsps s \<or> threads_alloc (mgrstate s) \<ge> int (nmaxthread s)")
  case True
  then obtain e t x where "s' = send_created_error e t x s"
    using assms(2) by (auto simp: create_thread_def Let_def split: if_splits)
  then show ?thesis using assms(1) mgr_inv_views [of "send_created_error e t x s" s] by simp
next
  case False
  define s0 where "s0 = upd_mgr (\<lambda>m. m\<lparr>next_rank := (next_rank m + 1) mod mpi_wsize s\<rparr>) s"
  obtain r s1 where r: "dtq_req_alloc s0 = (r, s1)" by fastforce
  obtain m s2 where m: "(if r \<noteq> None then mqe_alloc s1 else (None, s1)) = (m, s2)" by fastforce
  obtain g s3 where g: "(if m \<noteq> None then gtab_alloc (next_rank (mgrstate s)) d arg s2 else Inr (None, s2)) = Inr (g, s3)"
    using assms False r m by (cases "(if m \<noteq> None then gtab_alloc (next_rank (mgrstate s)) d arg s2 else Inr (None, s2))")
      (auto simp: create_thread_def Let_def s0_def)
  let ?H = "case r of None \<Rightarrow> {#} | Some r \<Rightarrow> {#r#}"
  have "mgr_inv_held {#} s0" using assms(1) mgr_inv_views [of s0 s]
    by (simp add: s0_def) (simp add: gview_def lview_def mgr_ops)
  then have "mgr_inv_held ?H s1" using mgr_inv_req_alloc [OF _ r] by fastforce
  moreover have v2: "gview s2 = gview s1" "lview s2 = lview s1" "rview s2 = rview s1"
    using m view_mqe_alloc rview_mqe_alloc by (auto split: if_splits)
  ultimately have i2: "mgr_inv_held ?H s2" using mgr_inv_views by blast
  have "gview s2 = gview s0" using v2(1) view_req_alloc [OF r] by simp
  then have "mpi_rank s2 = 0" using assms(3) gview_rank [of s2 s0] by (simp add: s0_def mgr_ops)
  then have i3: "mgr_inv_held ?H s3" "\<And>p. g = Some p \<Longrightarrow> p < nmaxthread s3"
    using g i2 mgr_inv_gtab_alloc [OF i2, of "next_rank (mgrstate s)" d arg g s3] by (auto split: if_splits)
  have run: "(case (r, m, g) of
       (Some r, Some m, Some g) \<Rightarrow> send_start r m g (next_rank (mgrstate s)) (sanitize_attrs a)
          (peer (mqes s mqe)) (msg_xidseq (frame (mqes s mqe))) s3
     | _ \<Rightarrow> Inr (deallocate_and_error ENOMEM r m g (peer (mqes s mqe)) (msg_xidseq (frame (mqes s mqe))) s3)) = Inr s'"
    using assms False r m g by (simp add: create_thread_def Let_def s0_def)
  show ?thesis
  proof (cases "r \<noteq> None \<and> m \<noteq> None \<and> g \<noteq> None")
    case True
    then show ?thesis using run i3 send_start_inv by auto
  next
    case False
    then have "s' = deallocate_and_error ENOMEM r m g (peer (mqes s mqe)) (msg_xidseq (frame (mqes s mqe))) s3"
      using run by (auto split: option.splits)
    then show ?thesis using deallocate_and_error_inv [OF i3] by simp
  qed
qed

lemma mgr_inv_keep:
  "mgr_inv_held H s \<Longrightarrow> gview s' = gview s \<Longrightarrow> lview s' = lview s \<Longrightarrow> rview s' = rview s \<Longrightarrow> mgr_inv_held H s'"
  using mgr_inv_views by blast

lemma detach_thread_inv:
  assumes "mgr_inv_held {#} s"
  shows "mgr_inv_held {#} (detach_thread m th s)"
proof (cases "dthread_dt2gtab th s")
  case None
  then show ?thesis using assms by (auto simp: detach_thread_def intro: mgr_inv_keep)
next
  case (Some g)
  define s0 where "s0 = upd_gtab g (\<lambda>gt. gt\<lparr>gt_detached := True\<rparr>) s"
  obtain rqe s1 where j: "joinwait_search th True s0 = (rqe, s1)" by fastforce
  define s2 where "s2 = snd (send_or_unalloc m (recycle_dtmsg_mqe m (Dtmsg_detached 0)
      (msg_xidseq (frame (mqes s m))) s1))"
  have "mgr_inv_held {#} s0" using assms by (rule mgr_inv_keep) (simp_all add: s0_def gview_upd_gtab)
  then have "mgr_inv_held (case rqe of None \<Rightarrow> {#} | Some r \<Rightarrow> {#r#}) s1"
    using joinwait_search_inv [OF _ j] by fastforce
  then have i2: "mgr_inv_held (case rqe of None \<Rightarrow> {#} | Some r \<Rightarrow> {#r#}) s2"
    by (rule mgr_inv_keep) (simp_all add: s2_def)
  have "detach_thread m th s = (case rqe of None \<Rightarrow> s2
     | Some r \<Rightarrow> joinwait_end_release r (upd_req r (\<lambda>q. q\<lparr>reqerror := EINVAL\<rparr>) s2))"
    using Some j by (cases rqe) (simp_all add: detach_thread_def Let_def s0_def s2_def)
  then show ?thesis
    using i2 joinwait_end_release_inv mgr_inv_held_upd_req by (auto split: option.splits)
qed

lemma join_thread_inv:
  assumes "mgr_inv_held {#} s"
  shows "mgr_inv_held {#} (join_thread m th s)"
proof -
  have same: "snd (joinwait_search th False s) = s" by (simp add: joinwait_search_def split: option.splits)
  have j: "mgr_inv_held {#} (send_joined m e r s1)" if "mgr_inv_held {#} s1" for e r s1
    using that by (rule mgr_inv_keep) simp_all
  have c3: "mgr_inv_held {#} (recv_release m (add_pending r (upd_req r f s1)))"
    if a: "dtq_req_alloc s = (Some r, s1)" and f: "\<And>q. reqstate (f q) = reqstate q" "\<And>q. reqop (f q) = DTOP_JOINWAIT"
    for r s1 f
  proof -
    have i1: "mgr_inv_held {#r#} s1" using mgr_inv_req_alloc [OF assms a] by simp
    then have i2: "mgr_inv_held {#r#} (upd_req r f s1)" using mgr_inv_held_upd_req f(1) by blast
    obtain k where "r = Int_req k" using held_not_pending(2) [of "{#r#}" s1 r] i1 by (auto simp: mgr_inv_held_def)
    then have "pend_ok (upd_req r f s1) r" using f(2) by (simp add: pend_ok_def)
    then have "mgr_inv_held {#} (add_pending r (upd_req r f s1))" using mgr_inv_add_pending [OF i2] by simp
    then show ?thesis by (rule mgr_inv_keep) simp_all
  qed
  have n: "mgr_inv_held {#} s1" if "dtq_req_alloc s = (None, s1)" for s1
    using mgr_inv_req_alloc [OF assms that] by simp
  show ?thesis
  proof (cases "dthread_dt2gtab th s")
    case None
    then show ?thesis using j [OF assms] by (simp add: join_thread_def)
  next
    case (Some g)
    then have g: "g < nmaxthread (send_joined m e r s)" for e r
      by (auto simp: dthread_dt2gtab_def Let_def send_joined_def mgr_ops split: if_splits)
    obtain prev where p: "joinwait_search th False s = (prev, s)" using same by (cases "joinwait_search th False s") auto
    obtain ro s1 where r: "(if prev \<noteq> None then (None, s) else dtq_req_alloc s) = (ro, s1)" by fastforce
    show ?thesis
    proof (cases "gt_detached (gtab s ! g) \<or> \<not> LT_NEED_FINALSTATE (gt_terminated (gtab s ! g))")
      case True
      then show ?thesis using Some g j [OF assms] mgr_inv_gtab_free by (auto simp: join_thread_def Let_def)
    next
      case False
      show ?thesis
      proof (cases ro)
        case None
        then have "mgr_inv_held {#} s1" using r n assms by (auto split: if_splits)
        then show ?thesis using False Some p r None j by (simp add: join_thread_def Let_def)
      next
        case (Some q)
        then have "dtq_req_alloc s = (Some q, s1)" using r by (auto split: if_splits)
        then show ?thesis using False \<open>dthread_dt2gtab th s = Some g\<close> p r Some c3 by (simp add: join_thread_def Let_def)
      qed
    qed
  qed
qed

lemma terminated_thread_inv:
  assumes "mgr_inv_held {#} s" "unat (dt_index th) < nmaxthread s"
  shows "mgr_inv_held {#} (terminated_thread th f s)"
proof -
  let ?g = "unat (dt_index th)"
  define s0 where "s0 = upd_gtab ?g (\<lambda>gt. gt\<lparr>gt_has_ltab := False\<rparr>)
     (upd_mgr (\<lambda>m. m\<lparr>threads_running := threads_running m - 1\<rparr>)
       (upd_gtab ?g (\<lambda>gt. gt\<lparr>gt_terminated := f\<rparr>) s))"
  obtain rqe s1 where j: "joinwait_search th True s0 = (rqe, s1)" by fastforce
  define s2 where "s2 = (case rqe of None \<Rightarrow> s1 | Some r \<Rightarrow>
     joinwait_end_release r (if gt_detached (gtab s1 ! ?g) then upd_req r (\<lambda>q. q\<lparr>reqerror := EINVAL\<rparr>) s1 else s1))"
  define s3 where "s3 = (if gt_detached (gtab s2 ! ?g) then detached_ret_cleanup ?g s2 else s2)"
  have run: "terminated_thread th f s = (if gt_detached (gtab s3 ! ?g) \<or> rqe \<noteq> None then gtab_free ?g s3 else s3)"
    unfolding terminated_thread_def Let_def s0_def [symmetric] j prod.case s2_def [symmetric] s3_def [symmetric]
    by (rule refl)
  have "gview s0 = gview s" by (simp add: s0_def gview_upd_gtab) (simp add: gview_def mgr_ops map_update_same)
  then have "mgr_inv_held {#} s0" using assms(1)
    by (rule_tac mgr_inv_keep) (simp_all add: s0_def lview_def mgr_ops rview_def)
  then have "mgr_inv_held (case rqe of None \<Rightarrow> {#} | Some r \<Rightarrow> {#r#}) s1"
    using joinwait_search_inv [OF _ j] by fastforce
  then have i2: "mgr_inv_held {#} s2"
    using joinwait_end_release_inv mgr_inv_held_upd_req by (auto simp: s2_def split: option.splits)
  then have i3: "mgr_inv_held {#} s3" by (rule mgr_inv_keep) (simp_all add: s3_def)
  have "gview s1 = gview s0" using j view_joinwait_search(1) [of th True s0] by simp
  then have "gview s3 = gview s" using \<open>gview s0 = gview s\<close> by (auto simp: s3_def s2_def split: option.splits)
  then have "nmaxthread s3 = nmaxthread s" by (simp add: gview_def)
  then show ?thesis using run i3 mgr_inv_gtab_free assms(2) by simp
qed

lemma process_started_inv:
  assumes "mgr_inv_held {#} s"
  shows "mgr_inv_held {#} (process_started m e s)"
proof -
  obtain ro s1 where f: "find_pending_msgreq m DTOP_START (sizeof_dtmsg (Dtmsg_started e)) s = (ro, s1)" by fastforce
  show ?thesis
  proof (cases ro)
    case None
    then have "s1 = s" using f by (auto simp: find_pending_msgreq_def Let_def split: if_splits option.splits)
    then have "process_started m e s = recv_release m s" using None f by (simp add: process_started_def)
    then show ?thesis using assms by (auto intro: mgr_inv_keep)
  next
    case (Some r)
    then have r: "r \<in> set (rpending (mgrstate s))" "reqop (get_req s r) = DTOP_START" "s1 = rm_pending r s"
      using f by (auto simp: find_pending_msgreq_def find_pending_req_def Let_def
          split: if_splits option.splits dest: find_Some_mem)
    note pk = pend_ok_of_inv [OF assms r(1)]
    have int: "is_int r" using pend_is_int [OF pk] r(2) by simp
    have i1: "mgr_inv_held {#r#} s1" using mgr_inv_rm_pending [OF assms r(1)] r(3) int by simp
    have same: "get_req s1 r = get_req s r" by (cases r) (simp_all add: r(3) mgr_ops)
    define ci where "ci = req_creinfo (get_req s r)"
    have bound: "unat (dt_index (c_thread ci)) < nmaxthread s"
      using pk r(2) int by (cases r) (simp_all add: pend_ok_def ci_def)
    define s2 where "s2 = upd_mqe m (\<lambda>e. e\<lparr>peer := c_peer ci\<rparr>) (recycle_dtmsg_mqe m (Dtmsg_created e
        (if e = 0 then c_thread ci else \<lparr>dt_index = junk_index s1, dt_seq = junk_seq s1\<rparr>)) (c_xidseq ci)
        (upd_mgr (\<lambda>m. m\<lparr>threads_starting := threads_starting m - 1\<rparr>) s1))"
    define s3 where "s3 = (if e = 0 then upd_mgr (\<lambda>m. m\<lparr>threads_running := threads_running m + 1\<rparr>) s2
        else gtab_free (unat (dt_index (c_thread ci))) s2)"
    have v: "gview (upd_mgr f s) = gview s" "lview (upd_mgr f s) = lview s"
      if "f = (\<lambda>m. m\<lparr>threads_starting := threads_starting m - 1\<rparr>) \<or>
          f = (\<lambda>m. m\<lparr>threads_running := threads_running m + 1\<rparr>)" for f s
      using that by (auto simp: gview_def lview_def mgr_ops)
    have i2: "mgr_inv_held {#r#} s2" using i1 by (rule mgr_inv_keep) (simp_all add: s2_def v)
    have "nmaxthread s2 = nmaxthread s" by (simp add: s2_def r(3) mgr_ops)
    then have i3: "mgr_inv_held {#r#} s3"
      using i2 bound mgr_inv_gtab_free [OF i2] by (auto simp: s3_def v intro: mgr_inv_keep [OF i2])
    have "junk_index (upd_mgr f s1) = junk_index s1" "junk_seq (upd_mgr f s1) = junk_seq s1" for f
      by (simp_all add: mgr_ops)
    then have run: "process_started m e s = dtq_req_release r False (snd (send_or_unalloc m s3))"
      using f Some by (cases "e = 0") (simp_all add: process_started_def Let_def same ci_def s3_def s2_def)
    have "mgr_inv_held {#r#} (snd (send_or_unalloc m s3))" using i3 by (rule mgr_inv_keep) simp_all
    then have "mgr_inv_held {#} (dtq_req_release r False (snd (send_or_unalloc m s3)))" by (rule mgr_inv_release)
    then show ?thesis using run by simp
  qed
qed

subsection \<open>Handlers of all ranks\<close>

lemma process_reply_inv:
  assumes "mgr_inv_held {#} s" "opn \<in> {DTOP_CREATE, DTOP_DETACH, DTOP_CANCEL, DTOP_JOIN}"
    and "\<And>q. reqstate (f q) = reqstate q"
  shows "mgr_inv_held {#} (process_reply m opn f s)"
proof -
  obtain ro s1 where p: "find_pending_msgreq m opn (sizeof_dtmsg (msg_body (frame (mqes s m)))) s = (ro, s1)"
    by fastforce
  show ?thesis
  proof (cases ro)
    case None
    then have "s1 = s" using p by (auto simp: find_pending_msgreq_def Let_def split: if_splits option.splits)
    then have "process_reply m opn f s = recv_release m s" using None p by (simp add: process_reply_def)
    then show ?thesis using assms(1) by (auto intro: mgr_inv_keep)
  next
    case (Some r)
    then have r: "r \<in> set (rpending (mgrstate s))" "reqop (get_req s r) = opn" "s1 = rm_pending r s"
      using p by (auto simp: find_pending_msgreq_def find_pending_req_def Let_def
          split: if_splits option.splits dest: find_Some_mem)
    obtain i where i: "r = Ltab_req i" "i < length (ltab s)"
      using pend_is_ltab [OF pend_ok_of_inv [OF assms(1) r(1)]] r(2) assms(2) by blast
    have i1: "mgr_inv_held {#} s1" using mgr_inv_rm_pending [OF assms(1) r(1)] r(3) i by simp
    have np: "Ltab_req i \<notin> set (rpending (mgrstate s1))"
      using req_inv_rm_pending(2) [of "{#}" s r] assms(1) r i by (simp add: mgr_inv_held_def)
    have "req_inv {#} (upd_req r f s1)"
      using i1 np i(1) assms(3) by (intro req_inv_upd_req) (auto simp: mgr_inv_held_def)
    then have "req_inv {#} (dtq_req_release r True (upd_req r f s1))"
      using i np r(3) by (simp only: i(1)) (rule req_inv_release_ltab, simp_all add: mgr_ops)
    then have "mgr_inv_held {#} (dtq_req_release r True (upd_req r f s1))"
      using i1 by (rule_tac mgr_inv_views_tables [of _ s1]) simp_all
    then have "mgr_inv_held {#} (recv_release m (dtq_req_release r True (upd_req r f s1)))"
      by (rule mgr_inv_keep) simp_all
    then show ?thesis using p Some by (simp add: process_reply_def)
  qed
qed

lemma mgr_inv_ltab_alloc:
  assumes "mgr_inv_held H s" "ltab_alloc th s = Inr (lo, s')"
  shows "mgr_inv_held H s' \<and> nmaxthread s' = nmaxthread s \<and> (\<forall>l. lo = Some l \<longrightarrow> l < nmaxthread s)"
proof -
  have ok: "ltab_ok s" using assms by (simp add: mgr_inv_held_def tables_ok_def)
  show ?thesis
  proof (cases "ltab_inuse s = {..<nmaxthread s}")
    case True
    then show ?thesis using lslot.alloc_full [of s th] assms ok by auto
  next
    case False
    then obtain p s1 where p: "ltab_alloc th s = Inr (Some p, s1)" "p < nmaxthread s" "nmaxthread s1 = nmaxthread s"
      "ltab_ok s1" using ltab_alloc_slot [OF ok, of th] by auto
    then have s': "s' = s1" "lo = Some p" using assms(2) by auto
    have v: "gview s' = gview s" "rview s' = rview s" using assms(2)
      by (auto simp: ltab_alloc_def Let_def split: if_splits option.splits)
        (simp_all add: gview_def rview_def mgr_ops map_update_same)
    then have "gtab_ok s' = gtab_ok s" "req_inv H s' = req_inv H s" using gtab_ok_gview(1) req_inv_rview by blast+
    then show ?thesis using p s' assms(1) gview_rank [OF v(1)] by (simp add: mgr_inv_held_def tables_ok_def)
  qed
qed

lemma start_thread_inv:
  assumes "mgr_inv_held {#} s" "start_thread mqe th a s = Inr s'"
  shows "mgr_inv_held {#} s'"
proof -
  obtain mo s1 where al: "mqe_alloc s = (mo, s1)" by fastforce
  have i1: "mgr_inv_held {#} s1" using assms(1) view_mqe_alloc [OF al] rview_mqe_alloc [OF al] by (blast intro: mgr_inv_keep)
  show ?thesis
  proof (cases mo)
    case None
    then show ?thesis using assms(2) al i1 by (simp add: start_thread_def)
  next
    case (Some m)
    define send where "send = send_started m (msg_xidseq (frame (mqes s1 mqe)))"
    have keep: "mgr_inv_held {#} (send err t)" if "mgr_inv_held {#} t" for err t
      using that by (rule mgr_inv_keep) (simp_all add: send_def send_started_def)
    from start_thread_cases [OF assms(2) al [unfolded Some], folded send_def] show ?thesis
    proof (elim disjE exE conjE)
      assume "s' = send EINVAL s1"
      then show ?thesis using keep i1 by simp
    next
      fix l s2
      assume l: "ltab_alloc th s1 = Inr (Some l, s2)"
        and s': "s' = send (fst (pthread_create_for l s2)) (launched l s2)"
      have i2: "mgr_inv_held {#} s2" "l < nmaxthread s2" using mgr_inv_ltab_alloc [OF i1 l] by auto
      have i3: "mgr_inv_held {#} (snd (pthread_create_for l s2))" using i2(1) by (rule mgr_inv_keep) simp_all
      have "nmaxthread (snd (pthread_create_for l s2)) = nmaxthread s2"
        using view_pthread_create_for(1) [of l s2] by (simp add: gview_def)
      then show ?thesis unfolding s' using keep i3 mgr_inv_ltab_free [OF i3] i2(2) by (simp add: launched_def)
    qed
  qed
qed

lemma cancel_thread_inv:
  assumes "mgr_inv_held {#} s"
  shows "mgr_inv_held {#} (cancel_thread m th s)"
proof -
  define r where "r = (case dthread_dt2gtab th s of
      None \<Rightarrow> (ESRCH, s)
    | Some g \<Rightarrow>
        if gt_rank (gtab s ! g) \<noteq> mpi_rank s then (EINVAL, s)
        else if gt_has_ltab (gtab s ! g) \<and> gt_ltab_idx (gtab s ! g) < nmaxthread s \<and>
                lt_seq (ltab s ! gt_ltab_idx (gtab s ! g)) = gt_seq (gtab s ! g)
        then (0, cancel_pthread (gt_ltab_idx (gtab s ! g)) s)
        else (0, s))"
  have "gview (snd r) = gview s" "lview (snd r) = lview s" "rview (snd r) = rview s"
    by (simp_all add: r_def split: option.splits)
  then show ?thesis unfolding cancel_thread_def Let_def r_def [symmetric] case_prod_unfold
    by (intro mgr_inv_keep [OF assms]) simp_all
qed

lemma process_terminated_inv:
  assumes "mgr_inv_held {#} s"
  shows "mgr_inv_held {#} (process_terminated m th f s)"
proof -
  have "mgr_inv_held {#} (recv_release m t)" if "mgr_inv_held {#} t" for t
    using that by (rule mgr_inv_keep) simp_all
  then show ?thesis using assms terminated_thread_inv [OF assms] by (auto simp: process_terminated_def)
qed

lemma process_mqe_inv:
  assumes "mgr_inv_held {#} s" "process_mqe m s = Inr s'"
  shows "mgr_inv_held {#} s'"
proof -
  have rel: "mgr_inv_held {#} (recv_release m t)" if "mgr_inv_held {#} t" for t
    using that by (rule mgr_inv_keep) simp_all
  have bc: "mgr_inv_held {#} (broadcast_shutdown s)" using assms(1) by (rule mgr_inv_keep) simp_all
  have rs: "reqstate (created_result e n q) = reqstate q" "reqstate (joined_result e j q) = reqstate q" for e n j q
    by (simp_all add: created_result_def joined_result_def split: option.splits)
  note reply = process_reply_inv [OF assms(1)]
  show ?thesis
    using assms rel create_thread_inv [OF assms(1)] start_thread_inv [OF assms(1)] rel [OF bc]
      process_started_inv detach_thread_inv cancel_thread_inv join_thread_inv process_terminated_inv
      reply [of DTOP_CREATE] reply [of DTOP_DETACH] reply [of DTOP_CANCEL] reply [of DTOP_JOIN]
    by (auto simp: process_mqe_def Let_def rs split: if_splits dtmsg_body.splits)
qed

lemma mgr_inv_release_ltab:
  assumes "mgr_inv_held H s" "Ltab_req i \<notin> set (rpending (mgrstate s))" "i < length (ltab s)"
  shows "mgr_inv_held H (dtq_req_release (Ltab_req i) n s)"
  using assms req_inv_release_ltab [of H s i n]
  by (intro mgr_inv_views_tables [OF _ _ assms(1)]) (simp_all add: mgr_inv_held_def)

lemma mgr_inv_upd_req:
  assumes "mgr_inv_held H s" "r \<notin> set (rpending (mgrstate s))"
    and "\<And>q. (reqstate (f q) = DTREQ_INTERNAL) = (reqstate q = DTREQ_INTERNAL)"
  shows "mgr_inv_held H (upd_req r f s)"
  using assms req_inv_upd_req [of H s r f]
  by (intro mgr_inv_views_tables [OF _ _ assms(1)]) (simp_all add: mgr_inv_held_def)

lemma forward_req_inv:
  assumes "mgr_inv_held {#} s" "Ltab_req i \<notin> set (rpending (mgrstate s))" "i < length (ltab s)"
    and "reqop (get_req s (Ltab_req i)) \<in> {DTOP_CREATE, DTOP_DETACH, DTOP_CANCEL, DTOP_JOIN}"
    and "reqstate (get_req s (Ltab_req i)) = DTREQ_BUSY" and "forward_req (Ltab_req i) s = Inr s'"
  shows "mgr_inv_held {#} s'"
proof -
  let ?r = "Ltab_req i"
  define s0 where "s0 = upd_req ?r (\<lambda>q. q\<lparr>req_mqe := None\<rparr>) s"
  obtain seq s1 where g: "get_free_seq (reqop (get_req s0 ?r)) s0 = Some (seq, s1)"
    and m: "req_mqe (get_req s ?r) \<noteq> None"
    using assms(6) by (auto simp: forward_req_def Let_def s0_def split: option.splits)
  obtain y where y: "s1 = s0\<lparr>seqsrc := y\<rparr>" using get_free_seq_state [OF g] by auto
  obtain e where e: "req_mqe (get_req s ?r) = Some e" using m by auto
  define s2 where "s2 = upd_req ?r (\<lambda>q. q\<lparr>xidseq := seq\<rparr>) s1"
  define s3 where "s3 = snd (send_or_unalloc e (upd_mqe e (\<lambda>e. e\<lparr>frame := (frame e)\<lparr>msg_xidseq := seq\<rparr>\<rparr>) s2))"
  have i0: "mgr_inv_held {#} s0" unfolding s0_def using assms(1,2) by (rule mgr_inv_upd_req) simp
  have i1: "mgr_inv_held {#} s1" using i0 by (rule mgr_inv_keep) (simp_all add: y)
  have i2: "mgr_inv_held {#} s2"
    unfolding s2_def using i1 assms(2) by (intro mgr_inv_upd_req) (simp_all add: y s0_def)
  have i3: "mgr_inv_held {#} s3" using i2 by (rule mgr_inv_keep) (simp_all add: s3_def)
  have l3: "ltab s3 = ltab s2" "rpending (mgrstate s3) = rpending (mgrstate s)" "length (ltab s3) = length (ltab s)"
    by (simp_all add: s3_def s2_def y s0_def mgr_ops)
  have g3: "reqop (lt_req (ltab s3 ! i)) = reqop (lt_req (ltab s ! i))"
      "reqstate (lt_req (ltab s3 ! i)) = reqstate (lt_req (ltab s ! i))"
    using assms(3) by (simp_all add: l3 s2_def y s0_def)
  have "mgr_inv_held {#} (add_pending ?r s3)"
    using i3 assms l3 g3
    by (intro mgr_inv_views_tables [OF _ _ i3]) (auto simp: mgr_inv_held_def pend_ok_def intro!: req_inv_add_pending_ltab)
  moreover have "mgr_inv_held {#} (dtq_req_release ?r True (upd_req ?r (\<lambda>q. q\<lparr>reqerror := EIO\<rparr>) s3))"
    using i3 assms(2,3) l3 by (intro mgr_inv_release_ltab mgr_inv_upd_req) auto
  ultimately show ?thesis
    using assms(6) g e
    by (auto simp: forward_req_def Let_def s0_def s2_def s3_def case_prod_unfold split: if_splits)
qed

lemma retclean_req_inv:
  assumes "mgr_inv_held {#} s" "Ltab_req i \<notin> set (rpending (mgrstate s))" "i < nmaxthread s"
  shows "mgr_inv_held {#} (retclean_req (Ltab_req i) i s)"
proof -
  have len: "length (ltab s) = nmaxthread s" using assms(1) by (simp add: mgr_inv_held_def tables_ok_def ltab_ok_def)
  define s1 where "s1 = (case mqe_alloc s of
      (None, s) \<Rightarrow> s
    | (Some m, s) \<Rightarrow> ltab_free i (snd (send_or_unalloc m
        (write_dtmsg m (Dtmsg_terminated \<lparr>dt_index = lt_gtab_idx (ltab s ! i), dt_seq = lt_seq (ltab s ! i)\<rparr>
           (lt_pth_state (ltab s ! i))) 0 0
          (if gt_has_ltab (gtab s ! unat (lt_gtab_idx (ltab s ! i))) \<and>
              gt_ltab_idx (gtab s ! unat (lt_gtab_idx (ltab s ! i))) = i \<and>
              gt_seq (gtab s ! unat (lt_gtab_idx (ltab s ! i))) = lt_seq (ltab s ! i)
           then upd_gtab (unat (lt_gtab_idx (ltab s ! i))) (\<lambda>gt. gt\<lparr>gt_has_ltab := False\<rparr>) s else s)))))"
  obtain mo s0 where a: "mqe_alloc s = (mo, s0)" by fastforce
  have i0: "mgr_inv_held {#} s0" using assms(1) view_mqe_alloc [OF a] rview_mqe_alloc [OF a] by (blast intro: mgr_inv_keep)
  have f: "mgr_inv_held {#} (ltab_free i t)" if "gview t = gview s0" "lview t = lview s0" "rview t = rview s0" for t
  proof -
    have "mgr_inv_held {#} t" using i0 that by (rule mgr_inv_keep)
    moreover have "nmaxthread t = nmaxthread s"
      using that(1) view_mqe_alloc [OF a] by (simp add: gview_def)
    ultimately show ?thesis using mgr_inv_ltab_free assms(3) by simp
  qed
  have i1: "mgr_inv_held {#} s1"
    using a i0 by (cases mo) (auto simp: s1_def gview_upd_gtab intro!: f)
  have "rview s1 = rview s" using rview_mqe_alloc [OF a] a by (cases mo) (simp_all add: s1_def)
  then have "rpending (mgrstate s1) = rpending (mgrstate s)" "length (ltab s1) = length (ltab s)"
    using rview_pending rview_get_req(1) by blast+
  then have "mgr_inv_held {#} (dtq_req_release (Ltab_req i) False s1)"
    using i1 assms(2,3) len by (intro mgr_inv_release_ltab) simp_all
  then show ?thesis unfolding retclean_req_def Let_def s1_def .
qed

lemma process_req_inv:
  assumes "mgr_inv_held {#} s" "Ltab_req i \<notin> set (rpending (mgrstate s))" "i < nmaxthread s"
    and "process_req (Ltab_req i) s = Inr s'"
  shows "mgr_inv_held {#} s'"
proof -
  have len: "length (ltab s) = nmaxthread s" using assms(1) by (simp add: mgr_inv_held_def tables_ok_def ltab_ok_def)
  have bc: "mgr_inv_held {#} (broadcast_shutdown s)" using assms(1) by (rule mgr_inv_keep) simp_all
  have vb: "rpending (mgrstate (broadcast_shutdown s)) = rpending (mgrstate s)"
      "length (ltab (broadcast_shutdown s)) = length (ltab s)"
    using rview_pending rview_get_req(1) rview_shutdown by blast+
  have rel: "mgr_inv_held {#} (dtq_req_release (Ltab_req i) n s)" for n
    using assms(1-3) len by (intro mgr_inv_release_ltab) simp_all
  have app0: "mgr_inv_held {#} (app0_ret_req (Ltab_req i) s)"
    using rel bc vb assms(2,3) len unfolding app0_ret_req_def by (auto intro: mgr_inv_release_ltab)
  show ?thesis
    using assms rel app0 forward_req_inv [OF assms(1,2), of s'] retclean_req_inv [OF assms(1,2,3)] len
    by (auto simp: process_req_def Let_def split: if_splits dtop.splits)
qed

subsection \<open>Properties\<close>

text \<open>
  C9. Messages keep the manager's invariant: whatever message arrives, the counters of
  both thread tables stay exact, every internal request stays in exactly one place, and
  every pending request stays of the kind its reply expects.
\<close>

theorem process_mqe_keeps_inv:
  assumes "mgr_inv s" and "process_mqe m s = Inr s'"
  shows "mgr_inv s'"
  using process_mqe_inv [of s m s'] assms by (simp add: mgr_inv_def mgr_inv_held_def)

text \<open>
  C23. Requests of application threads keep the manager's invariant, for a request of a
  slot of this rank that is not already waiting for a reply.
\<close>

theorem process_req_keeps_inv:
  assumes "mgr_inv s" and "Ltab_req i \<notin> set (rpending (mgrstate s))" and "i < nmaxthread s"
    and "process_req (Ltab_req i) s = Inr s'"
  shows "mgr_inv s'"
  using process_req_inv [of s i s'] assms by (simp add: mgr_inv_def mgr_inv_held_def)

lemma dtrs_init_inv:
  assumes "0 < n"
  shows "mgr_inv (dtrs_init rank w ds n env pths jk)"
proof -
  have "gtab_inuse (dtrs_init rank w ds n env pths jk) = {}" "ltab_inuse (dtrs_init rank w ds n env pths jk) = {}"
    by (auto simp: dtrs_init_def gtab_inuse_def ltab_inuse_def zero_gtab_def zero_ltab_def)
  then show ?thesis using assms
    by (simp add: mgr_inv_def tables_ok_def gtab_ok_def ltab_ok_def req_inv_def)
      (simp add: dtrs_init_def zero_mgrstate_def dtq_init_def zero_ltab_def)
qed

lemma startapp_views:
  assumes "0 < n"
  shows "\<exists>s1. mgr_startapp arg (dtrs_init 0 w ds n env pths jk) = Inr (pthread_create_for 0 s1) \<and> mgr_inv s1 \<and>
    rview s1 = rview (dtrs_init 0 w ds n env pths jk) \<and> ltab_inuse s1 = {0} \<and> dtq s1 = dtq_init env \<and> mpi_rank s1 = 0"
proof -
  let ?s = "dtrs_init 0 w ds n env pths jk"
  obtain s1 where s1: "mgr_startapp arg ?s = Inr (pthread_create_for 0 s1)"
    and g: "gtab_inuse s1 = {0}" and l: "ltab_inuse s1 = {0}"
    and f: "length (gtab s1) = n" "length (ltab s1) = n" "nmaxthread s1 = n" "last_slot (mgrstate s1) = 0"
      "ltab_lastslot (mgrstate s1) = 0" "threads_alloc (mgrstate s1) = 1" "mg_ltab_alloc (mgrstate s1) = 1"
    and v: "rview s1 = rview ?s" "dtq s1 = dtq_init env" "mpi_rank s1 = 0"
  proof -
    define s1 where "s1 = upd_ltab 0 (\<lambda>lt. lt\<lparr>lt_gtab_idx := 0, lt_seq := seqsrc ?s, lt_pth_state := LT_RUNNING\<rparr>)
       (upd_gtab 0 (\<lambda>gt. gt\<lparr>gt_allocated := True, gt_rank := 0, gt_seq := seqsrc ?s, gt_disp_idx := 0,
           gt_arg := \<lparr>dt_argret_type = DTHREAD_INLINE, dt_inlinelen = 24, dt_u = Dt_inline arg\<rparr>,
           gt_ret := (gt_ret gt)\<lparr>dt_argret_type := DTHREAD_NODATA\<rparr>, gt_detached := False,
           gt_has_ltab := True, gt_ltab_idx := 0\<rparr>)
         (?s\<lparr>mgrstate := zero_mgrstate\<lparr>mg_ltab_alloc := 1, ltab_lastslot := 0, threads_alloc := 1,
            threads_running := 1, last_slot := 0, next_rank := 1 mod w\<rparr>, seqsrc := next_seq ?s (seqsrc ?s)\<rparr>))"
    show ?thesis
    proof (rule that [of s1])
      show "mgr_startapp arg ?s = Inr (pthread_create_for 0 s1)"
        by (simp add: mgr_startapp_def get_free_seq_NONE seq_step_def s1_def upd_mgr_def dtrs_init_def
            zero_mgrstate_def next_seq_def Let_def)
      show "gtab_inuse s1 = {0}" "ltab_inuse s1 = {0}" using assms
        by (auto simp: s1_def mgr_ops gtab_inuse_def ltab_inuse_def dtrs_init_def zero_gtab_def zero_ltab_def
            nth_list_update_if split: if_splits)
      show "rview s1 = rview ?s"
        by (simp add: s1_def) (simp add: rview_def dtrs_init_def zero_mgrstate_def)
    qed (simp_all add: s1_def mgr_ops dtrs_init_def zero_mgrstate_def)
  qed
  have "req_inv {#} s1" using req_inv_rview [OF v(1)] dtrs_init_inv [OF assms] by (auto simp: mgr_inv_def)
  then have "mgr_inv s1" using g l f assms by (simp add: mgr_inv_def tables_ok_def gtab_ok_def ltab_ok_def)
  then show ?thesis using s1 v l by blast
qed

text \<open>
  The manager starts in its invariant: on rank 0 after \<^verbatim>\<open>mgr_startapp\<close> (the main
  application thread in slot 0 of both tables, on whatever result of \<^verbatim>\<open>pthread_create\<close>),
  on the other ranks in the state \<^verbatim>\<open>dthread_run\<close> sets up.
\<close>

theorem manager_starts_in_inv:
  assumes "0 < maxthreads"
  shows "mgr_inv (dtrs_init rank w ds maxthreads env pths jk) \<and>
    (\<exists>rv s. mgr_startapp arg (dtrs_init 0 w ds maxthreads env pths jk) = Inr (rv, s) \<and> mgr_inv s)"
proof -
  obtain s1 where s1: "mgr_startapp arg (dtrs_init 0 w ds maxthreads env pths jk) = Inr (pthread_create_for 0 s1)"
    "mgr_inv s1" using startapp_views [OF assms] by blast
  then have "mgr_inv (snd (pthread_create_for 0 s1))"
    using mgr_inv_keep [of "{#}" s1 "snd (pthread_create_for 0 s1)"] by (simp add: mgr_inv_def mgr_inv_held_def)
  then show ?thesis using s1 dtrs_init_inv [OF assms] by (metis prod.collapse)
qed

subsection \<open>Concrete states\<close>

definition ex_join :: dtrs where
  "ex_join = rank_ex\<lparr>mqes := (\<lambda>_. \<lparr>frame = \<lparr>msg_xidseq = 7, msg_body = Dtmsg_join zero_thread\<rparr>,
     flen = 16, peer = 2\<rparr>)\<rparr>"

definition ex_retclean :: dtrs where
  "ex_retclean = upd_req (Ltab_req 0) (\<lambda>q. q\<lparr>reqstate := DTREQ_BUSY, reqop := DTOP_RETCLEAN\<rparr>) rank_ex"

lemma rank_ex_inv: "mgr_inv rank_ex"
  unfolding rank_ex_def by (rule dtrs_init_inv) simp

lemma ex_join_inv: "mgr_inv ex_join"
proof -
  have "gview ex_join = gview rank_ex" "lview ex_join = lview rank_ex" "rview ex_join = rview rank_ex"
    by (simp_all add: ex_join_def gview_def lview_def rview_def)
  then show ?thesis
    using rank_ex_inv mgr_inv_keep [of "{#}" rank_ex ex_join] by (simp add: mgr_inv_def mgr_inv_held_def)
qed

lemma ex_retclean_inv: "mgr_inv ex_retclean"
proof -
  have "req_inv {#} ex_retclean"
    by (auto simp: ex_retclean_def rank_ex_def dtrs_init_def req_inv_def zero_mgrstate_def dtq_init_def zero_ltab_def
        nth_list_update_if new_internal_req_def less_Suc_eq numeral_3_eq_3)
  moreover have "gview ex_retclean = gview rank_ex" "lview ex_retclean = lview rank_ex"
    unfolding ex_retclean_def by (rule view_upd_req)+
  ultimately show ?thesis
    using rank_ex_inv mgr_inv_views_tables [of ex_retclean rank_ex "{#}" "{#}"]
    by (simp add: mgr_inv_def mgr_inv_held_def)
qed

theorem process_mqe_keeps_inv_witness: "\<exists>s'. process_mqe 0 ex_join = Inr s' \<and> mgr_inv s'"
proof -
  have "process_mqe 0 ex_join = Inr (join_thread 0 zero_thread ex_join)"
    by (simp add: process_mqe_def ex_join_def flen_lt_def sizeof_dtmsg_def Let_def rank_ex_def dtrs_init_def)
  then show ?thesis using process_mqe_keeps_inv [OF ex_join_inv, of 0] by blast
qed

theorem process_req_keeps_inv_witness: "\<exists>s'. process_req (Ltab_req 0) ex_retclean = Inr s' \<and> mgr_inv s'"
proof -
  have "process_req (Ltab_req 0) ex_retclean = Inr (retclean_req (Ltab_req 0) 0 ex_retclean)"
    by (simp add: process_req_def ex_retclean_def Let_def rank_ex_def dtrs_init_def zero_ltab_def upt_rec)
  then show ?thesis using process_req_keeps_inv [OF ex_retclean_inv, of 0]
    by (simp add: ex_retclean_def) (simp add: rank_ex_def dtrs_init_def zero_mgrstate_def)
qed

theorem manager_starts_in_inv_witness:
  "mgr_inv (dtrs_init 1 4 [] 2 [] [] (zero_argret, 0, 0)) \<and>
   (\<exists>rv s. mgr_startapp [] (dtrs_init 0 4 [] 2 [] [] (zero_argret, 0, 0)) = Inr (rv, s) \<and> mgr_inv s)"
  by (rule manager_starts_in_inv) simp

end
