(* ===== verification/Dt_Slots.thy ===== *)
theory Dt_Slots
  imports Dt_Invariant
begin

text \<open>
  What the manager does to the slots of the application threads of its rank.
  \<open>slots s\<close> is all that the state has of them: the requests in the slots, which of them
  are queued or pending, and which slots are in use.  Only three handlers touch it: a
  START takes a slot, a reply completes the request it is for, and a request of a thread
  changes the slot of that thread.
\<close>

subsection \<open>The view and its frame\<close>

definition slots :: "dtrs \<Rightarrow> dthread_request_t list \<times> reqptr list \<times> reqptr list \<times> (bool list \<times> nat \<times> nat \<times> int)" where
  "slots s = (map lt_req (ltab s), filter (\<lambda>r. \<not> is_int r) (rpending (mgrstate s)), mgrreqq (dtq s), lview s)"

lemma slots_views: "lview s' = lview s \<Longrightarrow> rview s' = rview s \<Longrightarrow> slots s' = slots s"
  by (simp add: slots_def rview_def)

lemma slotsD:
  assumes "slots s' = slots s"
  shows "length (ltab s') = length (ltab s)" "i < length (ltab s) \<Longrightarrow> lt_req (ltab s' ! i) = lt_req (ltab s ! i)"
    "Ltab_req i \<in> set (rpending (mgrstate s')) \<longleftrightarrow> Ltab_req i \<in> set (rpending (mgrstate s))"
    "mgrreqq (dtq s') = mgrreqq (dtq s)" "ltab_inuse s' = ltab_inuse s" "nmaxthread s' = nmaxthread s"
proof -
  have m: "map lt_req (ltab s') = map lt_req (ltab s)"
    and p: "filter (\<lambda>r. \<not> is_int r) (rpending (mgrstate s')) = filter (\<lambda>r. \<not> is_int r) (rpending (mgrstate s))"
    and v: "lview s' = lview s" and q: "mgrreqq (dtq s') = mgrreqq (dtq s)" using assms by (simp_all add: slots_def)
  show len: "length (ltab s') = length (ltab s)" by (rule map_eq_imp_length_eq [OF m])
  show "i < length (ltab s) \<Longrightarrow> lt_req (ltab s' ! i) = lt_req (ltab s ! i)"
    using arg_cong [OF m, of "\<lambda>xs. xs ! i"] len by simp
  show "Ltab_req i \<in> set (rpending (mgrstate s')) \<longleftrightarrow> Ltab_req i \<in> set (rpending (mgrstate s))"
    using arg_cong [OF p, of "\<lambda>xs. Ltab_req i \<in> set xs"] by simp
  show "mgrreqq (dtq s') = mgrreqq (dtq s)" by (rule q)
  show "ltab_inuse s' = ltab_inuse s" using ltab_ok_lview(2) [OF v] .
  show "nmaxthread s' = nmaxthread s" using v by (simp add: lview_def)
qed

lemma slots_helpers [simp]:
  "slots (upd_gtab i fg s) = slots s" "slots (upd_mqe m fm s) = slots s" "slots (write_dtmsg m b x t s) = slots s"
  "slots (recycle_dtmsg_mqe m b x s) = slots s" "slots (s\<lparr>seqsrc := y\<rparr>) = slots s" "slots (recv_release m s) = slots s"
  "slots (snd (send_or_unalloc m s)) = slots s" "slots (gtab_free g s) = slots s" "slots (cancel_pthread l s) = slots s"
  "slots (detached_ret_cleanup g s) = slots s" "slots (send_created_error e t x s) = slots s"
  "slots (send_joined m e r s) = slots s" "slots (snd (pthread_create_for l s)) = slots s"
  "slots (broadcast_shutdown s) = slots s"
  by (rule slots_views; simp)+

lemma slots_upd_mgr:
  "(\<And>m. rpending (f m) = rpending m \<and> ltab_lastslot (f m) = ltab_lastslot m \<and> mg_ltab_alloc (f m) = mg_ltab_alloc m) \<Longrightarrow>
     slots (upd_mgr f s) = slots s"
  by (simp add: slots_def lview_def mgr_ops)

lemma slots_mqe_alloc: "mqe_alloc s = (m, s') \<Longrightarrow> slots s' = slots s"
  using view_mqe_alloc rview_mqe_alloc slots_views by metis

lemma slots_alloc_case [simp]:
  "(\<And>m s1. slots (f m s1) = slots s1) \<Longrightarrow>
     slots (case mqe_alloc s of (None, s) \<Rightarrow> s | (Some m, s) \<Rightarrow> f m s) = slots s"
  using slots_mqe_alloc by (auto split: prod.splits option.splits)

text \<open>Requests of the manager itself are in no slot.\<close>

lemma slots_int_req:
  assumes "is_int r"
  shows "slots (upd_req r f s) = slots s" "slots (rm_pending r s) = slots s" "slots (add_pending r s) = slots s"
    "slots (dtq_req_release r n s) = slots s"
proof -
  obtain k where k: "r = Int_req k" using assms by (cases r) simp_all
  show u: "slots (upd_req r f s) = slots s" for f s by (simp add: k slots_def lview_def)
  show "slots (rm_pending r s) = slots s" "slots (add_pending r s) = slots s"
    by (simp_all add: k slots_def lview_def mgr_ops) (simp add: filter_remove1)
  have "slots (s\<lparr>dtq := (dtq s)\<lparr>reqfree := rs\<rparr>\<rparr>) = slots s" for rs by (simp add: slots_def lview_def)
  then show "slots (dtq_req_release r n s) = slots s" by (simp only: dtq_req_release_def u split: if_split) simp
qed

lemma slots_req_alloc:
  assumes "dtq_req_alloc s = (r, s')"
  shows "slots s' = slots s"
  using assms by (auto simp: dtq_req_alloc_def q_malloc_def slots_def lview_def split: list.splits prod.splits if_splits)

lemma held_int: "mgr_inv_held (add_mset r H) s \<Longrightarrow> is_int r"
  using held_not_pending(2) [of "add_mset r H" s r] by (auto simp: mgr_inv_held_def)

lemma alloc_int:
  "mgr_inv_held H s \<Longrightarrow> dtq_req_alloc s = (Some r, s') \<Longrightarrow> is_int r"
  using mgr_inv_req_alloc [of H s "Some r" s'] held_int by simp

subsection \<open>Handlers that leave the slots alone\<close>

lemma slots_joinwait_search:
  assumes "mgr_inv_held H s" "joinwait_search th rm s = (ro, s')"
  shows "slots s' = slots s \<and> (\<forall>r. ro = Some r \<longrightarrow> is_int r)"
proof (cases ro)
  case None
  then show ?thesis using assms(2) by (auto simp: joinwait_search_def split: option.splits)
next
  case (Some r)
  then have r: "r \<in> set (rpending (mgrstate s))" "reqop (get_req s r) = DTOP_JOINWAIT" "s' = (if rm then rm_pending r s else s)"
    using assms(2) by (auto simp: joinwait_search_def split: option.splits dest: find_Some_mem)
  then have "is_int r" using pend_is_int [OF pend_ok_of_inv [OF assms(1) r(1)]] by simp
  then show ?thesis using r(3) Some by (simp add: slots_int_req)
qed

lemma slots_joinwait_end_release: "is_int r \<Longrightarrow> slots (joinwait_end_release r s) = slots s"
  by (simp add: joinwait_end_release_def Let_def slots_int_req)

lemma slots_deallocate:
  assumes "\<And>q. r = Some q \<Longrightarrow> is_int q"
  shows "slots (deallocate_and_error e r m g t x s) = slots s"
proof -
  have "slots (s\<lparr>dtq := dtq_mqe_unalloc m (dtq s)\<rparr>) = slots s" for m s by (simp add: slots_def lview_def dtq_ops)
  then show ?thesis using assms slots_int_req
    by (simp add: deallocate_and_error_def Let_def split: option.splits)
qed

lemma slots_send_start:
  assumes "is_int r" "send_start r m g t a f x s = Inr s'"
  shows "slots s' = slots s"
proof -
  obtain seq s0 where g: "get_free_seq DTOP_START s = Some (seq, s0)" using assms(2) by (auto simp: send_start_def)
  obtain y where s0: "s0 = s\<lparr>seqsrc := y\<rparr>" using get_free_seq_state [OF g] by auto
  have q: "slots (u\<lparr>dtq := q\<rparr>) = slots u" if "dtq_send_enqueue me to m (dtq u) = (mo, q)" for u me to mo q
    using that by (auto simp: slots_def lview_def dtq_ops Let_def split: if_splits)
  have st: "slots (upd_mgr (\<lambda>m. m\<lparr>threads_starting := threads_starting m + 1\<rparr>) u) = slots u" for u
    by (rule slots_upd_mgr) simp
  show ?thesis
    using assms(2) g slots_int_req [OF assms(1)] slots_deallocate [of "Some r"] assms(1)
    by (auto simp: send_start_def Let_def s0 st q split: option.splits prod.splits)
qed

lemma slots_gtab_alloc: "gtab_alloc t d a s = Inr (go, s') \<Longrightarrow> slots s' = slots s"
  by (auto simp: gtab_alloc_def get_free_seq_NONE seq_step_def Let_def slots_upd_mgr split: if_splits option.splits)

lemma slots_create_thread:
  assumes "mgr_inv_held {#} s" "create_thread mqe a d arg s = Inr s'"
  shows "slots s' = slots s"
proof (cases "d = 0 \<or> unat d \<ge> ndsps s \<or> threads_alloc (mgrstate s) \<ge> int (nmaxthread s)")
  case True
  then obtain e t x where "s' = send_created_error e t x s"
    using assms(2) by (auto simp: create_thread_def Let_def split: if_splits)
  then show ?thesis by simp
next
  case False
  define s0 where "s0 = upd_mgr (\<lambda>m. m\<lparr>next_rank := (next_rank m + 1) mod mpi_wsize s\<rparr>) s"
  obtain r s1 where r: "dtq_req_alloc s0 = (r, s1)" by fastforce
  obtain m s2 where m: "(if r \<noteq> None then mqe_alloc s1 else (None, s1)) = (m, s2)" by fastforce
  obtain g s3 where g: "(if m \<noteq> None then gtab_alloc (next_rank (mgrstate s)) d arg s2 else Inr (None, s2)) = Inr (g, s3)"
    using assms False r m by (cases "(if m \<noteq> None then gtab_alloc (next_rank (mgrstate s)) d arg s2 else Inr (None, s2))")
      (auto simp: create_thread_def Let_def s0_def)
  have i0: "mgr_inv_held {#} s0" using assms(1) mgr_inv_views [of s0 s]
    by (simp add: s0_def) (simp add: gview_def lview_def mgr_ops)
  have int: "is_int q" if "r = Some q" for q using alloc_int [OF i0] r that by blast
  have "slots s0 = slots s" unfolding s0_def by (rule slots_upd_mgr) simp
  moreover have "slots s1 = slots s0" by (rule slots_req_alloc [OF r])
  moreover have "slots s2 = slots s1" using m slots_mqe_alloc by (auto split: if_splits)
  moreover have "slots s3 = slots s2" using g slots_gtab_alloc by (auto split: if_splits)
  ultimately have s3: "slots s3 = slots s" by simp
  have run: "(case (r, m, g) of
       (Some r, Some m, Some g) \<Rightarrow> send_start r m g (next_rank (mgrstate s)) (sanitize_attrs a)
          (peer (mqes s mqe)) (msg_xidseq (frame (mqes s mqe))) s3
     | _ \<Rightarrow> Inr (deallocate_and_error ENOMEM r m g (peer (mqes s mqe)) (msg_xidseq (frame (mqes s mqe))) s3)) = Inr s'"
    using assms False r m g by (simp add: create_thread_def Let_def s0_def)
  show ?thesis
    using run s3 int slots_deallocate [of r] slots_send_start by (auto split: option.splits)
qed

lemma slots_detach_thread:
  assumes "mgr_inv_held {#} s"
  shows "slots (detach_thread m th s) = slots s"
proof (cases "dthread_dt2gtab th s")
  case None
  then show ?thesis by (simp add: detach_thread_def)
next
  case (Some g)
  obtain rqe s1 where j: "joinwait_search th True (upd_gtab g (\<lambda>gt. gt\<lparr>gt_detached := True\<rparr>) s) = (rqe, s1)" by fastforce
  have "mgr_inv_held {#} (upd_gtab g (\<lambda>gt. gt\<lparr>gt_detached := True\<rparr>) s)"
    using assms by (rule mgr_inv_keep) (simp_all add: gview_upd_gtab)
  from slots_joinwait_search [OF this j] have "slots s1 = slots s" "\<And>r. rqe = Some r \<Longrightarrow> is_int r" by simp_all
  then show ?thesis using Some j
    by (cases rqe) (simp_all add: detach_thread_def Let_def slots_joinwait_end_release slots_int_req)
qed

lemma slots_join_thread:
  assumes "mgr_inv_held {#} s"
  shows "slots (join_thread m th s) = slots s"
proof -
  have "snd (joinwait_search th False s) = s" by (simp add: joinwait_search_def split: option.splits)
  moreover have "is_int r \<and> slots s1 = slots s" if "dtq_req_alloc s = (Some r, s1)" for r s1
    using alloc_int [OF assms] slots_req_alloc that by blast
  ultimately show ?thesis using slots_req_alloc [of s None] slots_int_req
    by (auto simp: join_thread_def Let_def split: option.splits prod.splits)
qed

lemma slots_terminated_thread:
  assumes "mgr_inv_held {#} s"
  shows "slots (terminated_thread th f s) = slots s"
proof -
  let ?g = "unat (dt_index th)"
  define s0 where "s0 = upd_gtab ?g (\<lambda>gt. gt\<lparr>gt_has_ltab := False\<rparr>)
     (upd_mgr (\<lambda>m. m\<lparr>threads_running := threads_running m - 1\<rparr>)
       (upd_gtab ?g (\<lambda>gt. gt\<lparr>gt_terminated := f\<rparr>) s))"
  obtain rqe s1 where j: "joinwait_search th True s0 = (rqe, s1)" by fastforce
  have s0: "slots s0 = slots s" by (simp add: s0_def slots_upd_mgr)
  have "gview s0 = gview s" by (simp add: s0_def gview_upd_gtab) (simp add: gview_def mgr_ops map_update_same)
  then have "mgr_inv_held {#} s0" using assms
    by (rule_tac mgr_inv_keep) (simp_all add: s0_def lview_def mgr_ops rview_def)
  from slots_joinwait_search [OF this j] s0 have "slots s1 = slots s" "\<And>r. rqe = Some r \<Longrightarrow> is_int r" by simp_all
  then show ?thesis
    unfolding terminated_thread_def Let_def s0_def [symmetric] j prod.case
    by (cases rqe) (simp_all add: slots_joinwait_end_release slots_int_req)
qed

lemma slots_process_started:
  assumes "mgr_inv_held {#} s"
  shows "slots (process_started m e s) = slots s"
proof -
  obtain ro s1 where f: "find_pending_msgreq m DTOP_START (sizeof_dtmsg (Dtmsg_started e)) s = (ro, s1)" by fastforce
  have st: "slots (upd_mgr (\<lambda>m. m\<lparr>threads_starting := threads_starting m - 1\<rparr>) u) = slots u"
      "slots (upd_mgr (\<lambda>m. m\<lparr>threads_running := threads_running m + 1\<rparr>) u) = slots u" for u
    by (simp_all add: slots_upd_mgr)
  show ?thesis
  proof (cases ro)
    case None
    then have "s1 = s" using f by (auto simp: find_pending_msgreq_def Let_def split: if_splits option.splits)
    then show ?thesis using f None by (simp add: process_started_def)
  next
    case (Some r)
    then have r: "r \<in> set (rpending (mgrstate s))" "reqop (get_req s r) = DTOP_START" "s1 = rm_pending r s"
      using f by (auto simp: find_pending_msgreq_def find_pending_req_def Let_def
          split: if_splits option.splits dest: find_Some_mem)
    then have "is_int r" using pend_is_int [OF pend_ok_of_inv [OF assms r(1)]] by simp
    then show ?thesis using f Some r(3) by (simp add: process_started_def Let_def slots_int_req st)
  qed
qed

lemma slots_cancel_thread: "slots (cancel_thread m th s) = slots s"
proof -
  define r where "r = (case dthread_dt2gtab th s of
      None \<Rightarrow> (ESRCH, s)
    | Some g \<Rightarrow>
        if gt_rank (gtab s ! g) \<noteq> mpi_rank s then (EINVAL, s)
        else if gt_has_ltab (gtab s ! g) \<and> gt_ltab_idx (gtab s ! g) < nmaxthread s \<and>
                lt_seq (ltab s ! gt_ltab_idx (gtab s ! g)) = gt_seq (gtab s ! g)
        then (0, cancel_pthread (gt_ltab_idx (gtab s ! g)) s)
        else (0, s))"
  have "slots (snd r) = slots s" by (simp add: r_def split: option.splits)
  then show ?thesis unfolding cancel_thread_def Let_def r_def [symmetric] case_prod_unfold by simp
qed

subsection \<open>Messages\<close>

text \<open>
  What a message does to slot \<open>i\<close>: its request stays as it is, or it was waiting for a
  reply and is done now.
\<close>

definition slot_kept :: "nat \<Rightarrow> dtrs \<Rightarrow> dtrs \<Rightarrow> bool" where
  "slot_kept i s s' \<longleftrightarrow> lt_req (ltab s' ! i) = lt_req (ltab s ! i) \<and>
     (Ltab_req i \<in> set (rpending (mgrstate s')) \<longleftrightarrow> Ltab_req i \<in> set (rpending (mgrstate s)))"

definition slot_answered :: "nat \<Rightarrow> dtrs \<Rightarrow> dtrs \<Rightarrow> bool" where
  "slot_answered i s s' \<longleftrightarrow> Ltab_req i \<in> set (rpending (mgrstate s)) \<and> Ltab_req i \<notin> set (rpending (mgrstate s')) \<and>
     reqstate (lt_req (ltab s' ! i)) = DTREQ_DONE \<and> req_mqe (lt_req (ltab s' ! i)) = req_mqe (lt_req (ltab s ! i)) \<and>
     req_ltabidx (lt_req (ltab s' ! i)) = req_ltabidx (lt_req (ltab s ! i))"

definition msg_slots :: "dtrs \<Rightarrow> dtrs \<Rightarrow> bool" where
  "msg_slots s s' \<longleftrightarrow> length (ltab s') = length (ltab s) \<and> nmaxthread s' = nmaxthread s \<and>
     mgrreqq (dtq s') = mgrreqq (dtq s) \<and> ltab_inuse s \<subseteq> ltab_inuse s' \<and>
     (\<forall>i < length (ltab s). slot_kept i s s' \<or> slot_answered i s s')"

lemma msg_slots_same: "slots s' = slots s \<Longrightarrow> msg_slots s s'"
  using slotsD [of s' s] by (simp add: msg_slots_def slot_kept_def)

lemma msg_slots_after: "msg_slots s s1 \<Longrightarrow> slots s' = slots s1 \<Longrightarrow> msg_slots s s'"
  using slotsD [of s' s1] by (simp add: msg_slots_def slot_kept_def slot_answered_def)

lemma msg_slots_rview:
  assumes "rview s' = rview s" "ltab_inuse s \<subseteq> ltab_inuse s'"
  shows "msg_slots s s'"
  using assms rview_get_req [OF assms(1)] rview_pending [OF assms(1)]
  by (simp add: msg_slots_def slot_kept_def) (simp add: rview_def)

lemma start_thread_slots:
  assumes "mgr_inv_held {#} s" "start_thread mqe th a s = Inr s'"
  shows "msg_slots s s'"
proof -
  obtain mo s1 where al: "mqe_alloc s = (mo, s1)" by fastforce
  have i1: "mgr_inv_held {#} s1" using assms(1) view_mqe_alloc [OF al] rview_mqe_alloc [OF al] by (blast intro: mgr_inv_keep)
  note s1 = slots_mqe_alloc [OF al]
  show ?thesis
  proof (cases mo)
    case None
    then show ?thesis using assms(2) al s1 by (simp add: start_thread_def msg_slots_same)
  next
    case (Some m)
    define send where "send = send_started m (msg_xidseq (frame (mqes s1 mqe)))"
    have send: "slots (send err t) = slots t" for err t by (simp add: send_def send_started_def)
    from start_thread_cases [OF assms(2) al [unfolded Some], folded send_def] show ?thesis
    proof (elim disjE exE conjE)
      assume "s' = send EINVAL s1"
      then show ?thesis using send s1 msg_slots_same by simp
    next
      fix l s2
      assume l: "ltab_alloc th s1 = Inr (Some l, s2)"
        and s': "s' = send (fst (pthread_create_for l s2)) (launched l s2)"
      have ok: "ltab_ok s1" using i1 by (simp add: mgr_inv_held_def tables_ok_def)
      have "ltab_inuse s1 \<noteq> {..<nmaxthread s1}" using lslot.alloc_full [of s1 th] ok l by auto
      from ltab_alloc_slot [OF ok this, of th] l
      have p: "l \<notin> ltab_inuse s1" "l < nmaxthread s1" "ltab_inuse s2 = insert l (ltab_inuse s1)" "ltab_ok s2"
        "nmaxthread s2 = nmaxthread s1" by auto
      let ?s3 = "snd (pthread_create_for l s2)"
      have v3: "lview ?s3 = lview s2" "rview ?s3 = rview s2" by simp_all
      have "rview s2 = rview s1" using l
        by (auto simp: ltab_alloc_def Let_def split: if_splits option.splits)
      moreover have "rview (launched l s2) = rview s2" by (simp add: launched_def)
      moreover have "ltab_inuse ?s3 = ltab_inuse s2" "ltab_ok ?s3" "nmaxthread ?s3 = nmaxthread s2"
        using ltab_ok_lview [OF v3(1)] p(4) v3(1) by (simp_all add: lview_def)
      then have "ltab_inuse s1 \<subseteq> ltab_inuse (launched l s2)"
        using p ltab_free_slot [of ?s3 l] by (auto simp: launched_def)
      ultimately have "msg_slots s1 (launched l s2)" by (intro msg_slots_rview) simp_all
      then have "msg_slots s1 s'" using msg_slots_after send s' by simp
      then show ?thesis using slotsD [OF s1] by (simp add: msg_slots_def slot_kept_def slot_answered_def)
    qed
  qed
qed

lemma process_reply_slots:
  assumes "mgr_inv_held {#} s" "opn \<in> {DTOP_CREATE, DTOP_DETACH, DTOP_CANCEL, DTOP_JOIN}"
    and f: "\<And>q. reqstate (f q) = reqstate q \<and> req_mqe (f q) = req_mqe q \<and> req_ltabidx (f q) = req_ltabidx q"
  shows "msg_slots s (process_reply m opn f s)"
proof -
  obtain ro s1 where p: "find_pending_msgreq m opn (sizeof_dtmsg (msg_body (frame (mqes s m)))) s = (ro, s1)"
    by fastforce
  show ?thesis
  proof (cases ro)
    case None
    then have "s1 = s" using p by (auto simp: find_pending_msgreq_def Let_def split: if_splits option.splits)
    then show ?thesis using None p by (simp add: process_reply_def msg_slots_same)
  next
    case (Some r)
    then have r: "r \<in> set (rpending (mgrstate s))" "reqop (get_req s r) = opn" "s1 = rm_pending r s"
      using p by (auto simp: find_pending_msgreq_def find_pending_req_def Let_def
          split: if_splits option.splits dest: find_Some_mem)
    obtain i where i: "r = Ltab_req i" "i < length (ltab s)"
      using pend_is_ltab [OF pend_ok_of_inv [OF assms(1) r(1)]] r(2) assms(2) by blast
    have np: "Ltab_req i \<notin> set (rpending (mgrstate s1))"
      using req_inv_rm_pending(2) [of "{#}" s r] assms(1) r i by (simp add: mgr_inv_held_def)
    have "reqstate (lt_req (ltab s ! i)) \<noteq> DTREQ_INTERNAL" using assms(1) i by (simp add: mgr_inv_held_def req_inv_def)
    then have rel: "dtq_req_release r True (upd_req r f s1) =
        upd_req r (\<lambda>q. (f q)\<lparr>reqstate := DTREQ_DONE\<rparr>) s1"
      using i f r(3) by (simp add: dtq_req_release_def mgr_ops)
    have run: "process_reply m opn f s = recv_release m (upd_req r (\<lambda>q. (f q)\<lparr>reqstate := DTREQ_DONE\<rparr>) s1)"
      using p Some rel by (simp add: process_reply_def)
    let ?s2 = "upd_req r (\<lambda>q. (f q)\<lparr>reqstate := DTREQ_DONE\<rparr>) s1"
    have "lview ?s2 = lview s" by (simp add: r(3))
    then have use: "ltab_inuse ?s2 = ltab_inuse s" by (rule ltab_ok_lview(2))
    have "slot_kept j s ?s2" if "j \<noteq> i" for j
      using that by (simp add: slot_kept_def i r(3) mgr_ops nth_list_update)
    moreover have "slot_answered i s ?s2"
      using i np r(1,3) f by (simp add: slot_answered_def mgr_ops)
    moreover have "length (ltab ?s2) = length (ltab s)" "nmaxthread ?s2 = nmaxthread s" "mgrreqq (dtq ?s2) = mgrreqq (dtq s)"
      by (simp_all add: r(3) mgr_ops)
    ultimately have "msg_slots s ?s2" using use unfolding msg_slots_def by (metis order_refl)
    then show ?thesis unfolding run by (rule msg_slots_after) simp
  qed
qed

lemma process_mqe_slots:
  assumes "mgr_inv_held {#} s" "process_mqe m s = Inr s'"
  shows "msg_slots s s'"
proof -
  have rs: "reqstate (created_result e n q) = reqstate q \<and> req_mqe (created_result e n q) = req_mqe q \<and>
        req_ltabidx (created_result e n q) = req_ltabidx q"
      "reqstate (joined_result e j q) = reqstate q \<and> req_mqe (joined_result e j q) = req_mqe q \<and>
        req_ltabidx (joined_result e j q) = req_ltabidx q" for e n j q
    by (simp_all add: created_result_def joined_result_def split: option.splits)
  have reply: "msg_slots s (process_reply m DTOP_CREATE (created_result e n) s)"
      "msg_slots s (process_reply m DTOP_DETACH (\<lambda>r. r\<lparr>reqerror := e\<rparr>) s)"
      "msg_slots s (process_reply m DTOP_CANCEL (\<lambda>r. r\<lparr>reqerror := e\<rparr>) s)"
      "msg_slots s (process_reply m DTOP_JOIN (joined_result e j) s)" for e n j
    by (rule process_reply_slots [OF assms(1)]; simp add: rs)+
  have pt: "slots (process_terminated m th f s) = slots s" for th f
    using slots_terminated_thread [OF assms(1)] by (simp add: process_terminated_def)
  have rel: "msg_slots s (recv_release m t)" if "slots t = slots s" for t
    using that by (simp add: msg_slots_same)
  note same = msg_slots_same [OF slots_process_started [OF assms(1)]] msg_slots_same [OF slots_detach_thread [OF assms(1)]]
    msg_slots_same [OF slots_cancel_thread] msg_slots_same [OF slots_join_thread [OF assms(1)]] msg_slots_same [OF pt]
    msg_slots_same [OF refl] rel rel [OF slots_create_thread [OF assms(1)]]
    msg_slots_after [OF start_thread_slots [OF assms(1)] slots_helpers(6)]
  show ?thesis
    using assms(2) by (auto simp: process_mqe_def Let_def reply same split: if_splits dtmsg_body.splits)
qed

subsection \<open>Requests\<close>

text \<open>The number that \<^verbatim>\<open>get_free_seq\<close> returns is not pending.\<close>

lemma get_free_seq_fresh:
  assumes "get_free_seq op s = Some y" "op \<noteq> DTOP_NONE"
  shows "find_pending_req op (fst y) s = None"
proof -
  have "op \<noteq> DTOP_NONE \<longrightarrow> find_pending_req op (fst y) s = None"
  proof (rule get_free_seq.raw_induct [OF _ assms(1), where P = "\<lambda>op s y. op \<noteq> DTOP_NONE \<longrightarrow> find_pending_req op (fst y) s = None"])
    fix get :: "dtop \<Rightarrow> dtrs \<Rightarrow> (u32 \<times> dtrs) option" and op s y
    assume IH: "\<And>op s y. get op s = Some y \<Longrightarrow> op \<noteq> DTOP_NONE \<longrightarrow> find_pending_req op (fst y) s = None"
      and run: "(let (rv, s') = seq_step s
        in if op = DTOP_NONE \<or> find_pending_req op rv s' = None then Some (rv, s') else get op s') = Some y"
    show "op \<noteq> DTOP_NONE \<longrightarrow> find_pending_req op (fst y) s = None"
      using run IH [of op "s\<lparr>seqsrc := next_seq s (seqsrc s)\<rparr>" y]
      by (auto simp: seq_step_def split: if_splits)
  qed
  then show ?thesis using assms(2) by simp
qed

text \<open>
  What the request of slot \<open>i\<close> does to the other slots, and to its own when it is one
  that waits for a reply and when it is the last of its thread.
\<close>

definition others_kept :: "nat \<Rightarrow> dtrs \<Rightarrow> dtrs \<Rightarrow> bool" where
  "others_kept i s s' \<longleftrightarrow> length (ltab s') = length (ltab s) \<and> nmaxthread s' = nmaxthread s \<and>
     mgrreqq (dtq s') = mgrreqq (dtq s) \<and> ltab_inuse s - {i} \<subseteq> ltab_inuse s' \<and> ltab_inuse s' \<subseteq> ltab_inuse s \<and>
     (\<forall>j < length (ltab s). j \<noteq> i \<longrightarrow> slot_kept j s s')"

definition forwarded :: "nat \<Rightarrow> dtrs \<Rightarrow> dtrs \<Rightarrow> bool" where
  "forwarded i s s' \<longleftrightarrow> (let q = lt_req (ltab s ! i); q' = lt_req (ltab s' ! i) in
     req_mqe q' = None \<and> reqop q' = reqop q \<and> req_ltabidx q' = req_ltabidx q \<and> ltab_inuse s' = ltab_inuse s \<and>
     (if Ltab_req i \<in> set (rpending (mgrstate s'))
      then reqstate q' = DTREQ_BUSY \<and> find_pending_req (reqop q) (xidseq q') s = None
      else reqstate q' = DTREQ_DONE))"

definition retired :: "nat \<Rightarrow> dtrs \<Rightarrow> dtrs \<Rightarrow> bool" where
  "retired i s s' \<longleftrightarrow> (let q = lt_req (ltab s ! i); q' = lt_req (ltab s' ! i) in
     req_mqe q' = req_mqe q \<and> req_ltabidx q' = req_ltabidx q \<and> reqstate q' = DTREQ_IDLE \<and>
     Ltab_req i \<notin> set (rpending (mgrstate s')))"

lemma others_kept_slots: "others_kept i s s1 \<Longrightarrow> slots s' = slots s1 \<Longrightarrow> others_kept i s s'"
  using slotsD [of s' s1] by (simp add: others_kept_def slot_kept_def)

lemmas inuse_upd_req = ltab_ok_lview(2) [OF view_upd_req(2)]

lemma others_kept_upd_req: "others_kept i s s1 \<Longrightarrow> others_kept i s (upd_req (Ltab_req i) f s1)"
proof -
  assume o: "others_kept i s s1"
  then show ?thesis using inuse_upd_req [of "Ltab_req i" f s1] by (simp add: others_kept_def slot_kept_def)
qed

lemma others_kept_add_pending: "others_kept i s s1 \<Longrightarrow> others_kept i s (add_pending (Ltab_req i) s1)"
proof -
  assume o: "others_kept i s s1"
  have "ltab_inuse (add_pending (Ltab_req i) s1) = ltab_inuse s1" by (rule ltab_ok_lview(2)) simp
  moreover have "ltab (add_pending (Ltab_req i) s1) = ltab s1" "dtq (add_pending (Ltab_req i) s1) = dtq s1"
    "nmaxthread (add_pending (Ltab_req i) s1) = nmaxthread s1"
    "set (rpending (mgrstate (add_pending (Ltab_req i) s1))) = insert (Ltab_req i) (set (rpending (mgrstate s1)))"
    by (simp_all add: mgr_ops)
  ultimately show ?thesis using o by (simp add: others_kept_def slot_kept_def)
qed

lemma others_kept_refl: "others_kept i s s"
  by (auto simp: others_kept_def slot_kept_def)

lemma forward_req_slots:
  assumes "mgr_inv_held {#} s" "Ltab_req i \<notin> set (rpending (mgrstate s))" "i < length (ltab s)"
    and "reqop (get_req s (Ltab_req i)) \<in> {DTOP_CREATE, DTOP_DETACH, DTOP_CANCEL, DTOP_JOIN}"
    and "reqstate (get_req s (Ltab_req i)) = DTREQ_BUSY" and "forward_req (Ltab_req i) s = Inr s'"
  shows "others_kept i s s' \<and> forwarded i s s'"
proof -
  let ?r = "Ltab_req i"
  define s0 where "s0 = upd_req ?r (\<lambda>q. q\<lparr>req_mqe := None\<rparr>) s"
  obtain seq s1 e where g: "get_free_seq (reqop (get_req s0 ?r)) s0 = Some (seq, s1)"
    and e: "req_mqe (get_req s ?r) = Some e"
    using assms(6) by (auto simp: forward_req_def Let_def s0_def split: option.splits)
  obtain y where y: "s1 = s0\<lparr>seqsrc := y\<rparr>" using get_free_seq_state [OF g] by auto
  define s2 where "s2 = upd_req ?r (\<lambda>q. q\<lparr>xidseq := seq\<rparr>) s1"
  define s3 where "s3 = snd (send_or_unalloc e (upd_mqe e (\<lambda>e. e\<lparr>frame := (frame e)\<lparr>msg_xidseq := seq\<rparr>\<rparr>) s2))"
  have o0: "others_kept i s s0" unfolding s0_def by (rule others_kept_upd_req [OF others_kept_refl])
  have o2: "others_kept i s s2" unfolding s2_def
    by (rule others_kept_upd_req [OF others_kept_slots [OF o0]]) (simp add: y)
  have sl3: "slots s3 = slots s2" by (simp add: s3_def)
  have o3: "others_kept i s s3" by (rule others_kept_slots [OF o2 sl3])
  have q3: "lt_req (ltab s3 ! i) = (lt_req (ltab s ! i))\<lparr>req_mqe := None, xidseq := seq\<rparr>" "i < length (ltab s3)"
    using assms(3) slotsD(1,2) [OF sl3] by (simp_all add: s2_def y s0_def)
  have p3: "Ltab_req i \<notin> set (rpending (mgrstate s3))" using assms(2) slotsD(3) [OF sl3, of i] by (simp add: s2_def y s0_def)
  have rop: "reqop (get_req s0 ?r) = reqop (lt_req (ltab s ! i))" using assms(3) by (simp add: s0_def)
  have "find_pending_req op x s0 = find_pending_req op x s" for op x
  proof -
    have "xidseq (get_req s0 r) = xidseq (get_req s r)" "reqop (get_req s0 r) = reqop (get_req s r)" for r
      using assms(3) by (cases r; simp add: s0_def nth_list_update)+
    then show ?thesis by (simp add: find_pending_req_def s0_def)
  qed
  then have fresh: "find_pending_req (reqop (lt_req (ltab s ! i))) seq s = None"
    using get_free_seq_fresh [OF g] assms(4) rop by auto
  have "lview s2 = lview s" unfolding s2_def y s0_def view_upd_req view_upd ..
  then have use: "ltab_inuse s3 = ltab_inuse s" using slotsD(5) [OF sl3] ltab_ok_lview(2) by metis
  have run: "s' = (if fst (send_or_unalloc e (upd_mqe e (\<lambda>e. e\<lparr>frame := (frame e)\<lparr>msg_xidseq := seq\<rparr>\<rparr>) s2))
      then add_pending ?r s3 else dtq_req_release ?r True (upd_req ?r (\<lambda>q. q\<lparr>reqerror := EIO\<rparr>) s3))"
    using assms(6) g e by (auto simp: forward_req_def Let_def s0_def s2_def s3_def case_prod_unfold split: if_splits)
  have "others_kept i s (add_pending ?r s3) \<and> forwarded i s (add_pending ?r s3)"
  proof -
    have "ltab_inuse (add_pending ?r s3) = ltab_inuse s3" by (rule ltab_ok_lview(2)) simp
    moreover have "ltab (add_pending ?r s3) = ltab s3" by (simp add: mgr_ops)
    moreover have "?r \<in> set (rpending (mgrstate (add_pending ?r s3)))" by (simp add: mgr_ops)
    ultimately show ?thesis using q3 use fresh assms(5) others_kept_add_pending [OF o3]
      by (simp add: forwarded_def Let_def)
  qed
  moreover have "others_kept i s (dtq_req_release ?r True (upd_req ?r (\<lambda>q. q\<lparr>reqerror := EIO\<rparr>) s3)) \<and>
      forwarded i s (dtq_req_release ?r True (upd_req ?r (\<lambda>q. q\<lparr>reqerror := EIO\<rparr>) s3))"
  proof -
    have rel: "dtq_req_release ?r True (upd_req ?r (\<lambda>q. q\<lparr>reqerror := EIO\<rparr>) s3) =
        upd_req ?r (\<lambda>q. q\<lparr>reqstate := DTREQ_DONE\<rparr>) (upd_req ?r (\<lambda>q. q\<lparr>reqerror := EIO\<rparr>) s3)"
      using q3 assms(5) by (simp add: dtq_req_release_def)
    have "ltab_inuse (upd_req ?r f (upd_req ?r h s3)) = ltab_inuse s" for f h
      unfolding inuse_upd_req by (rule use)
    then show ?thesis unfolding rel using q3 p3 others_kept_upd_req [OF others_kept_upd_req [OF o3]]
      by (simp add: forwarded_def Let_def)
  qed
  ultimately show ?thesis unfolding run by simp
qed

lemma ltab_free_kept:
  assumes "mgr_inv_held {#} s" "i < nmaxthread s"
  shows "others_kept i s (ltab_free i s) \<and> lt_req (ltab (ltab_free i s) ! i) = lt_req (ltab s ! i) \<and>
    rpending (mgrstate (ltab_free i s)) = rpending (mgrstate s)"
proof -
  have ok: "ltab_ok s" using assms by (simp add: mgr_inv_held_def tables_ok_def)
  note v = rview_get_req [OF rview_helpers(2) [of i s]] rview_pending [OF rview_helpers(2) [of i s]]
  have "mgrreqq (dtq (ltab_free i s)) = mgrreqq (dtq s)" by (simp add: ltab_free_def mgr_ops)
  then show ?thesis using ltab_free_slot [OF ok assms(2)] v assms(2) ok
    by (auto simp: others_kept_def slot_kept_def ltab_ok_def)
qed

lemma release_retired:
  assumes "others_kept i s s1" "lt_req (ltab s1 ! i) = lt_req (ltab s ! i)" "i < length (ltab s)"
    and "reqstate (lt_req (ltab s ! i)) = DTREQ_BUSY"
    and "Ltab_req i \<notin> set (rpending (mgrstate s1))"
  shows "others_kept i s (dtq_req_release (Ltab_req i) False s1) \<and> retired i s (dtq_req_release (Ltab_req i) False s1)"
proof -
  have "length (ltab s1) = length (ltab s)" using assms(1) by (simp add: others_kept_def)
  moreover have "dtq_req_release (Ltab_req i) False s1 = upd_req (Ltab_req i) (\<lambda>q. q\<lparr>reqstate := DTREQ_IDLE\<rparr>) s1"
    using assms(2,4) by (simp add: dtq_req_release_def)
  ultimately show ?thesis using others_kept_upd_req [OF assms(1)] assms(2,3,5) by (simp add: retired_def Let_def)
qed

lemma retclean_req_slots:
  assumes "mgr_inv_held {#} s" "Ltab_req i \<notin> set (rpending (mgrstate s))" "i < nmaxthread s"
    and "reqstate (lt_req (ltab s ! i)) = DTREQ_BUSY"
  shows "others_kept i s (retclean_req (Ltab_req i) i s) \<and> retired i s (retclean_req (Ltab_req i) i s)"
proof -
  have len: "length (ltab s) = nmaxthread s" using assms(1) by (simp add: mgr_inv_held_def tables_ok_def ltab_ok_def)
  obtain mo s0 where a: "mqe_alloc s = (mo, s0)" by fastforce
  have i0: "mgr_inv_held {#} s0" using assms(1) view_mqe_alloc [OF a] rview_mqe_alloc [OF a] by (blast intro: mgr_inv_keep)
  note s0 = slotsD [OF slots_mqe_alloc [OF a]]
  have o0: "others_kept i s s0" by (rule others_kept_slots [OF others_kept_refl slots_mqe_alloc [OF a]])
  have fin: "others_kept i s (dtq_req_release (Ltab_req i) False t) \<and> retired i s (dtq_req_release (Ltab_req i) False t)"
    if "others_kept i s t" "lt_req (ltab t ! i) = lt_req (ltab s ! i)" "Ltab_req i \<notin> set (rpending (mgrstate t))" for t
    using release_retired [OF that(1,2) _ assms(4) that(3)] assms(3) len by simp
  have free: "others_kept i s (ltab_free i t) \<and> lt_req (ltab (ltab_free i t) ! i) = lt_req (ltab s ! i) \<and>
      Ltab_req i \<notin> set (rpending (mgrstate (ltab_free i t)))"
    if v: "gview t = gview s0" "lview t = lview s0" "rview t = rview s0" for t
  proof -
    have it: "mgr_inv_held {#} t" using i0 v by (rule mgr_inv_keep)
    have sl: "slots t = slots s0" using v(2,3) by (rule slots_views)
    note t = slotsD [OF sl]
    note f = ltab_free_kept [OF it, of i]
    have "others_kept i s (ltab_free i t)"
      using f others_kept_slots [OF o0 sl] t(6) s0(6) assms(3) by (auto simp: others_kept_def slot_kept_def)
    then show ?thesis using f t s0 assms(2,3) len by auto
  qed
  show ?thesis
  proof (cases mo)
    case None
    then show ?thesis using a fin [OF o0] s0 assms(2,3) len by (simp add: retclean_req_def)
  next
    case (Some m)
    define t where "t = snd (send_or_unalloc m
        (write_dtmsg m (Dtmsg_terminated \<lparr>dt_index = lt_gtab_idx (ltab s0 ! i), dt_seq = lt_seq (ltab s0 ! i)\<rparr>
           (lt_pth_state (ltab s0 ! i))) 0 0
          (if gt_has_ltab (gtab s0 ! unat (lt_gtab_idx (ltab s0 ! i))) \<and>
              gt_ltab_idx (gtab s0 ! unat (lt_gtab_idx (ltab s0 ! i))) = i \<and>
              gt_seq (gtab s0 ! unat (lt_gtab_idx (ltab s0 ! i))) = lt_seq (ltab s0 ! i)
           then upd_gtab (unat (lt_gtab_idx (ltab s0 ! i))) (\<lambda>gt. gt\<lparr>gt_has_ltab := False\<rparr>) s0 else s0)))"
    have "gview t = gview s0" "lview t = lview s0" "rview t = rview s0" by (simp_all add: t_def gview_upd_gtab)
    from free [OF this] have "others_kept i s (dtq_req_release (Ltab_req i) False (ltab_free i t)) \<and>
        retired i s (dtq_req_release (Ltab_req i) False (ltab_free i t))" by (intro fin) auto
    then show ?thesis using a Some by (simp add: retclean_req_def Let_def t_def)
  qed
qed

lemma app0_ret_req_slots:
  assumes "Ltab_req i \<notin> set (rpending (mgrstate s))" "i < length (ltab s)" "reqstate (lt_req (ltab s ! i)) = DTREQ_BUSY"
  shows "others_kept i s (app0_ret_req (Ltab_req i) s) \<and> retired i s (app0_ret_req (Ltab_req i) s)"
proof -
  let ?s = "if mpi_rank s \<noteq> 0 then s else broadcast_shutdown s"
  have sl: "slots ?s = slots s" by simp
  note v = slotsD [OF sl]
  have "others_kept i s ?s" by (rule others_kept_slots [OF others_kept_refl sl])
  then show ?thesis unfolding app0_ret_req_def using v assms by (intro release_retired) simp_all
qed

lemma process_req_slots:
  assumes "mgr_inv_held {#} s" "Ltab_req i \<notin> set (rpending (mgrstate s))" "i < nmaxthread s"
    and "reqstate (lt_req (ltab s ! i)) = DTREQ_BUSY" "req_ltabidx (lt_req (ltab s ! i)) = int i"
    and "reqop (lt_req (ltab s ! i)) \<in> {DTOP_CREATE, DTOP_DETACH, DTOP_CANCEL, DTOP_JOIN, DTOP_RETCLEAN, DTOP_APP0_RET}"
    and "process_req (Ltab_req i) s = Inr s'"
  shows "others_kept i s s' \<and>
    (if reqop (lt_req (ltab s ! i)) \<in> {DTOP_CREATE, DTOP_DETACH, DTOP_CANCEL, DTOP_JOIN}
     then forwarded i s s' else retired i s s')"
proof -
  have len: "length (ltab s) = nmaxthread s" using assms(1) by (simp add: mgr_inv_held_def tables_ok_def ltab_ok_def)
  show ?thesis
    using assms len forward_req_slots [OF assms(1,2), of s'] retclean_req_slots [OF assms(1-4)] app0_ret_req_slots [OF assms(2)]
    by (auto simp: process_req_def Let_def)
qed

end
