(* ===== verification/Dt_Flow.thy ===== *)
theory Dt_Flow
  imports Dt_Frames
begin

text \<open>
  What the manager does to the queues: every handler is a sequence of queue operations,
  each on entries that it owns at that moment.  \<open>flow s X s' Y\<close> says that the rank gets
  from \<open>s\<close> to \<open>s'\<close> by steps of \<open>dtq_step\<close> that begin with the entries \<open>X\<close> in the hands
  of the manager and end with \<open>Y\<close>, whatever other threads own.  Conservation of the
  entries follows, and with it the manager is one of the threads that the properties of
  the queues are about.
\<close>

subsection \<open>Flow of entries\<close>

definition mqe_total :: "dtq_state \<Rightarrow> nat multiset" where
  "mqe_total q = mset (mqefree q) + mset (mpisendq q) + mset (mpirecvq q)"

definition flow :: "dtrs \<Rightarrow> nat multiset \<Rightarrow> dtrs \<Rightarrow> nat multiset \<Rightarrow> bool" where
  "flow s X s' Y \<longleftrightarrow> mpi_rank s' = mpi_rank s \<and>
     (\<forall>Z I. (dtq_step (mpi_rank s))\<^sup>*\<^sup>* \<lparr>sys_q = dtq s, owned = X + Z, inflight = I\<rparr>
        \<lparr>sys_q = dtq s', owned = Y + Z, inflight = I\<rparr>)"

text \<open>What a state looks like to the queues.\<close>

definition qview :: "dtrs \<Rightarrow> dtq_state \<times> int" where
  "qview s = (dtq s, mpi_rank s)"

lemma flow_same: "qview s' = qview s \<Longrightarrow> flow s X s' X"
  by (simp add: flow_def qview_def)

lemma flow_cong: "qview s1 = qview s \<Longrightarrow> qview s1' = qview s' \<Longrightarrow> flow s1 X s1' Y = flow s X s' Y"
  by (simp add: flow_def qview_def)

lemma flow_chain: "flow s X s1 Y \<Longrightarrow> flow s1 Y s2 Z \<Longrightarrow> flow s X s2 Z"
  unfolding flow_def by (metis rtranclp_trans)

lemma flow_frame: "flow s X s' Y \<Longrightarrow> flow s (X + Z) s' (Y + Z)"
  unfolding flow_def by (metis add.assoc)

lemma flow_after: "flow s X s1 Y \<Longrightarrow> flow s1 {#} s2 {#} \<Longrightarrow> flow s X s2 Y"
  using flow_frame [of s1 "{#}" s2 "{#}" Y] flow_chain by simp

lemma flow_before: "flow s {#} s1 {#} \<Longrightarrow> flow s1 X s2 Y \<Longrightarrow> flow s X s2 Y"
  using flow_frame [of s "{#}" s1 "{#}" X] flow_chain by simp

lemma flow_step:
  assumes "mpi_rank s' = mpi_rank s"
    and "\<And>Z I. dtq_step (mpi_rank s) \<lparr>sys_q = dtq s, owned = X + Z, inflight = I\<rparr> \<lparr>sys_q = dtq s', owned = Y + Z, inflight = I\<rparr>"
  shows "flow s X s' Y"
  using assms unfolding flow_def by blast

text \<open>No step loses or duplicates an entry, newly malloc'd entries being counted.\<close>

lemma dtq_step_total:
  "dtq_step me c c' \<Longrightarrow> dtq_places c + mset [0..<nmqe (sys_q c')] = dtq_places c' + mset [0..<nmqe (sys_q c)]"
  by (induction rule: dtq_step.induct)
    (auto simp: dtq_places_def dtq_ops dtq_alloc_defs Let_def
       dest!: multi_member_split split: list.splits if_splits prod.splits)

lemma dtq_steps_total:
  "(dtq_step me)\<^sup>*\<^sup>* c c' \<Longrightarrow> dtq_places c + mset [0..<nmqe (sys_q c')] = dtq_places c' + mset [0..<nmqe (sys_q c)]"
proof (induction rule: rtranclp_induct)
  case (step c1 c2)
  have "(dtq_places c + mset [0..<nmqe (sys_q c1)]) + (dtq_places c1 + mset [0..<nmqe (sys_q c2)]) =
      (dtq_places c1 + mset [0..<nmqe (sys_q c)]) + (dtq_places c2 + mset [0..<nmqe (sys_q c1)])"
    using step.IH dtq_step_total [OF step.hyps(2)] by simp
  then have "(dtq_places c + mset [0..<nmqe (sys_q c2)]) + (dtq_places c1 + mset [0..<nmqe (sys_q c1)]) =
      (dtq_places c2 + mset [0..<nmqe (sys_q c)]) + (dtq_places c1 + mset [0..<nmqe (sys_q c1)])"
    by (simp only: ac_simps)
  then show ?case by (simp only: add_right_cancel)
qed simp

lemma flow_total:
  assumes "flow s X s' Y"
  shows "mqe_total (dtq s) + X + mset [0..<nmqe (dtq s')] = mqe_total (dtq s') + Y + mset [0..<nmqe (dtq s)]"
proof -
  have "(dtq_step (mpi_rank s))\<^sup>*\<^sup>* \<lparr>sys_q = dtq s, owned = X, inflight = {#}\<rparr> \<lparr>sys_q = dtq s', owned = Y, inflight = {#}\<rparr>"
    using assms unfolding flow_def by (metis add.right_neutral)
  from dtq_steps_total [OF this] show ?thesis by (simp add: dtq_places_def mqe_total_def)
qed

subsection \<open>What the helpers leave of the queues\<close>

lemma qview_upd [simp]:
  "qview (upd_gtab i fg s) = qview s" "qview (upd_ltab i fl s) = qview s" "qview (upd_mqe m fm s) = qview s"
  "qview (upd_mgr f s) = qview s" "qview (upd_req r fr s) = qview s" "qview (write_dtmsg m b x t s) = qview s"
  "qview (recycle_dtmsg_mqe m b x s) = qview s" "qview (rm_pending r s) = qview s" "qview (add_pending r s) = qview s"
  "qview (gtab_free g s) = qview s" "qview (ltab_free l s) = qview s" "qview (cancel_pthread l s) = qview s"
  "qview (detached_ret_cleanup g s) = qview s" "qview (s\<lparr>seqsrc := y\<rparr>) = qview s"
  by (cases r; simp add: qview_def mgr_ops gtab_free_def ltab_free_def cancel_pthread_def detached_ret_cleanup_def
      Let_def split: option.splits prod.splits)+

subsection \<open>The queue operations\<close>

lemma flow_from: "flow t X s' Y \<Longrightarrow> qview t = qview s \<Longrightarrow> flow s X s' Y"
  using flow_cong by metis

lemma flow_to: "flow s X t Y \<Longrightarrow> qview s' = qview t \<Longrightarrow> flow s X s' Y"
  using flow_cong by metis

lemma mqe_alloc_flow:
  assumes "mqe_alloc s = (m, s')"
  shows "flow s {#} s' (case m of None \<Rightarrow> {#} | Some e \<Rightarrow> {#e#})"
proof (rule flow_step)
  have a: "dtq_mqe_alloc (dtq s) = (m, dtq s')" and r: "mpi_rank s' = mpi_rank s"
    using assms by (auto simp: mqe_alloc_def split: prod.splits)
  show "mpi_rank s' = mpi_rank s" by (rule r)
  show "dtq_step (mpi_rank s) \<lparr>sys_q = dtq s, owned = {#} + Z, inflight = I\<rparr>
      \<lparr>sys_q = dtq s', owned = (case m of None \<Rightarrow> {#} | Some e \<Rightarrow> {#e#}) + Z, inflight = I\<rparr>" for Z I
    using dtq_step.alloc [of "\<lparr>sys_q = dtq s, owned = Z, inflight = I\<rparr>" _ "dtq s'"]
      dtq_step.alloc_fail [of "\<lparr>sys_q = dtq s, owned = Z, inflight = I\<rparr>" "dtq s'"] a by (cases m) simp_all
qed

lemma unalloc_flow: "flow s {#m#} (s\<lparr>dtq := dtq_mqe_unalloc m (dtq s)\<rparr>) {#}"
  by (rule flow_step) (use dtq_step.unalloc [of m "\<lparr>sys_q = dtq s, owned = add_mset m Z, inflight = I\<rparr>" for Z I] in simp_all)

lemma send_flow: "dtq_send_enqueue (mpi_rank s) to m (dtq s) = (None, q) \<Longrightarrow> flow s {#m#} (s\<lparr>dtq := q\<rparr>) {#}"
  by (rule flow_step) (use dtq_step.send [of m "\<lparr>sys_q = dtq s, owned = add_mset m Z, inflight = I\<rparr>" for Z I] in simp_all)

lemma send_refused: "dtq_send_enqueue me to m q = (Some m', q') \<Longrightarrow> q' = q \<and> m' = m"
  by (auto simp: dtq_ops Let_def split: if_splits)

lemma send_or_unalloc_flow: "flow s {#m#} (snd (send_or_unalloc m s)) {#}"
  using unalloc_flow [of s m] send_flow [of s _ m]
  by (auto simp: send_or_unalloc_def split: prod.splits option.splits dest!: send_refused)

lemma recv_release_flow: "flow s {#m#} (recv_release m s) {#}"
  unfolding recv_release_def
  by (rule flow_step) (use dtq_step.recv_release [of m "\<lparr>sys_q = dtq s, owned = add_mset m Z, inflight = I\<rparr>" for Z I] in simp_all)

lemma req_memory_flow: "flow s {#} (s\<lparr>dtq := (dtq s)\<lparr>reqfree := rs, nreq := n, mallocs := bs\<rparr>\<rparr>) {#}"
  by (rule flow_step) (use dtq_step.req_memory [of _ "\<lparr>sys_q = dtq s, owned = Z, inflight = I\<rparr>" for Z I] in simp_all)

lemma req_release_flow: "flow s {#} (dtq_req_release r n s) {#}"
  using req_memory_flow [where s = s and rs = "r # reqfree (dtq s)" and n = "nreq (dtq s)" and bs = "mallocs (dtq s)"]
  by (auto simp: dtq_req_release_def intro: flow_same)

lemma req_alloc_flow:
  assumes "dtq_req_alloc s = (r, s')"
  shows "flow s {#} s' {#}"
proof -
  obtain rs n bs where "qview s' = qview (s\<lparr>dtq := (dtq s)\<lparr>reqfree := rs, nreq := n, mallocs := bs\<rparr>\<rparr>)"
  proof (rule that)
    show "qview s' = qview (s\<lparr>dtq := (dtq s)\<lparr>reqfree := reqfree (dtq s'), nreq := nreq (dtq s'), mallocs := mallocs (dtq s')\<rparr>\<rparr>)"
      using assms by (auto simp: qview_def dtq_req_alloc_def q_malloc_def split: list.splits if_splits)
  qed
  then show ?thesis using flow_to [OF req_memory_flow] by simp
qed

lemma draindown_flow: "flow s {#} (s\<lparr>dtq := snd (dtq_send_draindown (dtq s))\<rparr>) {#}"
  by (rule flow_step) (use dtq_step.draindown [of "\<lparr>sys_q = dtq s, owned = Z, inflight = I\<rparr>" for Z I] in
      \<open>simp_all add: dtq_send_draindown_def Let_def\<close>)

lemma timelimit_flow: "flow s {#} (s\<lparr>dtq := dtq_notifytimelimit t (dtq s)\<rparr>) {#}"
  by (rule flow_step) (use dtq_step.timelimit [of _ "\<lparr>sys_q = dtq s, owned = Z, inflight = I\<rparr>" for Z I] in simp_all)

text \<open>Allocate an entry, write a message, send it.\<close>

lemma write_send_flow: "qview t = qview s \<Longrightarrow> flow s {#m#} (snd (send_or_unalloc m t)) {#}"
  using send_or_unalloc_flow flow_from by blast

lemma alloc_send_flow:
  assumes "\<And>m s1. qview (f m s1) = qview s1"
  shows "flow s {#} (case mqe_alloc s of (None, s) \<Rightarrow> s
           | (Some m, s) \<Rightarrow> snd (send_or_unalloc m (f m s))) {#}"
proof -
  obtain mo s1 where a: "mqe_alloc s = (mo, s1)" by fastforce
  show ?thesis
  proof (cases mo)
    case None
    then show ?thesis using mqe_alloc_flow [OF a] a by simp
  next
    case (Some m)
    then show ?thesis using flow_chain [OF _ write_send_flow [OF assms]] mqe_alloc_flow [OF a] a by simp
  qed
qed

subsection \<open>The handlers\<close>

lemma joinwait_search_qview [simp]: "qview (snd (joinwait_search th rm s)) = qview s"
  by (simp add: joinwait_search_def split: option.splits)

lemma joinwait_end_release_flow: "flow s {#} (joinwait_end_release r s) {#}"
  unfolding joinwait_end_release_def Let_def
  by (rule flow_before [OF _ req_release_flow]) (auto intro: alloc_send_flow flow_same)

lemma shutdown_to_flow: "flow s {#} (shutdown_to c s) {#}"
  unfolding shutdown_to_def by (rule alloc_send_flow) simp

lemma broadcast_shutdown_flow: "flow s {#} (broadcast_shutdown s) {#}"
proof -
  have f: "flow s {#} (fold shutdown_to cs s) {#}" for cs
    by (induction cs arbitrary: s) (auto intro: flow_before [OF shutdown_to_flow] flow_same)
  have g: "flow t {#} (upd_mgr h (t\<lparr>dtq := snd (dtq_send_draindown (dtq t))\<rparr>)) {#}" for t h
    by (rule flow_to [OF draindown_flow]) simp
  show ?thesis
    unfolding broadcast_shutdown_def Let_def by (rule flow_after [OF flow_after [OF f g] timelimit_flow])
qed

lemma send_created_error_flow: "flow s {#} (send_created_error e t x s) {#}"
  unfolding send_created_error_def by (rule alloc_send_flow) simp

lemma deallocate_and_error_flow:
  "flow s (case m of None \<Rightarrow> {#} | Some e \<Rightarrow> {#e#}) (deallocate_and_error err r m g t x s) {#}"
proof -
  define s1 where "s1 = (case r of None \<Rightarrow> s | Some r \<Rightarrow> dtq_req_release r False s)"
  define s2 where "s2 = (case m of None \<Rightarrow> s1 | Some m \<Rightarrow> s1\<lparr>dtq := dtq_mqe_unalloc m (dtq s1)\<rparr>)"
  define s3 where "s3 = (case g of None \<Rightarrow> s2 | Some g \<Rightarrow> gtab_free g s2)"
  have "flow s {#} s1 {#}" by (auto simp: s1_def req_release_flow flow_same split: option.splits)
  moreover have "flow s1 (case m of None \<Rightarrow> {#} | Some e \<Rightarrow> {#e#}) s2 {#}"
    by (auto simp: s2_def unalloc_flow flow_same split: option.splits)
  moreover have "qview s3 = qview s2" by (simp add: s3_def split: option.splits)
  ultimately have "flow s (case m of None \<Rightarrow> {#} | Some e \<Rightarrow> {#e#}) s3 {#}"
    using flow_before flow_to by metis
  then show ?thesis
    unfolding deallocate_and_error_def Let_def s1_def [symmetric] s2_def [symmetric] s3_def [symmetric]
    using flow_after send_created_error_flow by blast
qed

lemma gtab_alloc_qview: "gtab_alloc r d a s = Inr (p, s') \<Longrightarrow> qview s' = qview s"
  by (auto simp: gtab_alloc_def get_free_seq_NONE seq_step_def Let_def split: if_splits option.splits)

lemma ltab_alloc_qview: "ltab_alloc th s = Inr (p, s') \<Longrightarrow> qview s' = qview s"
  by (auto simp: ltab_alloc_def Let_def split: if_splits option.splits)

lemma pthread_create_for_qview [simp]: "qview (snd (pthread_create_for l s)) = qview s"
  by (auto simp: pthread_create_for_def Let_def split: list.splits) (simp_all add: qview_def)

lemma send_start_flow:
  assumes "send_start r m g t a f x s = Inr s'"
  shows "flow s {#m#} s' {#}"
proof -
  obtain seq s1 where "get_free_seq DTOP_START s = Some (seq, s1)"
    using assms by (auto simp: send_start_def)
  then obtain y where s1: "get_free_seq DTOP_START s = Some (seq, s\<lparr>seqsrc := y\<rparr>)"
    using get_free_seq_state by fastforce
  obtain mo q where e: "dtq_send_enqueue (mpi_rank s) t m (dtq s) = (mo, q)" by fastforce
  have rank: "mpi_rank (upd_req r fr s2) = mpi_rank s2" "dtq (upd_req r fr s2) = dtq s2" for fr s2
    by (cases r; simp)+
  show ?thesis
  proof (cases mo)
    case None
    then have "qview s' = qview (s\<lparr>dtq := q\<rparr>)" using assms s1 e
      by (auto simp: send_start_def Let_def rank mgr_ops qview_def)
    then show ?thesis using send_flow [of s t m q] e None flow_to by simp
  next
    case (Some m')
    then have q: "q = dtq s" "m' = m" using e send_refused by blast+
    obtain s2 where "s' = deallocate_and_error EIO (Some r) (Some m) (Some g) f x s2" "qview s2 = qview s"
      using assms s1 e Some q by (auto simp: send_start_def Let_def rank mgr_ops qview_def)
    then show ?thesis using deallocate_and_error_flow [of s2 "Some m" EIO "Some r" "Some g" f x] flow_from by simp
  qed
qed

lemma create_thread_flow:
  assumes "create_thread mqe a d arg s = Inr s'"
  shows "flow s {#} s' {#}"
proof (cases "d = 0 \<or> unat d \<ge> ndsps s \<or> threads_alloc (mgrstate s) \<ge> int (nmaxthread s)")
  case True
  then obtain e t x where "s' = send_created_error e t x s"
    using assms by (auto simp: create_thread_def Let_def split: if_splits)
  then show ?thesis by (simp add: send_created_error_flow)
next
  case False
  define s0 where "s0 = upd_mgr (\<lambda>m. m\<lparr>next_rank := (next_rank m + 1) mod mpi_wsize s\<rparr>) s"
  obtain r s1 where r: "dtq_req_alloc s0 = (r, s1)" by fastforce
  obtain m s2 where m: "(if r \<noteq> None then mqe_alloc s1 else (None, s1)) = (m, s2)" by fastforce
  obtain g s3 where g: "(if m \<noteq> None then gtab_alloc (next_rank (mgrstate s)) d arg s2 else Inr (None, s2)) = Inr (g, s3)"
    using assms False r m by (cases "(if m \<noteq> None then gtab_alloc (next_rank (mgrstate s)) d arg s2 else Inr (None, s2))")
      (auto simp: create_thread_def Let_def s0_def)
  let ?M = "case m of None \<Rightarrow> {#} | Some e \<Rightarrow> {#e#}"
  have "flow s {#} s1 {#}" by (rule flow_from [OF req_alloc_flow [OF r]]) (simp add: s0_def)
  moreover have "flow s1 {#} s2 ?M"
    using m mqe_alloc_flow by (auto split: if_splits intro: flow_same)
  moreover have "qview s3 = qview s2" using g gtab_alloc_qview by (auto split: if_splits)
  ultimately have f3: "flow s {#} s3 ?M" using flow_before flow_to by blast
  have run: "(case (r, m, g) of
       (Some r, Some m, Some g) \<Rightarrow> send_start r m g (next_rank (mgrstate s)) (sanitize_attrs a)
          (peer (mqes s mqe)) (msg_xidseq (frame (mqes s mqe))) s3
     | _ \<Rightarrow> Inr (deallocate_and_error ENOMEM r m g (peer (mqes s mqe)) (msg_xidseq (frame (mqes s mqe))) s3)) = Inr s'"
    using assms False r m g by (simp add: create_thread_def Let_def s0_def)
  have "flow s3 ?M s' {#}"
    using run by (auto split: option.splits dest: send_start_flow
        intro: deallocate_and_error_flow [of s3 "Some _", simplified] deallocate_and_error_flow [of s3 None, simplified])
  then show ?thesis using f3 flow_chain by blast
qed

lemma start_thread_flow:
  assumes "start_thread mqe th a s = Inr s'"
  shows "flow s {#} s' {#}"
proof -
  obtain mo s1 where a: "mqe_alloc s = (mo, s1)" by fastforce
  show ?thesis
  proof (cases mo)
    case None
    then show ?thesis using assms a mqe_alloc_flow [OF a] by (simp add: start_thread_def)
  next
    case (Some m)
    have "qview (launched l s2) = qview s2" for l s2 by (simp add: launched_def)
    then obtain err x s2 where s': "s' = send_started m x err s2" "qview s2 = qview s1"
      using start_thread_cases [OF assms a [unfolded Some]] ltab_alloc_qview by metis
    have "flow s1 {#m#} s' {#}" unfolding s'(1) send_started_def by (rule write_send_flow) (simp add: s'(2))
    then show ?thesis using flow_chain mqe_alloc_flow [OF a] Some by fastforce
  qed
qed

lemma recycle_send_flow: "qview t = qview s \<Longrightarrow> flow s {#m#} (snd (send_or_unalloc m (recycle_dtmsg_mqe m b x t))) {#}"
  by (rule write_send_flow) simp

lemma send_joined_flow: "flow s {#m#} (send_joined m e r s) {#}"
  unfolding send_joined_def by (rule recycle_send_flow) simp

lemma detach_thread_flow: "flow s {#m#} (detach_thread m th s) {#}"
proof (cases "dthread_dt2gtab th s")
  case None
  then show ?thesis by (simp add: detach_thread_def recycle_send_flow)
next
  case (Some g)
  obtain rqe s1 where j: "joinwait_search th True (upd_gtab g (\<lambda>gt. gt\<lparr>gt_detached := True\<rparr>) s) = (rqe, s1)"
    by fastforce
  then have "qview s1 = qview s" using joinwait_search_qview [of th True "upd_gtab g (\<lambda>gt. gt\<lparr>gt_detached := True\<rparr>) s"]
    by simp
  then have f: "flow s {#m#} (snd (send_or_unalloc m (recycle_dtmsg_mqe m b x s1))) {#}" for b x
    by (rule recycle_send_flow)
  have "flow s {#m#} (joinwait_end_release r (upd_req r g (snd (send_or_unalloc m (recycle_dtmsg_mqe m b x s1))))) {#}"
    for r g b x
    by (rule flow_after [OF f flow_from [OF joinwait_end_release_flow]]) simp
  with f show ?thesis using j Some by (cases rqe) (simp_all add: detach_thread_def Let_def)
qed

lemma cancel_thread_flow: "flow s {#m#} (cancel_thread m th s) {#}"
proof -
  define r where "r = (case dthread_dt2gtab th s of
      None \<Rightarrow> (ESRCH, s)
    | Some g \<Rightarrow>
        if gt_rank (gtab s ! g) \<noteq> mpi_rank s then (EINVAL, s)
        else if gt_has_ltab (gtab s ! g) \<and> gt_ltab_idx (gtab s ! g) < nmaxthread s \<and>
                lt_seq (ltab s ! gt_ltab_idx (gtab s ! g)) = gt_seq (gtab s ! g)
        then (0, cancel_pthread (gt_ltab_idx (gtab s ! g)) s)
        else (0, s))"
  have "qview (snd r) = qview s" by (simp add: r_def split: option.splits)
  then show ?thesis
    unfolding cancel_thread_def Let_def r_def [symmetric] case_prod_unfold by (rule recycle_send_flow)
qed

lemma join_thread_flow: "flow s {#m#} (join_thread m th s) {#}"
proof -
  have "flow s {#m#} (recv_release m (add_pending r (upd_req r f s1))) {#}"
    if "dtq_req_alloc s = (Some r, s1)" for r s1 f
    by (rule flow_before [OF req_alloc_flow [OF that] flow_from [OF recv_release_flow]]) simp
  moreover have "flow s {#m#} (send_joined m e r s1) {#}" if "dtq_req_alloc s = (None, s1)" for e r s1
    using flow_before [OF req_alloc_flow [OF that] send_joined_flow] .
  moreover have "flow s {#m#} (gtab_free g (send_joined m e r s)) {#}" for g e r
    by (rule flow_to [OF send_joined_flow]) simp
  moreover have "snd (joinwait_search th False s) = s" by (simp add: joinwait_search_def split: option.splits)
  ultimately show ?thesis
    by (auto simp: join_thread_def Let_def send_joined_flow split: option.splits prod.splits)
qed

lemma terminated_thread_flow: "flow s {#} (terminated_thread th f s) {#}"
proof -
  define s0 where "s0 = upd_gtab (unat (dt_index th)) (\<lambda>gt. gt\<lparr>gt_has_ltab := False\<rparr>)
     (upd_mgr (\<lambda>m. m\<lparr>threads_running := threads_running m - 1\<rparr>)
       (upd_gtab (unat (dt_index th)) (\<lambda>gt. gt\<lparr>gt_terminated := f\<rparr>) s))"
  obtain rqe s1 where j: "joinwait_search th True s0 = (rqe, s1)" by fastforce
  then have v1: "qview s1 = qview s" using joinwait_search_qview [of th True s0] by (simp add: s0_def)
  define s2 where "s2 = (case rqe of None \<Rightarrow> s1 | Some r \<Rightarrow> joinwait_end_release r
     (if gt_detached (gtab s1 ! unat (dt_index th)) then upd_req r (\<lambda>q. q\<lparr>reqerror := EINVAL\<rparr>) s1 else s1))"
  have "flow s {#} s2 {#}"
    unfolding s2_def using v1 by (auto split: option.splits intro: flow_same flow_from [OF joinwait_end_release_flow])
  moreover have "qview (terminated_thread th f s) = qview s2"
    unfolding terminated_thread_def Let_def s0_def [symmetric] j prod.case s2_def [symmetric] by simp
  ultimately show ?thesis by (rule flow_to)
qed

lemma find_pending_msgreq_qview: "find_pending_msgreq m opn sz s = (r, s') \<Longrightarrow> qview s' = qview s"
  by (auto simp: find_pending_msgreq_def Let_def split: if_splits option.splits)

lemma process_reply_flow: "flow s {#m#} (process_reply m opn f s) {#}"
proof -
  obtain r s1 where j: "find_pending_msgreq m opn (sizeof_dtmsg (msg_body (frame (mqes s m)))) s = (r, s1)"
    by fastforce
  note d = find_pending_msgreq_qview [OF j]
  define s2 where "s2 = (case r of None \<Rightarrow> s1 | Some r \<Rightarrow> dtq_req_release r True (upd_req r f s1))"
  have "flow s {#} s2 {#}"
    using d by (auto simp: s2_def split: option.splits intro: flow_same flow_from [OF req_release_flow])
  from flow_before [OF this recv_release_flow] show ?thesis
    unfolding process_reply_def Let_def j prod.case s2_def .
qed

lemma process_started_flow: "flow s {#m#} (process_started m e s) {#}"
proof -
  obtain r s1 where j: "find_pending_msgreq m DTOP_START (sizeof_dtmsg (Dtmsg_started e)) s = (r, s1)"
    by fastforce
  note d = find_pending_msgreq_qview [OF j]
  have "flow s {#m#} (dtq_req_release q False (snd (send_or_unalloc m s2))) {#}"
    if "qview s2 = qview s" for q s2
    using flow_after [OF write_send_flow [OF that] req_release_flow] .
  then show ?thesis using j d flow_from [OF recv_release_flow, of s1 s]
    by (auto simp: process_started_def Let_def split: option.splits)
qed

lemma forward_req_flow:
  assumes "forward_req r s = Inr s'" "req_mqe (get_req s r) = Some m"
  shows "flow s {#m#} s' {#}"
proof -
  let ?s0 = "upd_req r (\<lambda>q. q\<lparr>req_mqe := None\<rparr>) s"
  obtain seq s1 where g: "get_free_seq (reqop (get_req ?s0 r)) ?s0 = Some (seq, s1)"
    using assms by (auto simp: forward_req_def Let_def)
  then have d: "qview s1 = qview s" using get_free_seq_state [OF g] by auto
  define s2 where "s2 = upd_mqe m (\<lambda>e. e\<lparr>frame := (frame e)\<lparr>msg_xidseq := seq\<rparr>\<rparr>)
      (upd_req r (\<lambda>q. q\<lparr>xidseq := seq\<rparr>) s1)"
  have f: "flow s {#m#} (snd (send_or_unalloc m s2)) {#}"
    by (rule write_send_flow) (simp add: s2_def d)
  have run: "s' = (if fst (send_or_unalloc m s2) then add_pending r (snd (send_or_unalloc m s2))
      else dtq_req_release r True (upd_req r (\<lambda>q. q\<lparr>reqerror := EIO\<rparr>) (snd (send_or_unalloc m s2))))"
    using assms g by (simp add: forward_req_def Let_def s2_def case_prod_unfold split: if_splits)
  show ?thesis
    unfolding run using flow_to [OF f] flow_after [OF f flow_from [OF req_release_flow]] by simp
qed

lemma retclean_req_flow: "flow s {#} (retclean_req r l s) {#}"
proof -
  obtain mo s1 where a: "mqe_alloc s = (mo, s1)" by fastforce
  show ?thesis
  proof (cases mo)
    case None
    then show ?thesis using a mqe_alloc_flow [OF a] flow_after [OF _ req_release_flow] by (simp add: retclean_req_def)
  next
    case (Some m)
    have "flow s {#} (dtq_req_release r False (ltab_free l (snd (send_or_unalloc m s2)))) {#}"
      if "qview s2 = qview s1" for s2
      by (rule flow_chain [OF mqe_alloc_flow [OF a]])
        (simp add: Some, rule flow_after [OF write_send_flow [OF that] flow_from [OF req_release_flow]], simp)
    then show ?thesis using a Some by (simp add: retclean_req_def Let_def)
  qed
qed

lemma app0_ret_req_flow: "flow s {#} (app0_ret_req r s) {#}"
  using req_release_flow flow_after [OF broadcast_shutdown_flow req_release_flow]
  by (simp add: app0_ret_req_def)

lemma process_terminated_flow: "flow s {#m#} (process_terminated m th f s) {#}"
  unfolding process_terminated_def
  by (rule flow_before [OF _ recv_release_flow]) (simp add: terminated_thread_flow flow_same)

text \<open>The two kinds of truncated messages that no branch releases.\<close>

definition unreleased_runt :: "dtrs \<Rightarrow> dtq_mpiqentry \<Rightarrow> bool" where
  "unreleased_runt s e \<longleftrightarrow> \<not> flen_lt (flen e) sizeof_hdr \<and> flen_lt (flen e) (sizeof_dtmsg (msg_body (frame e))) \<and>
     (case msg_body (frame e) of Dtmsg_detach _ \<Rightarrow> mpi_rank s = 0 | Dtmsg_cancel _ \<Rightarrow> True | _ \<Rightarrow> False)"

lemmas handler_flows = recv_release_flow process_reply_flow process_started_flow detach_thread_flow
  cancel_thread_flow join_thread_flow process_terminated_flow
  flow_before [OF broadcast_shutdown_flow recv_release_flow]
  flow_before [OF create_thread_flow recv_release_flow] flow_before [OF start_thread_flow recv_release_flow]

lemma process_mqe_flow:
  assumes "process_mqe m s = Inr s'" "\<not> unreleased_runt s (mqes s m)"
  shows "flow s {#m#} s' {#}"
  using assms
  by (auto simp: process_mqe_def Let_def unreleased_runt_def handler_flows split: if_splits dtmsg_body.splits)

lemma runt_unchanged: "unreleased_runt s (mqes s m) \<Longrightarrow> process_mqe m s = Inr s"
  by (auto simp: process_mqe_def unreleased_runt_def Let_def split: dtmsg_body.splits)

text \<open>What a request of an application thread carries to the manager.\<close>

definition attached :: "dthread_request_t \<Rightarrow> nat multiset" where
  "attached q = (case req_mqe q of None \<Rightarrow> {#} | Some e \<Rightarrow> {#e#})"

definition carries_msg :: "dthread_request_t \<Rightarrow> bool" where
  "carries_msg q \<longleftrightarrow> (req_mqe q \<noteq> None) =
     (reqop q \<in> {DTOP_CREATE, DTOP_DETACH, DTOP_CANCEL, DTOP_JOIN} \<and> reqstate q = DTREQ_BUSY)"

lemma process_req_flow:
  assumes "process_req r s = Inr s'" "carries_msg (get_req s r)" "r = Ltab_req i"
    and "req_ltabidx (get_req s r) = int i" "i < nmaxthread s"
  shows "flow s (attached (get_req s r)) s' {#}"
  using assms forward_req_flow [of r s s']
  by (cases "req_mqe (get_req s r)")
    (auto simp: process_req_def Let_def retclean_req_flow app0_ret_req_flow req_release_flow attached_def carries_msg_def
      split: if_splits dtop.splits)

text \<open>
  C8. The manager neither loses nor duplicates queue entries: whatever message it
  processes, the entry of the message ends up in exactly one place (free list, send
  queue or loopback), and so does every entry it allocates on the way.  The only
  exceptions are truncated DETACH and CANCEL messages.
\<close>

theorem process_mqe_conserves:
  assumes "process_mqe m s = Inr s'" and "\<not> unreleased_runt s (mqes s m)"
  shows "mqe_total (dtq s) + {#m#} + mset [0..<nmqe (dtq s')] = mqe_total (dtq s') + mset [0..<nmqe (dtq s)]"
  using flow_total [OF process_mqe_flow [OF assms]] by simp

text \<open>
  C26. A truncated DETACH or CANCEL message is dropped without releasing its entry: the
  state does not change at all, so the entry, which the manager took off the receive
  queue, is in no list any more.
\<close>

theorem runt_entry_leaks:
  assumes "unreleased_runt s (mqes s m)"
  shows "process_mqe m s = Inr s"
  using assms by (rule runt_unchanged)

text \<open>
  Requests of application threads: the message attached to a request, and every
  entry allocated on the way, ends up in exactly one place, whatever the request.
\<close>

theorem process_req_conserves:
  assumes "process_req r s = Inr s'" and "carries_msg (get_req s r)"
    and "r = Ltab_req i" and "req_ltabidx (get_req s r) = int i" and "i < nmaxthread s"
  shows "mqe_total (dtq s) + attached (get_req s r) + mset [0..<nmqe (dtq s')] =
    mqe_total (dtq s') + mset [0..<nmqe (dtq s)]"
  using flow_total [OF process_req_flow [OF assms]] by simp

subsection \<open>Concrete messages\<close>

text \<open>Rank 0 with a JOIN, a truncated DETACH, and a DETACH request without further work.\<close>

definition ex_frames :: "dtmsg_body \<Rightarrow> int \<Rightarrow> dtrs" where
  "ex_frames b len = rank_ex\<lparr>mqes := (\<lambda>_. \<lparr>frame = \<lparr>msg_xidseq = 7, msg_body = b\<rparr>, flen = len, peer = 2\<rparr>)\<rparr>"

lemmas ex_defs = ex_frames_def rank_ex_def dtrs_init_def zero_mgrstate_def dtq_init_def zero_ltab_def
  new_internal_req_def zero_gtab_def zero_thread_def

theorem process_mqe_conserves_witness:
  "\<exists>s'. process_mqe 5 (ex_frames (Dtmsg_join zero_thread) 16) = Inr s' \<and>
     mqe_total (dtq s') + mset [0..<0] = {#5#} + mset [0..<nmqe (dtq s')]"
proof -
  let ?s = "ex_frames (Dtmsg_join zero_thread) 16"
  have run: "process_mqe 5 ?s = Inr (join_thread 5 zero_thread ?s)"
    by (simp add: process_mqe_def ex_defs flen_lt_def sizeof_dtmsg_def Let_def)
  have "\<not> unreleased_runt ?s (mqes ?s 5)" by (simp add: unreleased_runt_def ex_frames_def)
  from process_mqe_conserves [OF run this] run show ?thesis
    by (simp add: mqe_total_def) (simp add: ex_defs)
qed

theorem runt_entry_leaks_witness:
  "process_mqe 5 (ex_frames (Dtmsg_detach zero_thread) 12) = Inr (ex_frames (Dtmsg_detach zero_thread) 12)"
  by (rule runt_entry_leaks)
    (simp add: unreleased_runt_def flen_lt_def sizeof_dtmsg_def ex_defs)

theorem process_req_conserves_witness:
  "\<exists>s'. process_req (Ltab_req 0) rank_ex = Inr s' \<and> mqe_total (dtq s') = mset [0..<nmqe (dtq s')]"
proof -
  have run: "process_req (Ltab_req 0) rank_ex = Inr (dtq_req_release (Ltab_req 0) True rank_ex)"
    by (simp add: process_req_def Let_def ex_defs upt_rec)
  have "mqe_total (dtq rank_ex) + {#} + mset [0..<nmqe (dtq (dtq_req_release (Ltab_req 0) True rank_ex))] =
      mqe_total (dtq (dtq_req_release (Ltab_req 0) True rank_ex)) + mset [0..<nmqe (dtq rank_ex)]"
    using process_req_conserves [OF run, of 0] by (simp add: ex_defs upt_rec carries_msg_def attached_def)
  then show ?thesis using run by (simp add: mqe_total_def ex_defs upt_rec)
qed

end
