(* ===== verification/Dt_Calls.thy ===== *)
theory Dt_Calls
  imports Dt_Threadops Dt_Slots Dt_Flow
begin

text \<open>
  The calls of application threads as seen by the rank: every call either returns at once
  and leaves the tables, the requests and the queues alone, or allocates an entry, writes
  a message to it and queues the request of its own slot; the end of a thread queues a
  last request without a message.  A thread that joins passes a place for the result: a
  NULL there is a mistake of the application that \<^verbatim>\<open>dthread_njoin\<close> does not check, and is not a
  call of the model.
\<close>

subsection \<open>The six calls\<close>

datatype api_call =
    A_ncreate bool "dthread_attr_t option" u64 "dthread_argret_t option"
  | A_create bool "dthread_attr_t option" u64 u64
  | A_detach dthread_t
  | A_cancel dthread_t
  | A_njoin dthread_t dthread_argret_t
  | A_join dthread_t u64

fun call_op :: "api_call \<Rightarrow> dtop" where
  "call_op (A_ncreate _ _ _ _) = DTOP_CREATE"
| "call_op (A_create _ _ _ _) = DTOP_CREATE"
| "call_op (A_detach _) = DTOP_DETACH"
| "call_op (A_cancel _) = DTOP_CANCEL"
| "call_op (A_njoin _ _) = DTOP_JOIN"
| "call_op (A_join _ _) = DTOP_JOIN"

fun start_call :: "api_call \<Rightarrow> app_thread \<Rightarrow> dtrs \<Rightarrow> int option \<times> app_thread \<times> dtrs" where
  "start_call (A_ncreate d attr st arg) t s = dthread_ncreate_start d attr st arg t s"
| "start_call (A_create d attr st arg) t s = dthread_create_start d attr st arg t s"
| "start_call (A_detach th) t s = dthread_detach_start th t s"
| "start_call (A_cancel th) t s = dthread_cancel_start th t s"
| "start_call (A_njoin th ret) t s = dthread_njoin_start th ret t s"
| "start_call (A_join th old) t s = dthread_join_start th t s"

text \<open>The proc function that a pthread-style call reads before it waits.\<close>

fun saved_proc :: "api_call \<Rightarrow> dtrs \<Rightarrow> dthread_proc_pth_t option" where
  "saved_proc (A_create d attr st arg) s = dt_argproc (dsps s ! unat (get_dispatch_idx st s))"
| "saved_proc (A_join th old) s = dt_retproc (dsps s ! unat (gt_disp_idx (gtab s ! unat (dt_index th))))"
| "saved_proc _ s = None"

text \<open>The return of a call that waited: its error code.\<close>

fun finish_call ::
    "api_call \<Rightarrow> dthread_proc_pth_t option \<Rightarrow> reqptr \<Rightarrow> app_thread \<Rightarrow> dtrs \<Rightarrow> (int \<times> app_thread \<times> dtrs) option" where
  "finish_call (A_ncreate d attr st arg) p r t s = map_option (\<lambda>((rv, _), t, s). (rv, t, s)) (dthread_ncreate_finish r t s)"
| "finish_call (A_create d attr st arg) p r t s =
     (case p of None \<Rightarrow> None | Some p \<Rightarrow> map_option (\<lambda>((rv, _), t, s). (rv, t, s)) (dthread_create_finish p r t s))"
| "finish_call (A_detach th) p r t s = handle_finish r t s"
| "finish_call (A_cancel th) p r t s = handle_finish r t s"
| "finish_call (A_njoin th ret) p r t s = map_option (\<lambda>((rv, _), t, s). (rv, t, s)) (dthread_njoin_finish r t s)"
| "finish_call (A_join th old) p r t s =
     (case p of None \<Rightarrow> None | Some p \<Rightarrow> map_option (\<lambda>((rv, _), t, s). (rv, t, s)) (dthread_join_finish p old r t s))"

abbreviation (input) "reply_ops \<equiv> {DTOP_CREATE, DTOP_DETACH, DTOP_CANCEL, DTOP_JOIN}"

lemma call_op_reply [simp]: "call_op a \<in> reply_ops"
  by (cases a) simp_all

subsection \<open>Starting a call\<close>

text \<open>A call that waits has queued the request of its slot with a message of its own.\<close>

definition posts :: "nat \<Rightarrow> dtop \<Rightarrow> dtrs \<Rightarrow> dtrs \<Rightarrow> bool" where
  "posts l op s s' \<longleftrightarrow> reqstate (lt_req (ltab s ! l)) = DTREQ_IDLE \<and>
     (\<exists>m s1 body to f. mqe_alloc s = (Some m, s1) \<and>
        (\<forall>q. reqstate (f q) = reqstate q \<and> reqop (f q) = reqop q \<and> req_mqe (f q) = req_mqe q \<and>
             req_ltabidx (f q) = req_ltabidx q \<and> reqerror (f q) = reqerror q) \<and>
        s' = post_req (Ltab_req l) op m f (setup_msg m body to s1))"

definition returns_at_once :: "dtrs \<Rightarrow> dtrs \<Rightarrow> bool" where
  "returns_at_once s s' \<longleftrightarrow> s' = s \<or> mqe_alloc s = (None, s')"

lemma get_my_req_cases:
  assumes "get_my_req t s = (ro, s')"
  shows "(ro = None \<and> returns_at_once s s') \<or>
    (\<exists>l m. ro = Some (Ltab_req l, m) \<and> tls t = Some l \<and> reqstate (lt_req (ltab s ! l)) = DTREQ_IDLE \<and> mqe_alloc s = (Some m, s'))"
  using assms by (auto simp: get_my_req_def returns_at_once_def split: option.splits prod.splits if_splits)

lemma tls_cancel [simp]: "tls (restore_cancel t) = tls t" "tls (free_procarg p t) = tls t" "tls (snd (call_proc p op a v t)) = tls t"
  by (auto simp: restore_cancel_def free_procarg_def call_proc_def split: prod.splits)

lemma tls_block_cancel: "block_cancel t = (rv, t') \<Longrightarrow> tls t' = tls t"
  by (auto simp: block_cancel_def split: if_splits)

lemma tls_call_proc: "call_proc p op a v t = (res, t') \<Longrightarrow> tls t' = tls t"
  by (auto simp: call_proc_def)

lemma postsI:
  assumes "reqstate (lt_req (ltab s ! l)) = DTREQ_IDLE" "mqe_alloc s = (Some m, s1)"
  shows "posts l op s (post_req (Ltab_req l) op m (\<lambda>q. q) (setup_msg m body to s1))"
    and "posts l op s (post_req (Ltab_req l) op m (\<lambda>q. q\<lparr>req_retval := v\<rparr>) (setup_msg m body to s1))"
  unfolding posts_def using assms by (intro conjI exI allI; simp)+

lemma create_common_cases:
  assumes "dthread_create_common attr didx arg t s = (ro, s')"
  shows "(ro \<noteq> None \<and> returns_at_once s s') \<or> (ro = None \<and> (\<exists>l. tls t = Some l \<and> posts l DTOP_CREATE s s'))"
proof -
  obtain g s1 where g: "get_my_req t s = (g, s1)" by fastforce
  from get_my_req_cases [OF g] show ?thesis
    using assms g by (auto simp: dthread_create_common_def Let_def postsI(1))
qed

lemma join_common_cases:
  assumes "dthread_join_common th ret t s = (ro, s')"
  shows "(ro \<noteq> None \<and> returns_at_once s s') \<or> (ro = None \<and> (\<exists>l. tls t = Some l \<and> posts l DTOP_JOIN s s'))"
proof -
  obtain g s1 where g: "get_my_req t s = (g, s1)" by fastforce
  from get_my_req_cases [OF g] show ?thesis
    using assms g by (auto simp: dthread_join_common_def Let_def postsI(2))
qed

lemma handle_request_cases:
  assumes "handle_request th op body to t s = (ro, t', s')"
  shows "tls t' = tls t \<and> ((ro \<noteq> None \<and> returns_at_once s s') \<or> (ro = None \<and> (\<exists>l. tls t = Some l \<and> posts l op s s')))"
proof -
  obtain rv t1 where b: "block_cancel t = (rv, t1)" by fastforce
  obtain g s1 where g: "get_my_req t1 s = (g, s1)" by fastforce
  have t1: "tls t1 = tls t" using b by (rule tls_block_cancel)
  from get_my_req_cases [OF g] show ?thesis
    using assms b g t1
    by (auto simp: handle_request_def Let_def returns_at_once_def postsI(1) split: if_splits)
qed

text \<open>The two ways a call begins, for all six calls.\<close>

lemma start_call_cases:
  assumes "start_call a t s = (ro, t', s')"
  shows "tls t' = tls t \<and>
    ((ro \<noteq> None \<and> returns_at_once s s') \<or> (ro = None \<and> (\<exists>l. tls t = Some l \<and> posts l (call_op a) s s')))"
proof -
  have same: "returns_at_once s s" by (simp add: returns_at_once_def)
  obtain rv t1 where b: "block_cancel t = (rv, t1)" by fastforce
  have t1: "tls t1 = tls t" using b by (rule tls_block_cancel)
  show ?thesis
  proof (cases a)
    case (A_ncreate d attr st arg)
    obtain r2 s2 where c: "dthread_create_common attr (get_dispatch_idx st s) arg t1 s = (r2, s2)" by fastforce
    then show ?thesis using create_common_cases [OF c] assms A_ncreate b t1 same
      by (auto simp: dthread_ncreate_start_def Let_def split: if_splits)
  next
    case (A_create d attr st arg)
    obtain proc where proc: "dt_argproc (dsps s ! unat (get_dispatch_idx st s)) = Some proc \<or>
        dt_argproc (dsps s ! unat (get_dispatch_idx st s)) = None" by (cases "dt_argproc (dsps s ! unat (get_dispatch_idx st s))") auto
    obtain e a2 v t2 where p: "call_proc proc DTHREAD_PROC_ENCODE (Some (procarg t1)) (Some arg) t1 = ((e, a2, v), t2)"
      by (metis surj_pair)
    define t3 where "t3 = t2\<lparr>procarg := (case a2 of None \<Rightarrow> procarg t2 | Some a \<Rightarrow> a)\<rparr>"
    have t3: "tls t3 = tls t" using tls_call_proc [OF p] t1 by (simp add: t3_def)
    obtain r2 s2 where c: "dthread_create_common attr (get_dispatch_idx st s) (Some (procarg t3)) t3 s = (r2, s2)" by fastforce
    then show ?thesis using create_common_cases [OF c] assms A_create b t1 t3 same proc p
      by (auto simp: dthread_create_start_def Let_def t3_def [symmetric] split: if_splits option.splits)
  next
    case (A_njoin th ret)
    obtain r2 s2 where c: "dthread_join_common th ret t1 s = (r2, s2)" by fastforce
    then show ?thesis using join_common_cases [OF c] assms A_njoin b t1 same
      by (auto simp: dthread_njoin_start_def Let_def split: if_splits sum.splits)
  next
    case (A_join th old)
    obtain r2 s2 where c: "dthread_join_common th (procarg t1) t1 s = (r2, s2)" by fastforce
    then show ?thesis using join_common_cases [OF c] assms A_join b t1 same
      by (auto simp: dthread_join_start_def Let_def split: if_splits sum.splits)
  qed (use assms handle_request_cases in \<open>auto simp: dthread_detach_start_def dthread_cancel_start_def\<close>)
qed

text \<open>The return of a call: the request of the slot was no longer busy and is idle now.\<close>

lemma finish_call_cases:
  assumes "finish_call a p r t s = Some (rv, t', s')"
  shows "tls t' = tls t \<and> reqstate (get_req s r) \<noteq> DTREQ_BUSY \<and> s' = upd_req r (\<lambda>q. q\<lparr>reqstate := DTREQ_IDLE\<rparr>) s"
proof -
  have c: "reqstate (get_req s r) \<noteq> DTREQ_BUSY \<and> s1 = upd_req r (\<lambda>q. q\<lparr>reqstate := DTREQ_IDLE\<rparr>) s"
    if "collect_req r s = Some (q, s1)" for q s1
    using that by (auto simp: collect_req_def split: if_splits)
  show ?thesis using assms c
    by (cases a) (auto simp: dthread_ncreate_finish_def dthread_create_finish_def handle_finish_def dthread_njoin_finish_def
        dthread_join_finish_def create_collect_def join_collect_def Let_def split: option.splits prod.splits if_splits
        dest!: tls_call_proc)
qed

subsection \<open>Steps that only touch the data of a thread\<close>

text \<open>Nothing that the invariants or the queues depend on changes.\<close>

definition quiet :: "dtrs \<Rightarrow> dtrs \<Rightarrow> bool" where
  "quiet s s' \<longleftrightarrow> gview s' = gview s \<and> lview s' = lview s \<and> rview s' = rview s \<and> qview s' = qview s"

lemma quiet_refl [simp]: "quiet s s"
  by (simp add: quiet_def)

lemma quiet_trans: "quiet s s1 \<Longrightarrow> quiet s1 s2 \<Longrightarrow> quiet s s2"
  by (simp add: quiet_def)

lemma quiet_gtab: "(\<And>gt. gt_allocated (f gt) = gt_allocated gt) \<Longrightarrow> quiet s (upd_gtab g f s)"
  by (simp add: quiet_def gview_upd_gtab)

lemma quiet_gtab2:
  "(\<And>gt. gt_allocated (f gt) = gt_allocated gt) \<Longrightarrow> (\<And>gt. gt_allocated (h gt) = gt_allocated gt) \<Longrightarrow>
     quiet s (upd_gtab g f (upd_gtab k h s))"
  using quiet_gtab quiet_trans by blast

lemma quiet_pth_state:
  assumes "l \<in> ltab_inuse s" "st \<noteq> LT_NONE"
  shows "quiet s (upd_ltab l (\<lambda>lt. lt\<lparr>lt_pth_state := st\<rparr>) s)"
proof -
  have "l < length (ltab s)" "lt_pth_state (ltab s ! l) \<noteq> LT_NONE" using assms(1) by (auto simp: ltab_inuse_def)
  then have "lview (upd_ltab l (\<lambda>lt. lt\<lparr>lt_pth_state := st\<rparr>) s) = lview s"
    using assms(2) by (simp add: lview_def mgr_ops map_update list_update_same_conv)
  then show ?thesis by (simp add: quiet_def)
qed

lemma quiet_inuse: "quiet s s' \<Longrightarrow> ltab_inuse s' = ltab_inuse s"
  unfolding quiet_def using ltab_ok_lview(2) by blast

lemma exit_ret_quiet: "exit_ret native ret v g t s = Inr (t', s') \<Longrightarrow> quiet s s' \<and> tls t' = tls t"
  by (auto simp: exit_ret_def Let_def quiet_gtab quiet_gtab2 call_proc_def split: if_splits option.splits prod.splits)

lemma exit_common_quiet:
  assumes "dthread_exit_common native ret v t s = Inr (Some (t', s'))" "tls t = Some l" "l \<in> ltab_inuse s"
  shows "quiet s s' \<and> tls t' = tls t"
proof -
  let ?g = "unat (lt_gtab_idx (ltab s ! l))"
  let ?s0 = "upd_gtab ?g (\<lambda>gt. gt\<lparr>gt_ret := (gt_ret gt)\<lparr>dt_argret_type := DTHREAD_NODATA\<rparr>\<rparr>) s"
  obtain t0 t1 s1 where e: "exit_ret native ret v ?g t0 ?s0 = Inr (t1, s1)" "tls t0 = tls t" "t' = t1"
      "s' = upd_ltab l (\<lambda>lt. lt\<lparr>lt_pth_state := LT_EXITED\<rparr>) s1"
    using assms(1,2) by (auto simp: dthread_exit_common_def Let_def split: if_splits)
  note q = exit_ret_quiet [OF e(1)]
  have "quiet s ?s0" by (rule quiet_gtab) simp
  then have s1: "quiet s s1" using q quiet_trans by blast
  then have "quiet s1 s'" unfolding e(4) using assms(3) quiet_inuse [OF s1] by (intro quiet_pth_state) auto
  then show ?thesis using s1 q e quiet_trans by auto
qed

subsection \<open>The end of a thread\<close>

text \<open>The thread of slot \<open>l\<close> has queued its last request.\<close>

definition ends :: "nat \<Rightarrow> dtop \<Rightarrow> dtrs \<Rightarrow> dtrs \<Rightarrow> bool" where
  "ends l op s s' \<longleftrightarrow> (\<exists>s1. quiet s s1 \<and> s' = post_final l op s1)"

lemma ends_after: "quiet s s1 \<Longrightarrow> ends l op s1 s' \<Longrightarrow> ends l op s s'"
  unfolding ends_def using quiet_trans by blast

lemma retclean_request_ends:
  assumes "l \<in> ltab_inuse s" "f \<noteq> LT_NONE"
  shows "ends l DTOP_RETCLEAN s (retclean_request l f s)"
proof -
  define s1 where "s1 = (if LT_NEED_FINALSTATE (lt_pth_state (ltab s ! l)) then upd_ltab l (\<lambda>lt. lt\<lparr>lt_pth_state := f\<rparr>) s else s)"
  define s2 where "s2 = (if lt_pth_state (ltab s1 ! l) = LT_CANCELED \<or> lt_pth_state (ltab s1 ! l) = LT_CLEANUP
     then upd_gtab (unat (lt_gtab_idx (ltab s1 ! l))) (\<lambda>gt. gt\<lparr>gt_ret := (gt_ret gt)\<lparr>dt_argret_type := DTHREAD_CANCELED\<rparr>\<rparr>) s1
     else s1)"
  have "quiet s s1" using quiet_pth_state [OF assms] by (simp add: s1_def)
  moreover have "quiet s1 s2" by (simp add: s2_def quiet_gtab)
  moreover have "retclean_request l f s = post_final l DTOP_RETCLEAN s2"
    by (simp add: retclean_request_def Let_def s1_def s2_def)
  ultimately show ?thesis unfolding ends_def using quiet_trans by blast
qed

lemma retclean_after:
  assumes "l \<in> ltab_inuse s" "f \<noteq> LT_NONE" "quiet s s1"
  shows "ends l DTOP_RETCLEAN s (retclean_request l f s1)"
  using ends_after [OF assms(3) retclean_request_ends] assms quiet_inuse by blast

lemma dthreadcleanup_ends:
  assumes "dthreadcleanup ws t s = Inr (t', s')" "ws_lt ws \<in> ltab_inuse s"
  shows "ends (ws_lt ws) DTOP_RETCLEAN s s'"
proof -
  note r = retclean_after [OF assms(2)]
  have q3: "quiet s (upd_gtab i (\<lambda>gt. gt\<lparr>gt_ret := e gt\<rparr>) (upd_gtab g (\<lambda>gt. gt\<lparr>gt_ret := f gt\<rparr>) (upd_gtab h (\<lambda>gt. gt\<lparr>gt_arg := k gt\<rparr>) s)))"
    for i e g f h k
    by (rule quiet_trans [OF quiet_gtab2 quiet_gtab]) simp_all
  show ?thesis using assms(1)
    by (auto simp: dthreadcleanup_def Let_def call_proc_def split: if_splits option.splits prod.splits
        intro!: r quiet_gtab quiet_gtab2 q3)
qed

lemma dthreadwrap_return_ends:
  assumes "dthreadwrap_return ws nret pret t s = Inr (t', s')" "ws_lt ws \<in> ltab_inuse s"
  shows "ends (ws_lt ws) DTOP_RETCLEAN s s'"
proof -
  define s1 where "s1 = (if ws_native ws then upd_gtab (unat (lt_gtab_idx (ltab s ! ws_lt ws))) (\<lambda>gt. gt\<lparr>gt_ret := nret\<rparr>) s else s)"
  have q: "quiet s s1" by (simp add: s1_def quiet_gtab)
  obtain ws1 t1 where "dthreadcleanup ws1 t1 s1 = Inr (t', s')" "ws_lt ws1 = ws_lt ws"
    using assms(1) that [of "(if ws_native ws then ws else ws\<lparr>ws_pth_ret := pret\<rparr>)\<lparr>ws_returned := True\<rparr>"]
    by (simp add: dthreadwrap_return_def Let_def s1_def)
  then show ?thesis using ends_after [OF q] dthreadcleanup_ends [of ws1 t1 s1 t' s'] assms(2) quiet_inuse [OF q] by simp
qed

text \<open>The wrapper either ends the thread or runs the application in its slot.\<close>

lemma dthreadwrap_start_cases:
  assumes "dthreadwrap_start l t s = Inr (wo, t', s')" "l \<in> ltab_inuse s"
  shows "(wo = None \<and> (s' = s \<or> ends l DTOP_RETCLEAN s s')) \<or>
    (\<exists>ws. wo = Some ws \<and> quiet s s' \<and> ws_lt ws = l \<and> tls t' = Some l)"
proof -
  note r = retclean_after [OF assms(2)]
  have run: "\<exists>ws. wo' = Some ws \<and> quiet s s'' \<and> ws_lt ws = l \<and> tls t'' = tls t1"
    if "wrap_run l g dec t1 s1 = Inr (wo', t'', s'')" "quiet s s1" for g dec t1 s1 wo' t'' s''
  proof -
    let ?s2 = "upd_gtab g (\<lambda>gt. gt\<lparr>gt_ltab_idx := l, gt_has_ltab := True\<rparr>) s1"
    have q: "quiet s ?s2" using quiet_trans [OF that(2) quiet_gtab] by simp
    have "quiet s (upd_ltab l (\<lambda>lt. lt\<lparr>lt_pth_state := LT_RUNNING\<rparr>) ?s2)"
      by (rule quiet_trans [OF q quiet_pth_state]) (use quiet_inuse [OF q] assms(2) in auto)
    then show ?thesis using that(1) by (auto simp: wrap_run_def Let_def)
  qed
  let ?g = "unat (lt_gtab_idx (ltab s ! l))"
  let ?d = "dsps s ! unat (gt_disp_idx (gtab s ! ?g))"
  show ?thesis
  proof (cases "dt_argproc ?d")
    case None
    then show ?thesis using assms(1) r [OF _ quiet_refl, of LT_CANCELED]
      by (auto simp: dthreadwrap_start_def Let_def split: if_splits dest!: run [OF _ quiet_refl])
  next
    case (Some proc)
    obtain e a v where c: "proc DTHREAD_PROC_DECODE (Some (gt_arg (gtab s ! ?g))) (Some 0) = (e, a, v)" by (metis surj_pair)
    let ?s1 = "upd_gtab ?g (\<lambda>gt. gt\<lparr>gt_arg := (case a of None \<Rightarrow> gt_arg gt | Some a \<Rightarrow> a)\<rparr>) s"
    have q: "quiet s ?s1" by (rule quiet_gtab) simp
    show ?thesis using assms(1) Some c r [OF _ quiet_refl, of LT_CANCELED] r [OF _ q, of LT_CANCELED]
      by (auto simp: dthreadwrap_start_def Let_def call_proc_def split: if_splits dest!: run [OF _ q])
  qed
qed

lemma app0cleanup_ends: "app0cleanup t s = (t', s') \<Longrightarrow> 0 \<in> ltab_inuse s \<Longrightarrow> ends 0 DTOP_RETCLEAN s s'"
  using retclean_request_ends [of 0 s LT_CLEANUP] by (auto simp: app0cleanup_def)

lemma app0wrap_start_cases:
  assumes "app0wrap_start t s = (b, t', s')" "0 \<in> ltab_inuse s"
  shows "if b then s' = s \<and> tls t' = Some 0 else ends 0 DTOP_RETCLEAN s s'"
  using assms app0cleanup_ends [of t s] by (auto simp: app0wrap_start_def split: if_splits)

lemma app0wrap_return_ends:
  assumes "app0wrap_return e t s = (t', s')" "0 \<in> ltab_inuse s"
  shows "ends 0 DTOP_APP0_RET s s'"
proof -
  let ?s0 = "upd_mgr (\<lambda>m. m\<lparr>app0exitval := e\<rparr>) s"
  have q: "quiet s ?s0" by (simp add: quiet_def) (simp add: gview_def lview_def mgr_ops)
  then have "quiet ?s0 (upd_ltab 0 (\<lambda>lt. lt\<lparr>lt_pth_state := LT_RETURNED\<rparr>) ?s0)"
    using quiet_inuse [OF q] assms(2) by (intro quiet_pth_state) auto
  then show ?thesis using q quiet_trans assms(1) unfolding ends_def by (auto simp: app0wrap_return_def Let_def)
qed

end
