(* ===== verification/Dt_Rank.thy ===== *)
theory Dt_Rank
  imports Dt_Calls
begin

text \<open>
  A whole rank: its application threads, its manager and the queue side of its MPI thread,
  interleaved in any order over the shared state, with arbitrary messages arriving from
  the other ranks.  \<open>rank_step\<close> has one rule per step of one thread; the steps are the
  definitions of the component theories.  The invariant \<open>rank_inv\<close> says where the
  request of every slot is, for every phase in the life of the thread of that slot.
\<close>

subsection \<open>The threads of a rank\<close>

text \<open>
  The life of the thread of a slot.  \<open>Fresh\<close>: created by \<^verbatim>\<open>start_thread\<close>, \<open>Fresh0\<close>: created
  by \<^verbatim>\<open>mgr_startapp\<close>; \<open>Running\<close>: in the code of the application; \<open>Calling\<close>: blocked in a
  call, whose saved proc function is the second argument; \<open>Leaving\<close>: after
  \<^verbatim>\<open>dthread_exit\<close>; \<open>Over\<close>: after its wrapper; \<open>Absent\<close>: the slot is free.  The wrapper
  state is \<open>None\<close> for the main thread of the application.
\<close>

datatype tphase =
    Absent
  | Fresh
  | Fresh0
  | Running "dt_wrapstate option"
  | Calling api_call "dthread_proc_pth_t option" "dt_wrapstate option"
  | Leaving "dt_wrapstate option"
  | Over

text \<open>
  \<open>mgr_mqe\<close> and \<open>mgr_req\<close> are what the manager took from the queues and has not processed
  yet, \<open>held\<close> and \<open>infl\<close> the entries in the hands of the MPI thread for receiving and
  sending, \<open>lost\<close> the entries of truncated messages that the manager dropped.
\<close>

record rank_sys =
  rk :: dtrs
  phase :: "nat \<Rightarrow> tphase"
  thr :: "nat \<Rightarrow> app_thread"
  mgr_mqe :: "nat option"
  mgr_req :: "reqptr option"
  held :: "nat multiset"
  infl :: "nat multiset"
  lost :: "nat multiset"

text \<open>The thread of slot \<open>l\<close> makes a step.\<close>

definition moved :: "nat \<Rightarrow> tphase \<Rightarrow> app_thread \<Rightarrow> dtrs \<Rightarrow> rank_sys \<Rightarrow> rank_sys" where
  "moved l ph t s r = r\<lparr>rk := s, phase := (phase r)(l := ph), thr := (thr r)(l := t)\<rparr>"

text \<open>The manager may start or retire the thread of a slot.\<close>

definition next_phase :: "dtrs \<Rightarrow> dtrs \<Rightarrow> (nat \<Rightarrow> tphase) \<Rightarrow> nat \<Rightarrow> tphase" where
  "next_phase s s' ph l = (if l \<notin> ltab_inuse s' then Absent else if l \<notin> ltab_inuse s then Fresh else ph l)"

text \<open>
  The steps of the thread of slot \<open>l\<close>: its phase, what it knows of itself and the state of
  the rank, before and after.  A new thread is in any state \<open>t\<close>, which stands for the
  answers that the pthread library will give it.
\<close>

inductive thread_step ::
    "nat \<Rightarrow> tphase \<Rightarrow> app_thread \<Rightarrow> dtrs \<Rightarrow> tphase \<Rightarrow> app_thread \<Rightarrow> dtrs \<Rightarrow> bool" for l :: nat where
  wrap: "dthreadwrap_start l t s = Inr (Some ws, t', s') \<Longrightarrow> thread_step l Fresh t0 s (Running (Some ws)) t' s'"
| wrap_fails: "dthreadwrap_start l t s = Inr (None, t', s') \<Longrightarrow> thread_step l Fresh t0 s Over t' s'"
| wrap0: "app0wrap_start t s = (True, t', s') \<Longrightarrow> thread_step l Fresh0 t0 s (Running None) t' s'"
| wrap0_fails: "app0wrap_start t s = (False, t', s') \<Longrightarrow> thread_step l Fresh0 t0 s Over t' s'"
| call: "start_call a t s = (Some e, t', s') \<Longrightarrow> thread_step l (Running w) t s (Running w) t' s'"
| call_waits: "start_call a t s = (None, t', s') \<Longrightarrow> thread_step l (Running w) t s (Calling a (saved_proc a s) w) t' s'"
| call_returns: "finish_call a p (Ltab_req l) t s = Some (rv, t', s') \<Longrightarrow>
     thread_step l (Calling a p w) t s (Running w) t' s'"
| exits: "dthread_exit_common native ret v t s = Inr (Some (t', s')) \<Longrightarrow> thread_step l (Running w) t s (Leaving w) t' s'"
| cleanup: "ph \<in> {Running (Some ws), Leaving (Some ws)} \<Longrightarrow> dthreadcleanup ws t s = Inr (t', s') \<Longrightarrow>
     thread_step l ph t s Over t' s'"
| cleanup0: "ph \<in> {Running None, Leaving None} \<Longrightarrow> app0cleanup t s = (t', s') \<Longrightarrow> thread_step l ph t s Over t' s'"
| returns: "dthreadwrap_return ws nret pret t s = Inr (t', s') \<Longrightarrow> thread_step l (Running (Some ws)) t s Over t' s'"
| returns0: "app0wrap_return exitval t s = (t', s') \<Longrightarrow> thread_step l (Running None) t s Over t' s'"

text \<open>The steps of a rank.\<close>

inductive rank_step :: "rank_sys \<Rightarrow> rank_sys \<Rightarrow> bool" where
  thread: "l < nmaxthread (rk r) \<Longrightarrow> thread_step l (phase r l) (thr r l) (rk r) ph t s' \<Longrightarrow> rank_step r (moved l ph t s' r)"
| check: "mgr_mqe r = None \<Longrightarrow> mgr_req r = None \<Longrightarrow> rank_step r (r\<lparr>rk := mgr_check (rk r)\<rparr>)"
| wait: "mgr_mqe r = None \<Longrightarrow> mgr_req r = None \<Longrightarrow> \<not> mgr_blocked (dtq (rk r)) \<Longrightarrow>
     rank_step r (r\<lparr>rk := (rk r)\<lparr>dtq := dtq_notifywait_enter (dtq (rk r))\<rparr>\<rparr>)"
| wakeup: "rank_step r (r\<lparr>rk := (rk r)\<lparr>dtq := (dtq (rk r))\<lparr>mgr_blocked := False\<rparr>\<rparr>\<rparr>)"
| take: "mgr_mqe r = None \<Longrightarrow> mgr_req r = None \<Longrightarrow> \<not> mgr_blocked (dtq (rk r)) \<Longrightarrow>
     dtq_notifywait_finish (dtq (rk r)) = (m, q, d) \<Longrightarrow>
     rank_step r (r\<lparr>rk := (rk r)\<lparr>dtq := d\<rparr>, mgr_mqe := m, mgr_req := q\<rparr>)"
| message: "mgr_mqe r = Some m \<Longrightarrow> process_mqe m (rk r) = Inr s' \<Longrightarrow>
     rank_step r (r\<lparr>rk := s', phase := next_phase (rk r) s' (phase r), mgr_mqe := None,
       lost := lost r + (if unreleased_runt (rk r) (mqes (rk r) m) then {#m#} else {#})\<rparr>)"
| request: "mgr_mqe r = None \<Longrightarrow> mgr_req r = Some q \<Longrightarrow> process_req q (rk r) = Inr s' \<Longrightarrow>
     rank_step r (r\<lparr>rk := s', phase := next_phase (rk r) s' (phase r), mgr_req := None\<rparr>)"
| mpi_send: "dtq_send_dequeue (dtq (rk r)) = (Some m, d) \<Longrightarrow>
     rank_step r (r\<lparr>rk := (rk r)\<lparr>dtq := d\<rparr>, infl := add_mset m (infl r)\<rparr>)"
| mpi_sent: "m \<in># infl r \<Longrightarrow>
     rank_step r (r\<lparr>rk := (rk r)\<lparr>dtq := dtq_send_release m (dtq (rk r))\<rparr>, infl := infl r - {#m#}\<rparr>)"
| mpi_alloc: "mqe_alloc (rk r) = (m, s') \<Longrightarrow>
     rank_step r (r\<lparr>rk := s', held := held r + (case m of None \<Rightarrow> {#} | Some e \<Rightarrow> {#e#})\<rparr>)"
| mpi_recv: "m \<in># held r \<Longrightarrow>
     rank_step r (r\<lparr>rk := (upd_mqe m (\<lambda>_. e) (rk r))\<lparr>dtq := dtq_recv_enqueue m (dtq (rk r))\<rparr>, held := held r - {#m#}\<rparr>)"
| mpi_free: "m \<in># held r \<Longrightarrow>
     rank_step r (r\<lparr>rk := (upd_mqe m (\<lambda>_. e) (rk r))\<lparr>dtq := dtq_mqe_unalloc m (dtq (rk r))\<rparr>, held := held r - {#m#}\<rparr>)"
| other_rank: "length g = length (gtab (rk r)) \<Longrightarrow>
     mpi_rank (rk r) = 0 \<longrightarrow> map gt_allocated g = map gt_allocated (gtab (rk r)) \<Longrightarrow>
     rank_step r (r\<lparr>rk := (rk r)\<lparr>gtab := g\<rparr>\<rparr>)"

text \<open>
  The states of a rank that starts with the malloc outcomes \<open>env\<close>: rank 0 after
  \<^verbatim>\<open>mgr_startapp\<close> has created the main thread of the application, the others as
  \<^verbatim>\<open>dthread_run\<close> leaves them.
\<close>

definition rank_start :: "dtrs \<Rightarrow> (nat \<Rightarrow> tphase) \<Rightarrow> (nat \<Rightarrow> app_thread) \<Rightarrow> rank_sys" where
  "rank_start s ph ts = \<lparr>rk = s, phase = ph, thr = ts, mgr_mqe = None, mgr_req = None, held = {#}, infl = {#}, lost = {#}\<rparr>"

inductive rank_reach :: "bool list \<Rightarrow> rank_sys \<Rightarrow> bool" for env :: "bool list" where
  start: "0 < n \<Longrightarrow> rank_reach env (rank_start (dtrs_init rank w ds n env pths jk) (\<lambda>_. Absent) ts)"
| start0: "0 < n \<Longrightarrow> mgr_startapp arg (dtrs_init 0 w ds n env pths jk) = Inr (0, s) \<Longrightarrow>
     rank_reach env (rank_start s ((\<lambda>_. Absent)(0 := Fresh0)) ts)"
| step: "rank_reach env r \<Longrightarrow> rank_step r r' \<Longrightarrow> rank_reach env r'"

subsection \<open>Where the request of a slot is\<close>

definition queued :: "rank_sys \<Rightarrow> reqptr list" where
  "queued r = (case mgr_req r of None \<Rightarrow> [] | Some q \<Rightarrow> [q]) @ mgrreqq (dtq (rk r))"

abbreviation pending :: "dtrs \<Rightarrow> nat \<Rightarrow> bool" where
  "pending s l \<equiv> Ltab_req l \<in> set (rpending (mgrstate s))"

definition ws_ok :: "nat \<Rightarrow> dt_wrapstate option \<Rightarrow> bool" where
  "ws_ok l w \<longleftrightarrow> (case w of None \<Rightarrow> l = 0 | Some ws \<Rightarrow> ws_lt ws = l)"

fun phase_ok :: "tphase \<Rightarrow> app_thread \<Rightarrow> nat \<Rightarrow> dthread_request_t \<Rightarrow> bool \<Rightarrow> bool \<Rightarrow> bool" where
  "phase_ok Absent t l q pend use \<longleftrightarrow> \<not> use \<and> reqstate q = DTREQ_IDLE"
| "phase_ok Fresh t l q pend use \<longleftrightarrow> use \<and> reqstate q = DTREQ_IDLE"
| "phase_ok Fresh0 t l q pend use \<longleftrightarrow> use \<and> reqstate q = DTREQ_IDLE \<and> l = 0"
| "phase_ok (Running w) t l q pend use \<longleftrightarrow> use \<and> reqstate q = DTREQ_IDLE \<and> tls t = Some l \<and> ws_ok l w"
| "phase_ok (Leaving w) t l q pend use \<longleftrightarrow> use \<and> reqstate q = DTREQ_IDLE \<and> tls t = Some l \<and> ws_ok l w"
| "phase_ok (Calling a p w) t l q pend use \<longleftrightarrow> use \<and> tls t = Some l \<and> ws_ok l w \<and>
     (reqstate q = DTREQ_BUSY \<and> reqop q = call_op a \<or> reqstate q = DTREQ_DONE)"
| "phase_ok Over t l q pend use \<longleftrightarrow> use \<and>
     (reqstate q = DTREQ_IDLE \<or> reqstate q = DTREQ_BUSY \<and> \<not> pend \<and> reqop q \<in> {DTOP_RETCLEAN, DTOP_APP0_RET})"

text \<open>
  A busy request is in exactly one place: in the hands of the manager, on its queue, or
  pending for a reply.  It has a message exactly until the manager forwards it.
\<close>

definition slot_ok :: "tphase \<Rightarrow> app_thread \<Rightarrow> nat \<Rightarrow> dthread_request_t \<Rightarrow> bool \<Rightarrow> nat \<Rightarrow> bool \<Rightarrow> bool" where
  "slot_ok ph t l q pend n use \<longleftrightarrow> req_ltabidx q = int l \<and>
     n + (if pend then 1 else 0) = (if reqstate q = DTREQ_BUSY then 1 else 0 :: nat) \<and>
     (req_mqe q \<noteq> None \<longleftrightarrow> n = 1 \<and> reqop q \<in> reply_ops) \<and> phase_ok ph t l q pend use"

definition slot_inv :: "rank_sys \<Rightarrow> nat \<Rightarrow> bool" where
  "slot_inv r l \<longleftrightarrow> slot_ok (phase r l) (thr r l) l (lt_req (ltab (rk r) ! l)) (pending (rk r) l)
     (count_list (queued r) (Ltab_req l)) (l \<in> ltab_inuse (rk r))"

text \<open>Pending requests of the same operation have different transaction numbers.\<close>

definition xid_uniq :: "dtrs \<Rightarrow> bool" where
  "xid_uniq s \<longleftrightarrow> (\<forall>i < nmaxthread s. \<forall>j < nmaxthread s. i \<noteq> j \<longrightarrow> pending s i \<longrightarrow> pending s j \<longrightarrow>
     reqop (lt_req (ltab s ! i)) = reqop (lt_req (ltab s ! j)) \<longrightarrow>
     xidseq (lt_req (ltab s ! i)) \<noteq> xidseq (lt_req (ltab s ! j)))"

definition rank_inv :: "rank_sys \<Rightarrow> bool" where
  "rank_inv r \<longleftrightarrow> mgr_inv_held {#} (rk r) \<and> (\<forall>q \<in> set (queued r). \<exists>l < nmaxthread (rk r). q = Ltab_req l) \<and>
     (\<forall>l < nmaxthread (rk r). slot_inv r l) \<and> xid_uniq (rk r)"

subsection \<open>Steps of application threads\<close>

text \<open>A step that touches no slot but \<open>l\<close>.\<close>

definition local_step :: "nat \<Rightarrow> dtrs \<Rightarrow> dtrs \<Rightarrow> bool" where
  "local_step l s s' \<longleftrightarrow> gview s' = gview s \<and> lview s' = lview s \<and> rpending (mgrstate s') = rpending (mgrstate s) \<and>
     reqfree (dtq s') = reqfree (dtq s) \<and> nreq (dtq s') = nreq (dtq s) \<and> ireqs s' = ireqs s \<and>
     (\<forall>j < length (ltab s). j \<noteq> l \<longrightarrow> lt_req (ltab s' ! j) = lt_req (ltab s ! j))"

lemma local_stepD:
  assumes "local_step l s s'"
  shows "length (ltab s') = length (ltab s)" "nmaxthread s' = nmaxthread s" "ltab_inuse s' = ltab_inuse s"
    "pending s' j \<longleftrightarrow> pending s j" "j < length (ltab s) \<Longrightarrow> j \<noteq> l \<Longrightarrow> lt_req (ltab s' ! j) = lt_req (ltab s ! j)"
proof -
  have v: "lview s' = lview s" using assms by (simp add: local_step_def)
  then have "map (\<lambda>l. lt_pth_state l \<noteq> LT_NONE) (ltab s') = map (\<lambda>l. lt_pth_state l \<noteq> LT_NONE) (ltab s)" by (simp add: lview_def)
  then show "length (ltab s') = length (ltab s)" by (rule map_eq_imp_length_eq)
  show "nmaxthread s' = nmaxthread s" using v by (simp add: lview_def)
  show "ltab_inuse s' = ltab_inuse s" using v by (rule ltab_ok_lview(2))
  show "pending s' j \<longleftrightarrow> pending s j" "j < length (ltab s) \<Longrightarrow> j \<noteq> l \<Longrightarrow> lt_req (ltab s' ! j) = lt_req (ltab s ! j)"
    using assms by (simp_all add: local_step_def)
qed

lemma local_step_inv:
  assumes "mgr_inv_held {#} s" "local_step l s s'" "\<not> pending s l"
    and "l < length (ltab s) \<Longrightarrow> reqstate (lt_req (ltab s' ! l)) \<noteq> DTREQ_INTERNAL"
  shows "mgr_inv_held {#} s'"
proof -
  note d = local_stepD [OF assms(2)]
  have "pend_ok s' p" if "p \<in> set (rpending (mgrstate s))" for p
  proof -
    have "pend_ok s p" using pend_ok_of_inv [OF assms(1) that] .
    moreover have "get_req s' p = get_req s p"
    proof (cases p)
      case (Ltab_req i)
      then show ?thesis using \<open>pend_ok s p\<close> assms(3) that d(5) [of i] by (cases "i = l") (auto simp: pend_ok_def)
    qed (use assms(2) in \<open>simp add: local_step_def\<close>)
    ultimately show ?thesis using d(1,2) by (cases p) (simp_all add: pend_ok_def)
  qed
  moreover have "reqstate (lt_req (ltab s' ! i)) \<noteq> DTREQ_INTERNAL" if "i < length (ltab s)" for i
    using assms(1,4) d(5) [OF that] that by (cases "i = l") (auto simp: mgr_inv_held_def req_inv_def)
  moreover have "tables_ok s'" using assms(1,2) tables_ok_views [of s' s] by (simp add: mgr_inv_held_def local_step_def)
  ultimately show ?thesis using assms(1,2) d(1) by (simp add: mgr_inv_held_def req_inv_def local_step_def)
qed

lemma slot_ok_state: "slot_ok ph t l q pend n use \<Longrightarrow> reqstate q \<noteq> DTREQ_INTERNAL"
  by (cases ph) (auto simp: slot_ok_def)

lemma rank_inv_len: "rank_inv r \<Longrightarrow> length (ltab (rk r)) = nmaxthread (rk r)"
  by (simp add: rank_inv_def mgr_inv_held_def tables_ok_def ltab_ok_def)

lemma rank_inv_slot: "rank_inv r \<Longrightarrow> l < nmaxthread (rk r) \<Longrightarrow> slot_inv r l"
  by (simp add: rank_inv_def)

lemma moved_inv:
  assumes "rank_inv r" "l < nmaxthread (rk r)" "local_step l (rk r) s'" "\<not> pending (rk r) l"
    and q: "mgrreqq (dtq s') = mgrreqq (dtq (rk r)) @ (if b then [Ltab_req l] else [])"
    and slot: "slot_ok ph t l (lt_req (ltab s' ! l)) False (count_list (queued r) (Ltab_req l) + (if b then 1 else 0))
      (l \<in> ltab_inuse (rk r))"
  shows "rank_inv (moved l ph t s' r)"
proof -
  let ?r = "moved l ph t s' r"
  note d = local_stepD [OF assms(3)] and len = rank_inv_len [OF assms(1)]
  have rk: "rk ?r = s'" "phase ?r = (phase r)(l := ph)" "thr ?r = (thr r)(l := t)" by (simp_all add: moved_def)
  have Q: "queued ?r = queued r @ (if b then [Ltab_req l] else [])" using q by (simp add: queued_def moved_def)
  have "mgr_inv_held {#} s'"
    using local_step_inv [OF _ assms(3,4) slot_ok_state [OF slot]] assms(1) by (simp add: rank_inv_def)
  moreover have "\<forall>q \<in> set (queued ?r). \<exists>l < nmaxthread s'. q = Ltab_req l"
    using assms(1,2) d(2) by (auto simp: Q rank_inv_def)
  moreover have "slot_inv ?r j" if "j < nmaxthread s'" for j
  proof (cases "j = l")
    case True
    then show ?thesis using slot d(3) assms(4) d(4) [of l] by (cases b) (simp_all add: slot_inv_def rk Q)
  next
    case False
    then show ?thesis using rank_inv_slot [OF assms(1), of j] that d len
      by (cases b) (simp_all add: slot_inv_def rk Q)
  qed
  moreover have "xid_uniq s'"
  proof -
    have "lt_req (ltab s' ! i) = lt_req (ltab (rk r) ! i)" if "i < nmaxthread (rk r)" "pending (rk r) i" for i
      using d(5) [of i] that assms(4) len by (cases "i = l") auto
    then show ?thesis using assms(1) d by (auto simp: rank_inv_def xid_uniq_def)
  qed
  ultimately show ?thesis by (simp add: rank_inv_def rk)
qed

text \<open>A thread whose request is idle has no part of it anywhere.\<close>

lemma slot_idle:
  assumes "slot_inv r l" "reqstate (lt_req (ltab (rk r) ! l)) \<noteq> DTREQ_BUSY"
  shows "\<not> pending (rk r) l" "count_list (queued r) (Ltab_req l) = 0" "req_mqe (lt_req (ltab (rk r) ! l)) = None"
    "req_ltabidx (lt_req (ltab (rk r) ! l)) = int l"
  using assms by (auto simp: slot_inv_def slot_ok_def split: if_splits)

lemma quiet_local:
  assumes "quiet s s'"
  shows "local_step l s s' \<and> mgrreqq (dtq s') = mgrreqq (dtq s) \<and> (\<forall>j < length (ltab s). lt_req (ltab s' ! j) = lt_req (ltab s ! j))"
  using assms rview_get_req [of s' s] by (simp add: quiet_def local_step_def) (simp add: rview_def)

lemma at_once_local:
  assumes "returns_at_once s s'"
  shows "local_step l s s' \<and> mgrreqq (dtq s') = mgrreqq (dtq s) \<and> (\<forall>j < length (ltab s). lt_req (ltab s' ! j) = lt_req (ltab s ! j))"
proof -
  have "gview s' = gview s" "lview s' = lview s" "rview s' = rview s"
    using assms view_mqe_alloc rview_mqe_alloc by (auto simp: returns_at_once_def)
  then show ?thesis using rview_get_req [of s' s] by (simp add: local_step_def) (simp add: rview_def)
qed

lemma upd_local: "local_step l s (upd_req (Ltab_req l) f s)"
  by (simp add: local_step_def view_upd_req del: upd_req.simps) simp

lemma enqueue_fields [simp]:
  "mgrreqq (dtq_req_enqueue q d) = mgrreqq d @ [q]" "reqfree (dtq_req_enqueue q d) = reqfree d" "nreq (dtq_req_enqueue q d) = nreq d"
  by (simp_all add: dtq_ops Let_def)

lemma local_trans:
  assumes "local_step l s s1" "local_step l s1 s2"
  shows "local_step l s s2"
  using assms local_stepD(1) [OF assms(1)] by (auto simp: local_step_def)

lemma local_enqueue: "local_step l s (s\<lparr>dtq := dtq_req_enqueue q (dtq s)\<rparr>)"
  by (simp add: local_step_def)

lemma ends_local:
  assumes "ends l op s s'" "l < length (ltab s)"
  shows "local_step l s s'" "mgrreqq (dtq s') = mgrreqq (dtq s) @ [Ltab_req l]"
    "lt_req (ltab s' ! l) = (lt_req (ltab s ! l))\<lparr>reqstate := DTREQ_BUSY, reqpeer := 0, reqop := op, req_mqe := None\<rparr>"
proof -
  obtain s1 where s1: "quiet s s1" "s' = post_final l op s1" using assms(1) by (auto simp: ends_def)
  note q = quiet_local [OF s1(1), of l]
  let ?s2 = "upd_req (Ltab_req l) (\<lambda>q. q\<lparr>reqstate := DTREQ_BUSY, reqpeer := 0, reqop := op, req_mqe := None\<rparr>) s1"
  have s': "s' = ?s2\<lparr>dtq := dtq_req_enqueue (Ltab_req l) (dtq ?s2)\<rparr>" using s1(2) by (simp only: post_final_def Let_def)
  have "local_step l s s1" using q by simp
  then show "local_step l s s'" unfolding s' using local_trans upd_local local_enqueue by blast
  have len: "length (ltab s1) = length (ltab s)" using q local_stepD(1) by blast
  show "mgrreqq (dtq s') = mgrreqq (dtq s) @ [Ltab_req l]" unfolding s' using q by simp
  show "lt_req (ltab s' ! l) = (lt_req (ltab s ! l))\<lparr>reqstate := DTREQ_BUSY, reqpeer := 0, reqop := op, req_mqe := None\<rparr>"
    unfolding s' using q len assms(2) by simp
qed

lemma posts_local:
  assumes "posts l op s s'" "l < length (ltab s)"
  shows "local_step l s s'" "mgrreqq (dtq s') = mgrreqq (dtq s) @ [Ltab_req l]"
    "reqstate (lt_req (ltab s' ! l)) = DTREQ_BUSY" "reqop (lt_req (ltab s' ! l)) = op" "req_mqe (lt_req (ltab s' ! l)) \<noteq> None"
    "req_ltabidx (lt_req (ltab s' ! l)) = req_ltabidx (lt_req (ltab s ! l))"
proof -
  obtain m s1 body to f where a: "mqe_alloc s = (Some m, s1)"
    and f: "\<And>q. reqstate (f q) = reqstate q \<and> reqop (f q) = reqop q \<and> req_mqe (f q) = req_mqe q \<and>
             req_ltabidx (f q) = req_ltabidx q \<and> reqerror (f q) = reqerror q"
    and s': "s' = post_req (Ltab_req l) op m f (setup_msg m body to s1)"
    using assms(1) unfolding posts_def by blast
  let ?s2 = "setup_msg m body to s1"
  let ?f = "\<lambda>q. f (q\<lparr>reqstate := DTREQ_BUSY, reqpeer := peer (mqes ?s2 m), reqop := op, req_mqe := Some m, reqerror := 0\<rparr>)"
  let ?s3 = "upd_req (Ltab_req l) ?f ?s2"
  have s': "s' = ?s3\<lparr>dtq := dtq_req_enqueue (Ltab_req l) (dtq ?s3)\<rparr>" using s' by (simp only: post_req_def Let_def)
  have v: "gview ?s2 = gview s" "lview ?s2 = lview s" "rview ?s2 = rview s"
    using view_mqe_alloc [OF a] rview_mqe_alloc [OF a] unfolding setup_msg_def by simp_all
  have l2: "local_step l s ?s2" "mgrreqq (dtq ?s2) = mgrreqq (dtq s)" "\<forall>j < length (ltab s). lt_req (ltab ?s2 ! j) = lt_req (ltab s ! j)"
    using v rview_get_req [OF v(3)] by (simp_all add: local_step_def) (simp_all add: rview_def)
  show "local_step l s s'" unfolding s' using l2(1) local_trans upd_local local_enqueue by blast
  show "mgrreqq (dtq s') = mgrreqq (dtq s) @ [Ltab_req l]" unfolding s' using l2(2) by simp
  have "lt_req (ltab s' ! l) = ?f (lt_req (ltab s ! l))"
    unfolding s' using l2(3) assms(2) local_stepD(1) [OF l2(1)] by simp
  then show "reqstate (lt_req (ltab s' ! l)) = DTREQ_BUSY" "reqop (lt_req (ltab s' ! l)) = op"
    "req_mqe (lt_req (ltab s' ! l)) \<noteq> None" "req_ltabidx (lt_req (ltab s' ! l)) = req_ltabidx (lt_req (ltab s ! l))"
    using f by simp_all
qed

lemma call_op_cases:
  "(\<exists>a p w. P a p w \<and> op = call_op a) \<or> (Q \<and> op \<in> {DTOP_RETCLEAN, DTOP_APP0_RET}) \<Longrightarrow>
     op \<in> {DTOP_CREATE, DTOP_DETACH, DTOP_CANCEL, DTOP_JOIN, DTOP_RETCLEAN, DTOP_APP0_RET}"
proof (elim disjE exE conjE)
  fix a p w
  assume "op = call_op a"
  then show ?thesis using call_op_reply [of a] by auto
qed simp

text \<open>The four ways a thread moves on.\<close>

lemma moved_kept:
  assumes "rank_inv r" "l < nmaxthread (rk r)" "reqstate (lt_req (ltab (rk r) ! l)) = DTREQ_IDLE"
    and "local_step l (rk r) s' \<and> mgrreqq (dtq s') = mgrreqq (dtq (rk r)) \<and>
      (\<forall>j < length (ltab (rk r)). lt_req (ltab s' ! j) = lt_req (ltab (rk r) ! j))"
    and "phase_ok ph t l (lt_req (ltab (rk r) ! l)) False (l \<in> ltab_inuse (rk r))"
  shows "rank_inv (moved l ph t s' r)"
proof -
  note i = slot_idle [OF rank_inv_slot [OF assms(1,2)]] and len = rank_inv_len [OF assms(1)]
  show ?thesis
    by (rule moved_inv [OF assms(1,2), where b = False]) (use assms i len in \<open>simp_all add: slot_ok_def\<close>)
qed

lemma moved_ends:
  assumes "rank_inv r" "l < nmaxthread (rk r)" "reqstate (lt_req (ltab (rk r) ! l)) = DTREQ_IDLE"
    and "l \<in> ltab_inuse (rk r)" "ends l op (rk r) s'" "op \<in> {DTOP_RETCLEAN, DTOP_APP0_RET}"
  shows "rank_inv (moved l Over t s' r)"
proof -
  have l: "l < length (ltab (rk r))" using assms(1,2) rank_inv_len by simp
  note i = slot_idle [OF rank_inv_slot [OF assms(1,2)]] and e = ends_local [OF assms(5) l]
  show ?thesis
    by (rule moved_inv [OF assms(1,2) e(1), where b = True]) (use assms i e in \<open>auto simp: slot_ok_def\<close>)
qed

lemma moved_posts:
  assumes "rank_inv r" "l < nmaxthread (rk r)" "phase r l = Running w" "posts l (call_op a) (rk r) s'" "tls t = Some l"
  shows "rank_inv (moved l (Calling a p w) t s' r)"
proof -
  have l: "l < length (ltab (rk r))" using assms(1,2) rank_inv_len by simp
  note si = rank_inv_slot [OF assms(1,2)] and e = posts_local [OF assms(4) l]
  have idle: "reqstate (lt_req (ltab (rk r) ! l)) = DTREQ_IDLE" "l \<in> ltab_inuse (rk r)" "ws_ok l w"
    using si assms(3) by (simp_all add: slot_inv_def slot_ok_def)
  note i = slot_idle [OF si]
  show ?thesis
    by (rule moved_inv [OF assms(1,2) e(1), where b = True])
      (use assms(5) idle i e call_op_reply [of a] in \<open>simp_all add: slot_ok_def\<close>)
qed

lemma moved_finish:
  assumes "rank_inv r" "l < nmaxthread (rk r)" "phase r l = Calling a p w" "tls t = Some l"
    and "reqstate (lt_req (ltab (rk r) ! l)) \<noteq> DTREQ_BUSY" "s' = upd_req (Ltab_req l) (\<lambda>q. q\<lparr>reqstate := DTREQ_IDLE\<rparr>) (rk r)"
  shows "rank_inv (moved l (Running w) t s' r)"
proof -
  have l: "l < length (ltab (rk r))" using assms(1,2) rank_inv_len by simp
  note si = rank_inv_slot [OF assms(1,2)]
  have ph: "l \<in> ltab_inuse (rk r)" "ws_ok l w" using si assms(3) by (simp_all add: slot_inv_def slot_ok_def)
  note i = slot_idle [OF si assms(5)]
  have q: "lt_req (ltab s' ! l) = (lt_req (ltab (rk r) ! l))\<lparr>reqstate := DTREQ_IDLE\<rparr>" using l assms(6) by simp
  have ls: "local_step l (rk r) s'" "mgrreqq (dtq s') = mgrreqq (dtq (rk r))" unfolding assms(6) by (rule upd_local) simp
  show ?thesis
    by (rule moved_inv [OF assms(1,2) ls(1), where b = False]) (use assms(4) i ph q ls(2) in \<open>simp_all add: slot_ok_def\<close>)
qed

subsection \<open>Steps of the manager and of the MPI thread\<close>

text \<open>Steps that touch no slot.\<close>

lemma unmoved_inv:
  assumes "rank_inv r" "\<And>l. local_step l (rk r) (rk r')" "queued r' = queued r" "phase r' = phase r" "thr r' = thr r"
  shows "rank_inv r'"
proof -
  let ?n = "length (ltab (rk r))"
  note d = local_stepD [OF assms(2)]
  have req: "lt_req (ltab (rk r') ! j) = lt_req (ltab (rk r) ! j)" if "j < ?n" for j
    using d(5) [of j "Suc j"] that by simp
  have inv: "mgr_inv_held {#} (rk r)" using assms(1) by (simp add: rank_inv_def)
  have "\<not> pending (rk r) ?n" using pend_ok_of_inv [OF inv, of "Ltab_req ?n"] by (auto simp: pend_ok_def)
  then have "mgr_inv_held {#} (rk r')" by (rule local_step_inv [OF inv assms(2)]) simp
  moreover have "\<forall>l < nmaxthread (rk r). slot_inv r' l"
    using assms(1) rank_inv_len [OF assms(1)] req d assms(3-5) by (simp add: rank_inv_def slot_inv_def)
  moreover have "xid_uniq (rk r')"
    using assms(1) rank_inv_len [OF assms(1)] req d by (simp add: rank_inv_def xid_uniq_def)
  ultimately show ?thesis using assms(1,3) d(2) by (simp add: rank_inv_def)
qed

lemma local_dtq: "reqfree d = reqfree (dtq s) \<Longrightarrow> nreq d = nreq (dtq s) \<Longrightarrow> local_step l s (s\<lparr>dtq := d\<rparr>)"
  by (simp add: local_step_def)

lemma local_views: "gview s' = gview s \<Longrightarrow> lview s' = lview s \<Longrightarrow> rview s' = rview s \<Longrightarrow> local_step l s s'"
  using rview_get_req [of s' s] by (simp add: local_step_def) (simp add: rview_def)

lemma mgr_check_views:
  "gview (mgr_check s) = gview s" "lview (mgr_check s) = lview s" "rview (mgr_check s) = rview s"
  by (simp_all add: mgr_check_def)

lemma next_phase_same:
  assumes "slot_inv r l" "l \<in> ltab_inuse s' \<longleftrightarrow> l \<in> ltab_inuse (rk r)"
  shows "next_phase (rk r) s' (phase r) l = phase r l"
  using assms by (cases "phase r l") (auto simp: next_phase_def slot_inv_def slot_ok_def)

lemma message_inv:
  assumes "rank_inv r" "process_mqe m (rk r) = Inr s'"
  shows "rank_inv (r\<lparr>rk := s', phase := next_phase (rk r) s' (phase r), mgr_mqe := None, lost := x\<rparr>)" (is "rank_inv ?r")
proof -
  have inv: "mgr_inv_held {#} (rk r)" using assms(1) by (simp add: rank_inv_def)
  have ms: "msg_slots (rk r) s'" by (rule process_mqe_slots [OF inv assms(2)])
  then have d: "nmaxthread s' = nmaxthread (rk r)" "mgrreqq (dtq s') = mgrreqq (dtq (rk r))" "ltab_inuse (rk r) \<subseteq> ltab_inuse s'"
    and kept: "\<And>i. i < nmaxthread (rk r) \<Longrightarrow> slot_kept i (rk r) s' \<or> slot_answered i (rk r) s'"
    using rank_inv_len [OF assms(1)] by (auto simp: msg_slots_def)
  have Q: "queued ?r = queued r" using d(2) by (simp add: queued_def)
  have "slot_inv ?r i" if i: "i < nmaxthread (rk r)" for i
  proof -
    note si = rank_inv_slot [OF assms(1) i]
    from kept [OF i] show ?thesis
    proof
      assume k: "slot_kept i (rk r) s'"
      show ?thesis
      proof (cases "i \<in> ltab_inuse s' \<longleftrightarrow> i \<in> ltab_inuse (rk r)")
        case True
        then show ?thesis using si k next_phase_same [OF si True] by (simp add: slot_inv_def Q slot_kept_def)
      next
        case False
        then have "i \<in> ltab_inuse s'" "i \<notin> ltab_inuse (rk r)" using d(3) by auto
        then show ?thesis using si k
          by (cases "phase r i") (simp_all add: slot_inv_def Q slot_kept_def next_phase_def slot_ok_def)
      qed
    next
      assume a: "slot_answered i (rk r) s'"
      then have busy: "reqstate (lt_req (ltab (rk r) ! i)) = DTREQ_BUSY" "count_list (queued r) (Ltab_req i) = 0"
        using si by (auto simp: slot_inv_def slot_ok_def slot_answered_def split: if_splits)
      have "i \<in> ltab_inuse (rk r)" using si busy by (cases "phase r i") (auto simp: slot_inv_def slot_ok_def)
      then have "next_phase (rk r) s' (phase r) i = phase r i" using next_phase_same [OF si] d(3) by blast
      then show ?thesis using si a busy d(3)
        by (cases "phase r i") (auto simp: slot_inv_def Q slot_answered_def slot_ok_def)
    qed
  qed
  moreover have "xid_uniq s'"
  proof -
    have "pending (rk r) i \<and> lt_req (ltab s' ! i) = lt_req (ltab (rk r) ! i)" if "i < nmaxthread (rk r)" "pending s' i" for i
      using kept [OF that(1)] that(2) by (auto simp: slot_kept_def slot_answered_def)
    then show ?thesis using assms(1) d(1) by (simp add: rank_inv_def xid_uniq_def)
  qed
  ultimately show ?thesis using process_mqe_inv [OF inv assms(2)] d(1) assms(1) by (simp add: rank_inv_def Q)
qed

lemma find_pending_None:
  "find_pending_req op x s = None \<Longrightarrow> pending s j \<Longrightarrow> reqop (lt_req (ltab s ! j)) = op \<Longrightarrow> xidseq (lt_req (ltab s ! j)) \<noteq> x"
  by (auto simp: find_pending_req_def find_None_iff dest!: spec [of _ "Ltab_req j"])

lemma request_inv:
  assumes "rank_inv r" "mgr_req r = Some q" "process_req q (rk r) = Inr s'"
  shows "rank_inv (r\<lparr>rk := s', phase := next_phase (rk r) s' (phase r), mgr_req := None\<rparr>)" (is "rank_inv ?r")
proof -
  have inv: "mgr_inv_held {#} (rk r)" using assms(1) by (simp add: rank_inv_def)
  obtain i where i: "q = Ltab_req i" "i < nmaxthread (rk r)" using assms(1,2) by (auto simp: rank_inv_def queued_def)
  note si = rank_inv_slot [OF assms(1) i(2)]
  have n1: "count_list (queued r) (Ltab_req i) \<noteq> 0" using assms(2) i(1) by (simp add: queued_def)
  then have b: "reqstate (lt_req (ltab (rk r) ! i)) = DTREQ_BUSY" "\<not> pending (rk r) i"
      "count_list (queued r) (Ltab_req i) = 1" "req_ltabidx (lt_req (ltab (rk r) ! i)) = int i"
    using si by (auto simp: slot_inv_def slot_ok_def split: if_splits)
  have ph: "(\<exists>a p w. phase r i = Calling a p w \<and> reqop (lt_req (ltab (rk r) ! i)) = call_op a) \<or>
      (phase r i = Over \<and> reqop (lt_req (ltab (rk r) ! i)) \<in> {DTOP_RETCLEAN, DTOP_APP0_RET})"
    and use: "i \<in> ltab_inuse (rk r)"
    using si b(1) by (cases "phase r i"; simp add: slot_inv_def slot_ok_def)+
  from ph have "reqop (lt_req (ltab (rk r) ! i)) \<in> {DTOP_CREATE, DTOP_DETACH, DTOP_CANCEL, DTOP_JOIN, DTOP_RETCLEAN, DTOP_APP0_RET}"
    by (rule call_op_cases [of "\<lambda>a p w. phase r i = Calling a p w" _ "phase r i = Over"])
  note ps = process_req_slots [OF inv b(2) i(2) b(1,4) this, of s'] assms(3) [unfolded i(1)]
  have o: "others_kept i (rk r) s'" and f: "if reqop (lt_req (ltab (rk r) ! i)) \<in> reply_ops
      then forwarded i (rk r) s' else retired i (rk r) s'" using ps by simp_all
  have d: "nmaxthread s' = nmaxthread (rk r)" "mgrreqq (dtq s') = mgrreqq (dtq (rk r))"
    and kept: "\<And>j. j < nmaxthread (rk r) \<Longrightarrow> j \<noteq> i \<Longrightarrow> slot_kept j (rk r) s'"
    and inuse: "\<And>j. j \<noteq> i \<Longrightarrow> j \<in> ltab_inuse s' \<longleftrightarrow> j \<in> ltab_inuse (rk r)"
    using o rank_inv_len [OF assms(1)] by (auto simp: others_kept_def)
  have Q: "queued r = Ltab_req i # queued ?r" using assms(2) i(1) d(2) by (simp add: queued_def)
  have "slot_inv ?r j" if j: "j < nmaxthread (rk r)" for j
  proof (cases "j = i")
    case False
    note sj = rank_inv_slot [OF assms(1) j]
    have "next_phase (rk r) s' (phase r) j = phase r j" using next_phase_same [OF sj] inuse [OF False] .
    then show ?thesis using sj kept [OF j False] inuse [OF False] False Q by (simp add: slot_inv_def slot_kept_def)
  next
    case True
    have n: "count_list (queued ?r) (Ltab_req i) = 0" using b(3) Q by simp
    from ph show ?thesis
    proof (elim disjE exE conjE)
      fix a p w
      assume c: "phase r i = Calling a p w" "reqop (lt_req (ltab (rk r) ! i)) = call_op a"
      then have fw: "forwarded i (rk r) s'" using f call_op_reply [of a] by simp
      then have "next_phase (rk r) s' (phase r) i = phase r i" using next_phase_same [OF si] by (simp add: forwarded_def Let_def)
      then show ?thesis using fw c n si b True
        by (simp add: slot_inv_def slot_ok_def forwarded_def Let_def split: if_splits)
    next
      assume c: "phase r i = Over" "reqop (lt_req (ltab (rk r) ! i)) \<in> {DTOP_RETCLEAN, DTOP_APP0_RET}"
      then have rt: "retired i (rk r) s'" using f by auto
      have "req_mqe (lt_req (ltab (rk r) ! i)) = None" using si c(2) by (auto simp: slot_inv_def slot_ok_def)
      then show ?thesis using rt c(1) n b(4) use True
        by (auto simp: slot_inv_def slot_ok_def retired_def Let_def next_phase_def)
    qed
  qed
  moreover have "xid_uniq s'"
  proof -
    have old: "pending (rk r) j \<and> lt_req (ltab s' ! j) = lt_req (ltab (rk r) ! j)"
      if "j < nmaxthread (rk r)" "pending s' j" "j \<noteq> i" for j using kept [OF that(1,3)] that(2) by (simp add: slot_kept_def)
    have new: "xidseq (lt_req (ltab s' ! i)) \<noteq> xidseq (lt_req (ltab (rk r) ! j))"
      if "pending s' i" "pending (rk r) j" "reqop (lt_req (ltab (rk r) ! j)) = reqop (lt_req (ltab s' ! i))" for j
    proof -
      have fw: "forwarded i (rk r) s'" using f that(1) by (auto simp: retired_def Let_def split: if_splits)
      then show ?thesis using that find_pending_None [of "reqop (lt_req (ltab (rk r) ! i))" "xidseq (lt_req (ltab s' ! i))" "rk r" j]
        by (auto simp: forwarded_def Let_def)
    qed
    show ?thesis unfolding xid_uniq_def d(1)
    proof (intro allI impI)
      fix j k
      assume jk: "j < nmaxthread (rk r)" "k < nmaxthread (rk r)" "j \<noteq> k" "pending s' j" "pending s' k"
        "reqop (lt_req (ltab s' ! j)) = reqop (lt_req (ltab s' ! k))"
      show "xidseq (lt_req (ltab s' ! j)) \<noteq> xidseq (lt_req (ltab s' ! k))"
      proof (cases "j = i \<or> k = i")
        case True
        then show ?thesis using jk old [of j] old [of k] new [of j] new [of k] by metis
      next
        case False
        then show ?thesis using jk old [of j] old [of k] assms(1) by (simp add: rank_inv_def xid_uniq_def)
      qed
    qed
  qed
  ultimately show ?thesis
    using process_req_inv [OF inv b(2) i(2)] assms(1,3) i(1) d(1) Q by (simp add: rank_inv_def)
qed

subsection \<open>The invariant of a rank\<close>

lemma running_slot:
  assumes "rank_inv r" "l < nmaxthread (rk r)" "phase r l \<in> {Running w, Leaving w}"
  shows "reqstate (lt_req (ltab (rk r) ! l)) = DTREQ_IDLE" "l \<in> ltab_inuse (rk r)" "tls (thr r l) = Some l" "ws_ok l w"
  using rank_inv_slot [OF assms(1,2)] assms(3) by (auto simp: slot_inv_def slot_ok_def)

lemma fresh_slot:
  assumes "rank_inv r" "l < nmaxthread (rk r)" "phase r l \<in> {Fresh, Fresh0}"
  shows "reqstate (lt_req (ltab (rk r) ! l)) = DTREQ_IDLE" "l \<in> ltab_inuse (rk r)" "phase r l = Fresh0 \<Longrightarrow> l = 0"
  using rank_inv_slot [OF assms(1,2)] assms(3) by (auto simp: slot_inv_def slot_ok_def)

text \<open>What the steps of a thread do, in the words of the lemmas above.\<close>

definition thread_effect :: "nat \<Rightarrow> rank_sys \<Rightarrow> tphase \<Rightarrow> app_thread \<Rightarrow> dtrs \<Rightarrow> bool" where
  "thread_effect l r ph t s' \<longleftrightarrow>
     (reqstate (lt_req (ltab (rk r) ! l)) = DTREQ_IDLE \<and> (quiet (rk r) s' \<or> returns_at_once (rk r) s') \<and>
        phase_ok ph t l (lt_req (ltab (rk r) ! l)) False (l \<in> ltab_inuse (rk r))) \<or>
     (reqstate (lt_req (ltab (rk r) ! l)) = DTREQ_IDLE \<and> l \<in> ltab_inuse (rk r) \<and> ph = Over \<and>
        (\<exists>op \<in> {DTOP_RETCLEAN, DTOP_APP0_RET}. ends l op (rk r) s')) \<or>
     (\<exists>a p w. phase r l = Running w \<and> posts l (call_op a) (rk r) s' \<and> tls t = Some l \<and> ph = Calling a p w) \<or>
     (\<exists>a p w. phase r l = Calling a p w \<and> tls t = Some l \<and> reqstate (lt_req (ltab (rk r) ! l)) \<noteq> DTREQ_BUSY \<and>
        s' = upd_req (Ltab_req l) (\<lambda>q. q\<lparr>reqstate := DTREQ_IDLE\<rparr>) (rk r) \<and> ph = Running w)"

lemma thread_step_effect:
  assumes "thread_step l (phase r l) (thr r l) (rk r) ph t s'" "rank_inv r" "l < nmaxthread (rk r)"
  shows "thread_effect l r ph t s'"
proof -
  note fr = fresh_slot [OF assms(2,3)] and ru = running_slot [OF assms(2,3)]
  from assms(1) show ?thesis
  proof (cases rule: thread_step.cases)
    case (wrap t0 ws)
    then show ?thesis using dthreadwrap_start_cases [OF wrap(3)] fr by (auto simp: thread_effect_def ws_ok_def)
  next
    case (wrap_fails t0)
    then show ?thesis using dthreadwrap_start_cases [OF wrap_fails(3)] fr by (auto simp: thread_effect_def)
  next
    case (wrap0 t0)
    then show ?thesis using app0wrap_start_cases [OF wrap0(3)] fr by (auto simp: thread_effect_def ws_ok_def)
  next
    case (wrap0_fails t0)
    then show ?thesis using app0wrap_start_cases [OF wrap0_fails(3)] fr by (auto simp: thread_effect_def)
  next
    case (call a e w)
    then show ?thesis using start_call_cases [OF call(3)] ru [of w] by (simp add: thread_effect_def)
  next
    case (call_waits a w)
    then show ?thesis using start_call_cases [OF call_waits(3)] ru [of w] by (auto simp: thread_effect_def)
  next
    case (call_returns a p rv w)
    then show ?thesis
      using finish_call_cases [OF call_returns(3)] rank_inv_slot [OF assms(2,3)]
      by (simp add: thread_effect_def slot_inv_def slot_ok_def del: upd_req.simps)
  next
    case (exits native ret v w)
    then show ?thesis using exit_common_quiet [OF exits(3)] ru [of w] by (simp add: thread_effect_def)
  next
    case (cleanup ws)
    then show ?thesis using dthreadcleanup_ends [OF cleanup(3)] ru [of "Some ws"] by (simp add: thread_effect_def ws_ok_def)
  next
    case cleanup0
    then show ?thesis using app0cleanup_ends [OF cleanup0(3)] ru [of None] by (simp add: thread_effect_def ws_ok_def)
  next
    case (returns ws nret pret)
    then show ?thesis using dthreadwrap_return_ends [OF returns(3)] ru [of "Some ws"] by (simp add: thread_effect_def ws_ok_def)
  next
    case (returns0 exitval)
    then show ?thesis using app0wrap_return_ends [OF returns0(3)] ru [of None] by (simp add: thread_effect_def ws_ok_def)
  qed
qed

lemma thread_effect_inv:
  assumes "thread_effect l r ph t s'" "rank_inv r" "l < nmaxthread (rk r)"
  shows "rank_inv (moved l ph t s' r)"
  using assms(1) unfolding thread_effect_def
proof (elim disjE exE conjE bexE)
  assume "reqstate (lt_req (ltab (rk r) ! l)) = DTREQ_IDLE" "quiet (rk r) s'"
    "phase_ok ph t l (lt_req (ltab (rk r) ! l)) False (l \<in> ltab_inuse (rk r))"
  then show ?thesis using moved_kept [OF assms(2,3) _ quiet_local] by blast
next
  assume "reqstate (lt_req (ltab (rk r) ! l)) = DTREQ_IDLE" "returns_at_once (rk r) s'"
    "phase_ok ph t l (lt_req (ltab (rk r) ! l)) False (l \<in> ltab_inuse (rk r))"
  then show ?thesis using moved_kept [OF assms(2,3) _ at_once_local] by blast
qed (use moved_ends [OF assms(2,3)] moved_posts [OF assms(2,3)] moved_finish [OF assms(2,3)] in blast)+

text \<open>Queue operations that leave the requests alone, and writes of other ranks to \<^verbatim>\<open>gtab[]\<close>.\<close>

lemma queue_step_inv:
  assumes "rank_inv r" "reqfree d = reqfree (dtq (rk r))" "nreq d = nreq (dtq (rk r))"
    and "rk r' = (rk r)\<lparr>dtq := d\<rparr>" "queued r' = queued r" "phase r' = phase r" "thr r' = thr r"
  shows "rank_inv r'"
  by (rule unmoved_inv [OF assms(1) _ assms(5-7)]) (simp add: assms(4) local_dtq [OF assms(2,3)])

lemma other_rank_inv:
  assumes "rank_inv r" "length g = length (gtab (rk r))"
    and "mpi_rank (rk r) = 0 \<longrightarrow> map gt_allocated g = map gt_allocated (gtab (rk r))"
  shows "rank_inv (r\<lparr>rk := (rk r)\<lparr>gtab := g\<rparr>\<rparr>)"
proof -
  let ?s = "(rk r)\<lparr>gtab := g\<rparr>"
  have inv: "tables_ok (rk r)" "req_inv {#} (rk r)" using assms(1) by (simp_all add: rank_inv_def mgr_inv_held_def)
  have "mpi_rank (rk r) = 0 \<Longrightarrow> gtab_ok ?s = gtab_ok (rk r)"
    by (rule gtab_ok_gview(1)) (use assms(3) in \<open>simp add: gview_def\<close>)
  moreover have l: "lview ?s = lview (rk r)" "rview ?s = rview (rk r)" by (simp_all add: lview_def rview_def)
  ultimately have "mgr_inv_held {#} ?s"
    using inv assms(2) ltab_ok_lview(1) [OF l(1)] req_inv_rview [OF l(2)] by (simp add: mgr_inv_held_def tables_ok_def)
  moreover have "slot_inv (r\<lparr>rk := ?s\<rparr>) i = slot_inv r i" for i
    using ltab_ok_lview(2) [OF l(1)] by (simp add: slot_inv_def queued_def)
  ultimately show ?thesis using assms(1) by (simp add: rank_inv_def queued_def xid_uniq_def)
qed

lemma rank_step_inv:
  assumes "rank_step r r'" "rank_inv r"
  shows "rank_inv r'"
  using assms
proof (induction rule: rank_step.induct)
  case (thread l r ph t s')
  then show ?case using thread_effect_inv thread_step_effect by blast
next
  case (check r)
  have "mgrreqq (dtq (mgr_check (rk r))) = mgrreqq (dtq (rk r))" using mgr_check_views(3) [of "rk r"] by (simp add: rview_def)
  then show ?case by (intro unmoved_inv [OF check.prems]) (simp_all add: local_views mgr_check_views queued_def)
next
  case (mpi_alloc r m s')
  note v = view_mqe_alloc [OF mpi_alloc.hyps] rview_mqe_alloc [OF mpi_alloc.hyps]
  then have "mgrreqq (dtq s') = mgrreqq (dtq (rk r))" by (simp add: rview_def)
  then show ?case using v by (intro unmoved_inv [OF mpi_alloc.prems]) (simp_all add: local_views queued_def)
next
  case (take r m q d)
  then have "reqfree d = reqfree (dtq (rk r)) \<and> nreq d = nreq (dtq (rk r)) \<and>
      mgrreqq (dtq (rk r)) = (case q of None \<Rightarrow> [] | Some q \<Rightarrow> [q]) @ mgrreqq d"
    by (auto simp: dtq_ops Let_def split: list.splits)
  then show ?case using take.hyps by (intro queue_step_inv [OF take.prems, of d]) (simp_all add: queued_def)
next
  case (mpi_send r m d)
  then have "reqfree d = reqfree (dtq (rk r)) \<and> nreq d = nreq (dtq (rk r)) \<and> mgrreqq d = mgrreqq (dtq (rk r))"
    by (auto simp: dtq_ops split: list.splits)
  then show ?case by (intro queue_step_inv [OF mpi_send.prems, of d]) (simp_all add: queued_def)
next
  case (mpi_recv m r e)
  let ?d = "dtq_recv_enqueue m (dtq (rk r))"
  have "reqfree ?d = reqfree (dtq (rk r))" "nreq ?d = nreq (dtq (rk r))" "mgrreqq ?d = mgrreqq (dtq (rk r))"
    by (simp_all add: dtq_ops Let_def)
  then show ?case by (intro unmoved_inv [OF mpi_recv.prems]) (simp_all add: local_step_def queued_def mgr_ops gview_def lview_def)
next
  case (wait r)
  show ?case by (rule queue_step_inv [OF wait.prems, of "dtq_notifywait_enter (dtq (rk r))"]) (simp_all add: queued_def dtq_ops)
next
  case (wakeup r)
  show ?case by (rule queue_step_inv [OF wakeup.prems, of "(dtq (rk r))\<lparr>mgr_blocked := False\<rparr>"]) (simp_all add: queued_def)
next
  case (mpi_sent m r)
  show ?case by (rule queue_step_inv [OF mpi_sent.prems, of "dtq_send_release m (dtq (rk r))"]) (simp_all add: queued_def dtq_ops Let_def)
next
  case (mpi_free m r e)
  show ?case by (intro unmoved_inv [OF mpi_free.prems]) (simp_all add: local_step_def queued_def mgr_ops gview_def lview_def dtq_ops)
next
  case (message r m s')
  then show ?case by (intro message_inv)
next
  case (request r q s')
  then show ?case by (intro request_inv)
next
  case (other_rank g r)
  then show ?case by (intro other_rank_inv)
qed

lemma rank_start_inv:
  assumes "mgr_inv s" "rpending (mgrstate s) = []" "mgrreqq (dtq s) = []"
    and "\<And>l. l < nmaxthread s \<Longrightarrow> reqstate (lt_req (ltab s ! l)) = DTREQ_IDLE \<and> req_mqe (lt_req (ltab s ! l)) = None \<and>
      req_ltabidx (lt_req (ltab s ! l)) = int l"
    and "\<And>l. l < nmaxthread s \<Longrightarrow> if l \<in> ltab_inuse s then l = 0 \<and> ph l = Fresh0 else ph l = Absent"
  shows "rank_inv (rank_start s ph ts)"
proof -
  have "slot_inv (rank_start s ph ts) l" if "l < nmaxthread s" for l
    using assms(2,3) assms(4,5) [OF that]
    by (auto simp: slot_inv_def slot_ok_def rank_start_def queued_def split: if_splits)
  then show ?thesis using assms(1-3)
    by (simp add: rank_inv_def mgr_inv_def mgr_inv_held_def rank_start_def queued_def xid_uniq_def)
qed

lemma zero_req_idle:
  "l < n \<Longrightarrow> rview s = rview (dtrs_init rank w ds n env pths jk) \<Longrightarrow>
     reqstate (lt_req (ltab s ! l)) = DTREQ_IDLE \<and> req_mqe (lt_req (ltab s ! l)) = None \<and> req_ltabidx (lt_req (ltab s ! l)) = int l"
  using rview_get_req(2) [of s "dtrs_init rank w ds n env pths jk" l]
  by (simp add: dtrs_init_def zero_ltab_def new_internal_req_def)

end
