(* ===== verification/Dt_Rank_Props.thy ===== *)
theory Dt_Rank_Props
  imports Dt_Rank
begin

text \<open>
  Properties of a whole rank: it implements the queue protocol of \<open>Dt_Queuing\<close>, so that
  everything shown there holds of the real threads; the request of a blocked call is
  always in exactly one place, and the reply it waits for gives the call its results; the
  manager never reads a message that is not there.
\<close>

subsection \<open>Reachable states\<close>

lemma rank_reach_inv: "rank_reach env r \<Longrightarrow> rank_inv r"
proof (induction rule: rank_reach.induct)
  case (start n rank w ds pths jk ts)
  let ?s = "dtrs_init rank w ds n env pths jk"
  have "ltab_inuse ?s = {}" by (auto simp: dtrs_init_def ltab_inuse_def zero_ltab_def)
  moreover have "rpending (mgrstate ?s) = []" "mgrreqq (dtq ?s) = []" "nmaxthread ?s = n"
    by (simp_all add: dtrs_init_def zero_mgrstate_def dtq_init_def)
  ultimately show ?case
    using zero_req_idle [OF _ refl] by (intro rank_start_inv dtrs_init_inv start) simp_all
next
  case (start0 n arg w ds pths jk s ts)
  obtain s1 where s1: "s = snd (pthread_create_for 0 s1)" "mgr_inv s1" "rview s1 = rview (dtrs_init 0 w ds n env pths jk)"
    "ltab_inuse s1 = {0}" "dtq s1 = dtq_init env" using startapp_views [OF start0(1), of arg w ds env pths jk] start0(2)
    by (auto dest: arg_cong [of _ _ snd])
  have v: "gview s = gview s1" "lview s = lview s1" "rview s = rview s1" by (simp_all add: s1(1))
  have "mgr_inv s" using s1(2) mgr_inv_keep [OF _ v, of "{#}"] by (simp add: mgr_inv_def mgr_inv_held_def)
  moreover have "rpending (mgrstate s) = []" "mgrreqq (dtq s) = []" "nmaxthread s = n"
    using v(3) s1(3) by (simp_all add: rview_def dtrs_init_def zero_mgrstate_def dtq_init_def)
  moreover have "ltab_inuse s = {0}" using ltab_ok_lview(2) [OF v(2)] s1(4) by simp
  moreover have "rview s = rview (dtrs_init 0 w ds n env pths jk)" using v(3) s1(3) by simp
  note zero_req_idle [OF _ this]
  ultimately show ?case by (intro rank_start_inv) simp_all
next
  case (step r r')
  then show ?case using rank_step_inv by blast
qed

subsection \<open>The queues of a rank\<close>

definition slots_owned :: "dtrs \<Rightarrow> nat multiset" where
  "slots_owned s = (\<Sum>l<nmaxthread s. attached (lt_req (ltab s ! l)))"

definition in_hand :: "nat option \<Rightarrow> nat multiset" where
  "in_hand m = (case m of None \<Rightarrow> {#} | Some e \<Rightarrow> {#e#})"

definition rank_queues :: "rank_sys \<Rightarrow> dtq_sys" where
  "rank_queues r = \<lparr>sys_q = dtq (rk r), owned = held r + lost r + in_hand (mgr_mqe r) + slots_owned (rk r), inflight = infl r\<rparr>"

lemma in_hand_simps [simp]: "in_hand None = {#}" "in_hand (Some e) = {#e#}"
  by (simp_all add: in_hand_def)

lemma slots_owned_cong:
  "nmaxthread s' = nmaxthread s \<Longrightarrow> (\<And>l. l < nmaxthread s \<Longrightarrow> req_mqe (lt_req (ltab s' ! l)) = req_mqe (lt_req (ltab s ! l))) \<Longrightarrow>
     slots_owned s' = slots_owned s"
  by (simp add: slots_owned_def attached_def)

lemma slots_owned_upd:
  assumes "nmaxthread s' = nmaxthread s" "l < nmaxthread s"
    and "\<And>j. j < nmaxthread s \<Longrightarrow> j \<noteq> l \<Longrightarrow> req_mqe (lt_req (ltab s' ! j)) = req_mqe (lt_req (ltab s ! j))"
  shows "slots_owned s' + attached (lt_req (ltab s ! l)) = slots_owned s + attached (lt_req (ltab s' ! l))"
proof -
  have "(\<Sum>j\<in>{..<nmaxthread s} - {l}. attached (lt_req (ltab s' ! j))) = (\<Sum>j\<in>{..<nmaxthread s} - {l}. attached (lt_req (ltab s ! j)))"
    using assms(3) by (intro sum.cong) (simp_all add: attached_def)
  then show ?thesis using assms(1,2)
    by (simp add: slots_owned_def sum.remove [of "{..<nmaxthread s}" l] ac_simps)
qed

text \<open>A flow between two states of the rank is a run of the queue protocol.\<close>

abbreviation queue_run :: "rank_sys \<Rightarrow> rank_sys \<Rightarrow> bool" where
  "queue_run r r' \<equiv> mpi_rank (rk r') = mpi_rank (rk r) \<and> (dtq_step (mpi_rank (rk r)))\<^sup>*\<^sup>* (rank_queues r) (rank_queues r')"

lemma flow_run:
  assumes "flow (rk r) X (rk r') Y" "owned (rank_queues r) = X + Z" "owned (rank_queues r') = Y + Z" "infl r' = infl r"
  shows "queue_run r r'"
proof -
  have "rank_queues r = \<lparr>sys_q = dtq (rk r), owned = X + Z, inflight = infl r\<rparr>"
    "rank_queues r' = \<lparr>sys_q = dtq (rk r'), owned = Y + Z, inflight = infl r\<rparr>"
    using assms(2-4) by (simp_all add: rank_queues_def)
  then show ?thesis using assms(1) by (simp add: flow_def)
qed

lemma quiet_flow: "quiet s s' \<Longrightarrow> flow s {#} s' {#}"
  by (simp add: quiet_def flow_same)

lemma enqueue_flow: "flow s {#} (s\<lparr>dtq := dtq_req_enqueue q (dtq s)\<rparr>) {#}"
  by (rule flow_step) (use dtq_step.req_enqueue [of _ "\<lparr>sys_q = dtq s, owned = Z, inflight = I\<rparr>" for Z I] in simp_all)

lemma ends_flow:
  assumes "ends l op s s'"
  shows "flow s {#} s' {#}"
proof -
  obtain s1 where s1: "quiet s s1" "s' = post_final l op s1" using assms by (auto simp: ends_def)
  show ?thesis unfolding s1(2) post_final_def Let_def
    by (rule flow_before [OF quiet_flow [OF s1(1)] flow_from [OF enqueue_flow qview_upd(5)]])
qed

lemma posts_flow:
  assumes "posts l op s s'" "l < length (ltab s)"
  shows "\<exists>m. flow s {#} s' {#m#} \<and> attached (lt_req (ltab s' ! l)) = {#m#}"
proof -
  obtain m s1 body to f where a: "mqe_alloc s = (Some m, s1)" and f: "\<And>q. req_mqe (f q) = req_mqe q"
    and s': "s' = post_req (Ltab_req l) op m f (setup_msg m body to s1)"
    using assms(1) unfolding posts_def by blast
  let ?s3 = "upd_req (Ltab_req l) (\<lambda>q. f (q\<lparr>reqstate := DTREQ_BUSY, reqpeer := peer (mqes (setup_msg m body to s1) m),
     reqop := op, req_mqe := Some m, reqerror := 0\<rparr>)) (setup_msg m body to s1)"
  have q: "qview ?s3 = qview s1" unfolding qview_upd setup_msg_def ..
  have "flow s1 {#m#} s' {#m#}"
    unfolding s' post_req_def Let_def using flow_frame [OF flow_from [OF enqueue_flow q], of "{#m#}"] by simp
  moreover have "flow s {#} s1 {#m#}" using mqe_alloc_flow [OF a] by simp
  moreover have "length (ltab s1) = length (ltab s)" using fields_mqe_alloc(2) [OF a] by simp
  then have "req_mqe (lt_req (ltab s' ! l)) = Some m"
    unfolding s' post_req_def Let_def using f assms(2) by (simp add: setup_msg_def upd_mqe_def)
  ultimately show ?thesis using flow_chain by (auto simp: attached_def)
qed

lemma thread_run:
  assumes "thread_effect l r ph t s'" "rank_inv r" "l < nmaxthread (rk r)"
  shows "queue_run r (moved l ph t s' r)"
proof -
  have len: "length (ltab (rk r)) = nmaxthread (rk r)" using rank_inv_len [OF assms(2)] .
  have idle: "attached (lt_req (ltab (rk r) ! l)) = {#}" if "reqstate (lt_req (ltab (rk r) ! l)) \<noteq> DTREQ_BUSY"
    using slot_idle(3) [OF rank_inv_slot [OF assms(2,3)] that] by (simp add: attached_def)
  have run: "queue_run r (moved l ph t s' r)"
    if "flow (rk r) {#} s' Y" "local_step l (rk r) s'" "reqstate (lt_req (ltab (rk r) ! l)) \<noteq> DTREQ_BUSY"
      "attached (lt_req (ltab s' ! l)) = Y" for Y
  proof (rule flow_run [of _ "{#}" _ Y "owned (rank_queues r)"])
    have "slots_owned s' = slots_owned (rk r) + Y"
      using slots_owned_upd [of s' "rk r" l] local_stepD [OF that(2)] len idle [OF that(3)] that(4) assms(3) by simp
    then show "owned (rank_queues (moved l ph t s' r)) = Y + owned (rank_queues r)" by (simp add: rank_queues_def moved_def)
  qed (use that(1) in \<open>simp_all add: moved_def\<close>)
  have same: "queue_run r (moved l ph t s' r)"
    if "flow (rk r) {#} s' {#}" "reqstate (lt_req (ltab (rk r) ! l)) = DTREQ_IDLE"
      "local_step l (rk r) s' \<and> mgrreqq (dtq s') = mgrreqq (dtq (rk r)) \<and>
        (\<forall>j < length (ltab (rk r)). lt_req (ltab s' ! j) = lt_req (ltab (rk r) ! j))"
    using run [OF that(1)] that(2,3) idle len assms(3) by simp
  from assms(1) show ?thesis unfolding thread_effect_def
  proof (elim disjE exE conjE bexE)
    assume "reqstate (lt_req (ltab (rk r) ! l)) = DTREQ_IDLE" "quiet (rk r) s'"
    then show ?thesis using same quiet_flow quiet_local by blast
  next
    assume "reqstate (lt_req (ltab (rk r) ! l)) = DTREQ_IDLE" and s': "returns_at_once (rk r) s'"
    moreover have "flow (rk r) {#} s' {#}" using s' mqe_alloc_flow [of "rk r" None s'] by (auto simp: returns_at_once_def flow_same)
    ultimately show ?thesis using same at_once_local by blast
  next
    fix op assume e: "ends l op (rk r) s'" "reqstate (lt_req (ltab (rk r) ! l)) = DTREQ_IDLE"
    note el = ends_local [OF e(1)]
    show ?thesis by (rule run [OF ends_flow [OF e(1)]]) (use el e(2) len assms(3) in \<open>simp_all add: attached_def\<close>)
  next
    fix a p w assume e: "posts l (call_op a) (rk r) s'"
    then have "reqstate (lt_req (ltab (rk r) ! l)) = DTREQ_IDLE" by (simp add: posts_def)
    then show ?thesis using posts_flow [OF e] posts_local(1) [OF e] len assms(3) run by auto
  next
    fix a p w assume e: "reqstate (lt_req (ltab (rk r) ! l)) \<noteq> DTREQ_BUSY"
      "s' = upd_req (Ltab_req l) (\<lambda>q. q\<lparr>reqstate := DTREQ_IDLE\<rparr>) (rk r)"
    have "flow (rk r) {#} s' {#}" unfolding e(2) by (rule flow_same [OF qview_upd(5)])
    moreover have "local_step l (rk r) s'" unfolding e(2) by (rule upd_local)
    moreover have "attached (lt_req (ltab s' ! l)) = {#}" using e idle len assms(3) by (simp add: attached_def)
    ultimately show ?thesis using run e(1) by blast
  qed
qed

text \<open>The manager.\<close>

lemma message_run:
  assumes "rank_inv r" "mgr_mqe r = Some m" "process_mqe m (rk r) = Inr s'"
  shows "queue_run r (r\<lparr>rk := s', phase := ph, mgr_mqe := None,
    lost := lost r + (if unreleased_runt (rk r) (mqes (rk r) m) then {#m#} else {#})\<rparr>)" (is "queue_run r ?r")
proof -
  have "msg_slots (rk r) s'" using process_mqe_slots assms(1,3) by (simp add: rank_inv_def)
  then have S: "slots_owned s' = slots_owned (rk r)"
    using rank_inv_len [OF assms(1)]
    by (intro slots_owned_cong) (auto simp: msg_slots_def slot_kept_def slot_answered_def)
  let ?Z = "held r + lost r + slots_owned (rk r)"
  show ?thesis
  proof (cases "unreleased_runt (rk r) (mqes (rk r) m)")
    case True
    then have "flow (rk r) {#m#} (rk ?r) {#m#}" using runt_unchanged [OF True] assms(3) by (simp add: flow_same)
    then show ?thesis by (rule flow_run [where Z = ?Z]) (use True S assms(2) in \<open>simp_all add: rank_queues_def\<close>)
  next
    case False
    then have "flow (rk r) {#m#} (rk ?r) {#}" using process_mqe_flow [OF assms(3) False] by simp
    then show ?thesis by (rule flow_run [where Z = ?Z]) (use False S assms(2) in \<open>simp_all add: rank_queues_def\<close>)
  qed
qed

text \<open>The request in the hands of the manager.\<close>

lemma taken_request:
  assumes "rank_inv r" "mgr_req r = Some q"
  obtains i where "q = Ltab_req i" "i < nmaxthread (rk r)" "\<not> pending (rk r) i"
    "reqstate (lt_req (ltab (rk r) ! i)) = DTREQ_BUSY" "req_ltabidx (lt_req (ltab (rk r) ! i)) = int i"
    "reqop (lt_req (ltab (rk r) ! i)) \<in> {DTOP_CREATE, DTOP_DETACH, DTOP_CANCEL, DTOP_JOIN, DTOP_RETCLEAN, DTOP_APP0_RET}"
    "carries_msg (lt_req (ltab (rk r) ! i))"
proof -
  obtain i where i: "q = Ltab_req i" "i < nmaxthread (rk r)" using assms by (auto simp: rank_inv_def queued_def)
  note si = rank_inv_slot [OF assms(1) i(2)]
  have n1: "count_list (queued r) (Ltab_req i) \<noteq> 0" using assms(2) i(1) by (simp add: queued_def)
  then have b: "reqstate (lt_req (ltab (rk r) ! i)) = DTREQ_BUSY" "\<not> pending (rk r) i"
      "count_list (queued r) (Ltab_req i) = 1" "req_ltabidx (lt_req (ltab (rk r) ! i)) = int i"
    using si by (auto simp: slot_inv_def slot_ok_def split: if_splits)
  have "(\<exists>a p w. phase r i = Calling a p w \<and> reqop (lt_req (ltab (rk r) ! i)) = call_op a) \<or>
      (phase r i = Over \<and> reqop (lt_req (ltab (rk r) ! i)) \<in> {DTOP_RETCLEAN, DTOP_APP0_RET})"
    using si b(1) by (cases "phase r i"; simp add: slot_inv_def slot_ok_def)
  from call_op_cases [OF this] show ?thesis
    by (rule that [OF i b(2,1,4)]) (use si b in \<open>simp add: slot_inv_def slot_ok_def carries_msg_def\<close>)
qed

lemma request_run:
  assumes "rank_inv r" "mgr_req r = Some q" "process_req q (rk r) = Inr s'"
  shows "queue_run r (r\<lparr>rk := s', phase := ph, mgr_req := None\<rparr>)" (is "queue_run r ?r")
proof -
  obtain i where i: "q = Ltab_req i" "i < nmaxthread (rk r)" "\<not> pending (rk r) i"
    "reqstate (lt_req (ltab (rk r) ! i)) = DTREQ_BUSY" "req_ltabidx (lt_req (ltab (rk r) ! i)) = int i"
    "reqop (lt_req (ltab (rk r) ! i)) \<in> {DTOP_CREATE, DTOP_DETACH, DTOP_CANCEL, DTOP_JOIN, DTOP_RETCLEAN, DTOP_APP0_RET}"
    "carries_msg (lt_req (ltab (rk r) ! i))" using taken_request [OF assms(1,2)] by blast
  have inv: "mgr_inv_held {#} (rk r)" using assms(1) by (simp add: rank_inv_def)
  note ps = process_req_slots [OF inv i(3,2,4,5,6) assms(3) [unfolded i(1)]]
  have fl: "flow (rk r) (attached (lt_req (ltab (rk r) ! i))) s' {#}"
    using process_req_flow [OF assms(3) _ i(1) _ i(2)] i(1,5,7) by simp
  have "req_mqe (lt_req (ltab s' ! i)) = None"
    using ps i(7) by (auto simp: forwarded_def retired_def carries_msg_def Let_def split: if_splits)
  then have a: "attached (lt_req (ltab s' ! i)) = {#}" by (simp add: attached_def)
  have "slots_owned s' + attached (lt_req (ltab (rk r) ! i)) = slots_owned (rk r) + attached (lt_req (ltab s' ! i))"
    by (rule slots_owned_upd) (use ps i(2) rank_inv_len [OF assms(1)] in \<open>auto simp: others_kept_def slot_kept_def\<close>)
  then have S: "slots_owned (rk r) = attached (lt_req (ltab (rk r) ! i)) + slots_owned s'" using a by (simp add: ac_simps)
  show ?thesis
    by (rule flow_run [where Z = "held r + lost r + in_hand (mgr_mqe r) + slots_owned s'"])
      (use fl S in \<open>simp_all add: rank_queues_def ac_simps\<close>)
qed

lemma slots_owned_rview: "rview s' = rview s \<Longrightarrow> length (ltab s) = nmaxthread s \<Longrightarrow> slots_owned s' = slots_owned s"
  using rview_get_req [of s' s] by (intro slots_owned_cong) (simp_all add: rview_def)

lemma slots_owned_same [simp]:
  "slots_owned (s\<lparr>dtq := d\<rparr>) = slots_owned s" "slots_owned (s\<lparr>gtab := g\<rparr>) = slots_owned s"
  "slots_owned (s\<lparr>mqes := h\<rparr>) = slots_owned s"
  by (simp_all add: slots_owned_def mgr_ops)

lemma check_run:
  assumes "rank_inv r"
  shows "queue_run r (r\<lparr>rk := mgr_check (rk r)\<rparr>)"
proof (rule flow_run [of _ "{#}" _ "{#}"])
  show "flow (rk r) {#} (rk (r\<lparr>rk := mgr_check (rk r)\<rparr>)) {#}"
    by (simp add: mgr_check_def flow_same broadcast_shutdown_flow)
  show "owned (rank_queues (r\<lparr>rk := mgr_check (rk r)\<rparr>)) = {#} + owned (rank_queues r)"
    using slots_owned_rview [OF mgr_check_views(3) rank_inv_len [OF assms]] by (simp add: rank_queues_def)
qed simp_all

lemma one_step: "dtq_step me c c' \<Longrightarrow> (dtq_step me)\<^sup>*\<^sup>* c c'"
  by (rule r_into_rtranclp)

lemma rank_step_run:
  assumes "rank_step r r'" "rank_inv r"
  shows "queue_run r r'"
  using assms
proof (induction rule: rank_step.induct)
  case (thread l r ph t s')
  then show ?case using thread_run thread_step_effect by blast
next
  case (check r)
  then show ?case using check_run by blast
next
  case (wait r)
  then show ?case using dtq_step.wait_enter [of "rank_queues r"] by (auto simp: rank_queues_def intro!: one_step)
next
  case (wakeup r)
  show ?case using dtq_step.wait_timeout [of _ "rank_queues r"] by (auto simp: rank_queues_def intro!: one_step)
next
  case (take r m q d)
  then show ?case using dtq_step.wait_finish [of "rank_queues r" m q d]
    by (auto simp: rank_queues_def in_hand_def ac_simps intro!: one_step)
next
  case (message r m s')
  then show ?case using message_run by blast
next
  case (request r q s')
  then show ?case using request_run by blast
next
  case (mpi_send r m d)
  then show ?case using dtq_step.send_dequeue [of "rank_queues r" m d] by (auto simp: rank_queues_def intro!: one_step)
next
  case (mpi_sent m r)
  then show ?case using dtq_step.send_release [of m "rank_queues r"] by (auto simp: rank_queues_def intro!: one_step)
next
  case (mpi_alloc r m s')
  have "slots_owned s' = slots_owned (rk r)"
    using slots_owned_rview [OF rview_mqe_alloc [OF mpi_alloc.hyps] rank_inv_len [OF mpi_alloc.prems]] .
  then show ?case using mqe_alloc_flow [OF mpi_alloc.hyps]
    by (intro flow_run [of _ "{#}" _ "in_hand m" "owned (rank_queues r)"]) (simp_all add: rank_queues_def in_hand_def ac_simps)
next
  case (mpi_recv m r e)
  then show ?case using dtq_step.recv_enqueue [of m "rank_queues r"]
    by (auto simp: rank_queues_def upd_mqe_def dest!: multi_member_split intro!: one_step)
next
  case (mpi_free m r e)
  then show ?case using dtq_step.unalloc [of m "rank_queues r"]
    by (auto simp: rank_queues_def upd_mqe_def dest!: multi_member_split intro!: one_step)
next
  case (other_rank g r)
  show ?case by (simp add: rank_queues_def)
qed

lemma dtq_reach_steps: "(dtq_step me)\<^sup>*\<^sup>* c c' \<Longrightarrow> dtq_reach me env c \<Longrightarrow> dtq_reach me env c'"
  by (induction rule: rtranclp_induct) (auto intro: dtq_reach.step)

lemma rank_reach_queues:
  assumes "rank_reach env r"
  shows "dtq_reach (mpi_rank (rk r)) env (rank_queues r)"
  using assms
proof (induction rule: rank_reach.induct)
  case (start n rank w ds pths jk ts)
  have "slots_owned (dtrs_init rank w ds n env pths jk) = {#}"
    by (simp add: slots_owned_def dtrs_init_def zero_ltab_def new_internal_req_def attached_def)
  then show ?case using dtq_reach.start [of _ env]
    by (simp add: rank_queues_def rank_start_def dtrs_init_def)
next
  case (start0 n arg w ds pths jk s ts)
  have inv: "rank_inv (rank_start s ((\<lambda>_. Absent)(0 := Fresh0)) ts)" using rank_reach_inv rank_reach.start0 [OF start0] by blast
  obtain s1 where s1: "s = snd (pthread_create_for 0 s1)" "dtq s1 = dtq_init env" "mpi_rank s1 = 0"
    using startapp_views [OF start0(1), of arg w ds env pths jk] start0(2) by (auto dest: arg_cong [of _ _ snd])
  have "dtq s = dtq_init env" using pthread_create_for_qview [of 0 s1] s1 by (simp add: qview_def)
  moreover have "slots_owned s = {#}"
  proof -
    have "reqstate (lt_req (ltab s ! l)) = DTREQ_IDLE" if "l < nmaxthread s" for l
      using rank_inv_slot [OF inv, of l] that by (cases "l = 0") (simp_all add: rank_start_def slot_inv_def slot_ok_def)
    then have "req_mqe (lt_req (ltab s ! l)) = None" if "l < nmaxthread s" for l
      using slot_idle(3) [OF rank_inv_slot [OF inv, of l]] that by (simp add: rank_start_def)
    then show ?thesis by (simp add: slots_owned_def attached_def)
  qed
  ultimately show ?case using dtq_reach.start [of _ env] by (simp add: rank_queues_def rank_start_def)
next
  case (step r r')
  have "queue_run r r'" using rank_step_run [OF step.hyps(2)] rank_reach_inv [OF step.hyps(1)] .
  then show ?case using dtq_reach_steps step.IH by metis
qed

text \<open>What the four replies answer and store in the request they are for.\<close>

fun reply_to :: "dtmsg_body \<Rightarrow> (dtop \<times> (dthread_request_t \<Rightarrow> dthread_request_t)) option" where
  "reply_to (Dtmsg_created err newthread) = Some (DTOP_CREATE, created_result err newthread)"
| "reply_to (Dtmsg_detached err) = Some (DTOP_DETACH, \<lambda>q. q\<lparr>reqerror := err\<rparr>)"
| "reply_to (Dtmsg_canceled err) = Some (DTOP_CANCEL, \<lambda>q. q\<lparr>reqerror := err\<rparr>)"
| "reply_to (Dtmsg_joined err joinret) = Some (DTOP_JOIN, joined_result err joinret)"
| "reply_to _ = None"

lemma reply_to_op:
  assumes "reply_to b = Some (op, f)"
  shows "op \<in> reply_ops" "reqstate (f q) = reqstate q"
    "\<not> flen_lt (flen (mqes s m)) sizeof_hdr \<Longrightarrow> msg_body (frame (mqes s m)) = b \<Longrightarrow> process_mqe m s = Inr (process_reply m op f s)"
  using assms by (cases b; auto simp: process_mqe_def Let_def created_result_def joined_result_def split: option.splits)+

lemma find_unique_pending:
  assumes "rank_inv r" "l < nmaxthread (rk r)" "pending (rk r) l" "op \<in> reply_ops"
    and "reqop (lt_req (ltab (rk r) ! l)) = op" "xidseq (lt_req (ltab (rk r) ! l)) = x"
  shows "find_pending_req op x (rk r) = Some (Ltab_req l)"
proof -
  have inv: "mgr_inv_held {#} (rk r)" using assms(1) by (simp add: rank_inv_def)
  have "find_pending_req op x (rk r) \<noteq> None" using find_pending_None [OF _ assms(3,5)] assms(6) by blast
  then obtain q where q: "find_pending_req op x (rk r) = Some q" by blast
  then have m: "q \<in> set (rpending (mgrstate (rk r)))" "xidseq (get_req (rk r) q) = x" "reqop (get_req (rk r) q) = op"
    unfolding find_pending_req_def by (auto dest: find_Some_mem)
  obtain i where i: "q = Ltab_req i" "i < length (ltab (rk r))"
    using pend_is_ltab [OF pend_ok_of_inv [OF inv m(1)]] m(3) assms(4) by blast
  have "i = l"
  proof (rule ccontr)
    assume "i \<noteq> l"
    then show False using assms(1-3,5,6) m i rank_inv_len [OF assms(1)] by (auto simp: rank_inv_def xid_uniq_def)
  qed
  then show ?thesis using q i by simp
qed

lemma process_reply_run:
  assumes "find_pending_req op (msg_xidseq (frame (mqes s m))) s = Some (Ltab_req l)" "l < length (ltab s)"
    and "\<not> flen_lt (flen (mqes s m)) sizeof_hdr" "\<not> flen_lt (flen (mqes s m)) (sizeof_dtmsg (msg_body (frame (mqes s m))))"
    and "\<And>q. reqstate (f q) = reqstate q" "reqstate (lt_req (ltab s ! l)) = DTREQ_BUSY"
  shows "\<exists>s'. process_reply m op f s = s' \<and>
    lt_req (ltab s' ! l) = (f (lt_req (ltab s ! l)))\<lparr>reqstate := DTREQ_DONE\<rparr> \<and> (\<forall>j. j \<noteq> l \<longrightarrow> lt_req (ltab s' ! j) = lt_req (ltab s ! j))"
  using assms by (simp add: process_reply_def find_pending_msgreq_def dtq_req_release_def mgr_ops dtq_ops)

subsection \<open>Properties of a rank\<close>

text \<open>
  C1. A rank implements the queue protocol: whatever its application threads, its manager
  and its MPI thread do, in whatever order, and whatever messages arrive, the local
  queues go through states of the protocol of \<open>dtq_step\<close>.  The entries that belong to a
  thread are those of the MPI thread, the message the manager is working on, the messages
  attached to the requests of the slots, and those of dropped truncated messages.
\<close>

theorem rank_refines_queues:
  assumes "rank_reach env r"
  shows "dtq_reach (mpi_rank (rk r)) env (rank_queues r)"
  using assms by (rule rank_reach_queues)

text \<open>The number of places where the request of a slot is.\<close>

definition request_places :: "rank_sys \<Rightarrow> nat \<Rightarrow> nat" where
  "request_places r l = count_list (queued r) (Ltab_req l) + (if pending (rk r) l then 1 else 0) +
     (if reqstate (lt_req (ltab (rk r) ! l)) = DTREQ_DONE then 1 else 0)"

text \<open>
  C2. No call is forgotten: the request of a blocked call is in exactly one place, which is
  the manager (in its hands or on its queue, with the message attached), the list of
  requests that wait for a reply, or the call itself, which can go on.  In particular,
  when the manager sleeps with nothing in its hands, every blocked call waits for a reply
  or can go on.
\<close>

theorem calls_accounted:
  assumes "rank_reach env r" and "l < nmaxthread (rk r)" and "phase r l = Calling a p w"
  shows "request_places r l = 1 \<and>
    (reqstate (lt_req (ltab (rk r) ! l)) = DTREQ_BUSY \<longrightarrow> reqop (lt_req (ltab (rk r) ! l)) = call_op a) \<and>
    (req_mqe (lt_req (ltab (rk r) ! l)) \<noteq> None \<longleftrightarrow> Ltab_req l \<in> set (queued r)) \<and>
    (mgr_blocked (dtq (rk r)) \<and> mgr_req r = None \<longrightarrow>
       pending (rk r) l \<or> reqstate (lt_req (ltab (rk r) ! l)) = DTREQ_DONE)"
proof -
  have si: "slot_inv r l" using rank_inv_slot [OF rank_reach_inv [OF assms(1)] assms(2)] .
  have "dtq_waits (rank_queues r)" using dtq_reach_inv [OF rank_reach_queues [OF assms(1)]] by simp
  then have idle: "mgr_blocked (dtq (rk r)) \<and> mgr_req r = None \<longrightarrow> queued r = []"
    by (auto simp: dtq_waits_def rank_queues_def q_idle_def queued_def)
  show ?thesis
    using si assms(3) idle call_op_reply [of a] count_list_0_iff [of "queued r" "Ltab_req l"]
    by (auto simp: request_places_def slot_inv_def slot_ok_def split: if_splits)
qed

text \<open>
  C3. A call gets its reply: when the reply with the transaction number of a pending
  request arrives, the thread of that slot is blocked in a call of that operation, and
  after the manager has processed the message the call collects the result that the reply
  carries.  The requests of all other slots stay as they are.
\<close>

theorem call_gets_its_reply:
  assumes "rank_reach env r" and "mgr_mqe r = Some m" and "e = mqes (rk r) m"
    and "\<not> flen_lt (flen e) sizeof_hdr" and "\<not> flen_lt (flen e) (sizeof_dtmsg (msg_body (frame e)))"
    and "reply_to (msg_body (frame e)) = Some (op, f)"
    and "l < nmaxthread (rk r)" and "pending (rk r) l"
    and "reqop (lt_req (ltab (rk r) ! l)) = op" and "xidseq (lt_req (ltab (rk r) ! l)) = msg_xidseq (frame e)"
  shows "\<exists>a p w s'. phase r l = Calling a p w \<and> call_op a = op \<and> process_mqe m (rk r) = Inr s' \<and>
    map_option fst (collect_req (Ltab_req l) s') = Some ((f (lt_req (ltab (rk r) ! l)))\<lparr>reqstate := DTREQ_DONE\<rparr>) \<and>
    (\<forall>j. j \<noteq> l \<longrightarrow> lt_req (ltab s' ! j) = lt_req (ltab (rk r) ! j))"
proof -
  have inv: "rank_inv r" using rank_reach_inv [OF assms(1)] .
  note op = reply_to_op [OF assms(6)] and si = rank_inv_slot [OF inv assms(7)]
  have b: "reqstate (lt_req (ltab (rk r) ! l)) = DTREQ_BUSY" using si assms(8) by (auto simp: slot_inv_def slot_ok_def split: if_splits)
  then obtain a p w where c: "phase r l = Calling a p w" "call_op a = op"
    using si assms(8,9) by (cases "phase r l") (auto simp: slot_inv_def slot_ok_def)
  have run: "process_mqe m (rk r) = Inr (process_reply m op f (rk r))" using op(3) assms(3,4) by simp
  have "find_pending_req op (msg_xidseq (frame (mqes (rk r) m))) (rk r) = Some (Ltab_req l)"
    using find_unique_pending [OF inv assms(7,8) op(1) assms(9)] assms(3,10) by simp
  from process_reply_run [OF this _ _ _ op(2) b] show ?thesis
    using run c assms(3-5,7) rank_inv_len [OF inv] by (auto simp: collect_req_def)
qed

text \<open>
  C4. The request that the manager takes off its queue never makes it read a message that
  is not there, and it is processed to the end when the rank has a free transaction
  number.
\<close>

theorem taken_request_processed:
  assumes "rank_reach env r" and "mgr_req r = Some q"
    and "seq_ok (rk r)" and "length (rpending (mgrstate (rk r))) < seq_period (rk r)"
  shows "\<exists>s'. process_req q (rk r) = Inr s'"
proof -
  obtain i where i: "q = Ltab_req i" "i < nmaxthread (rk r)" "reqstate (lt_req (ltab (rk r) ! i)) = DTREQ_BUSY"
    "req_ltabidx (lt_req (ltab (rk r) ! i)) = int i"
    "reqop (lt_req (ltab (rk r) ! i)) \<in> {DTOP_CREATE, DTOP_DETACH, DTOP_CANCEL, DTOP_JOIN, DTOP_RETCLEAN, DTOP_APP0_RET}"
    "carries_msg (lt_req (ltab (rk r) ! i))" using taken_request [OF rank_reach_inv [OF assms(1)] assms(2)] by blast
  have fwd: "\<exists>s'. forward_req q (rk r) = Inr s'" if op: "reqop (lt_req (ltab (rk r) ! i)) \<in> reply_ops"
  proof -
    obtain m where m: "req_mqe (lt_req (ltab (rk r) ! i)) = Some m" using i(3,6) op by (auto simp: carries_msg_def)
    let ?s0 = "upd_req q (\<lambda>q. q\<lparr>req_mqe := None\<rparr>) (rk r)"
    have "seq_ok ?s0" "length (rpending (mgrstate ?s0)) < seq_period ?s0"
      using assms(3,4) by (simp_all add: i(1) seq_ok_def seq_period_def)
    from get_free_seq_total [OF this] obtain seq x where "get_free_seq (reqop (get_req ?s0 q)) ?s0 = Some (seq, ?s0\<lparr>seqsrc := x\<rparr>)"
      by blast
    then show ?thesis using m by (simp add: forward_req_def i(1) Let_def case_prod_unfold)
  qed
  then show ?thesis using i by (auto simp: process_req_def)
qed

subsection \<open>A run of a rank\<close>

text \<open>
  A job of one rank: the main thread of the application starts and detaches itself.  The
  manager takes the request and forwards it to itself as a DETACH message, answers the
  message, and receives the answer.
\<close>

declare get_free_seq.simps [code]

lemma ltab_inuse_code [code]: "ltab_inuse s = set (filter (\<lambda>i. lt_pth_state (ltab s ! i) \<noteq> LT_NONE) [0..<length (ltab s)])"
  by (auto simp: ltab_inuse_def)

definition ex_thread :: app_thread where
  "ex_thread = \<lparr>tls = None, canstate = True, oldcanstate = True, procarg = zero_argret, proc_log = [], setcancel_rv = 0,
     setspecific_rv = 0, schedparam = None, attr_init = \<lparr>attr_detached = False, attr_stackaddr = 0, attr_stacksize = 0,
     attr_explicit_sched = False, attr_schedpolicy = 0, attr_schedparam = 0\<rparr>\<rparr>"

definition ex_handle :: dthread_t where
  "ex_handle = \<lparr>dt_index = 0, dt_seq = 1\<rparr>"

definition ex_rank0 :: dtrs where
  "ex_rank0 = dtrs_init 0 1 [] 1 [] [] (zero_argret, 0, 0)"

definition ex_started :: dtrs where
  "ex_started = (case mgr_startapp [] ex_rank0 of Inr (_, s) \<Rightarrow> s | Inl _ \<Rightarrow> ex_rank0)"

definition ex_app :: rank_sys where
  "ex_app = moved 0 (Running None) (ex_thread\<lparr>tls := Some 0\<rparr>) ex_started (rank_start ex_started ((\<lambda>_. Absent)(0 := Fresh0)) (\<lambda>_. ex_thread))"

definition ex_call :: rank_sys where
  "ex_call = (let (_, t, s) = start_call (A_detach ex_handle) (ex_thread\<lparr>tls := Some 0\<rparr>) ex_started
     in moved 0 (Calling (A_detach ex_handle) None None) t s ex_app)"

definition do_take :: "rank_sys \<Rightarrow> rank_sys" where
  "do_take r = (let (m, q, d) = dtq_notifywait_finish (dtq (rk r)) in r\<lparr>rk := (rk r)\<lparr>dtq := d\<rparr>, mgr_mqe := m, mgr_req := q\<rparr>)"

definition can_take :: "rank_sys \<Rightarrow> bool" where
  "can_take r \<longleftrightarrow> mgr_mqe r = None \<and> mgr_req r = None \<and> \<not> mgr_blocked (dtq (rk r))"

definition do_work :: "rank_sys \<Rightarrow> rank_sys" where
  "do_work r =
     (case mgr_mqe r of
        Some m \<Rightarrow>
          (case process_mqe m (rk r) of
             Inr s' \<Rightarrow> r\<lparr>rk := s', phase := next_phase (rk r) s' (phase r), mgr_mqe := None,
               lost := lost r + (if unreleased_runt (rk r) (mqes (rk r) m) then {#m#} else {#})\<rparr>
           | Inl _ \<Rightarrow> r)
      | None \<Rightarrow>
          (case mgr_req r of
             Some q \<Rightarrow>
               (case process_req q (rk r) of
                  Inr s' \<Rightarrow> r\<lparr>rk := s', phase := next_phase (rk r) s' (phase r), mgr_req := None\<rparr>
                | Inl _ \<Rightarrow> r)
           | None \<Rightarrow> r))"

lemma reach_take: "rank_reach env r \<Longrightarrow> can_take r \<Longrightarrow> rank_reach env (do_take r)"
  by (auto simp: do_take_def can_take_def split: prod.splits intro: rank_reach.step rank_step.take)

lemma reach_work:
  assumes "rank_reach env r"
  shows "rank_reach env (do_work r)"
proof (cases "mgr_mqe r")
  case None
  then show ?thesis using assms rank_reach.step [OF assms rank_step.request]
    by (cases "mgr_req r"; cases "process_req (the (mgr_req r)) (rk r)") (simp_all add: do_work_def)
next
  case (Some m)
  then show ?thesis using assms rank_reach.step [OF assms rank_step.message [OF Some]]
    by (cases "process_mqe m (rk r)") (simp_all add: do_work_def)
qed

lemma ex_app_reach: "rank_reach [] ex_app"
proof -
  have "map_sum id fst (mgr_startapp [] ex_rank0) = Inr 0" by code_simp
  then have "mgr_startapp [] ex_rank0 = Inr (0, ex_started)"
    by (cases "mgr_startapp [] ex_rank0") (auto simp: ex_started_def)
  then have start: "rank_reach [] (rank_start ex_started ((\<lambda>_. Absent)(0 := Fresh0)) (\<lambda>_. ex_thread))"
    unfolding ex_rank0_def by (rule rank_reach.start0 [rotated]) simp
  have "nmaxthread ex_started = 1" by code_simp
  moreover have "thread_step 0 Fresh0 ex_thread ex_started (Running None) (ex_thread\<lparr>tls := Some 0\<rparr>) ex_started"
    by (rule thread_step.wrap0 [of ex_thread]) (simp add: app0wrap_start_def ex_thread_def)
  ultimately show ?thesis unfolding ex_app_def
    by (intro rank_reach.step [OF start] rank_step.thread) (simp_all add: rank_start_def)
qed

lemma ex_app_fields:
  "rk ex_app = ex_started" "phase ex_app 0 = Running None" "thr ex_app 0 = ex_thread\<lparr>tls := Some 0\<rparr>"
  by (simp_all add: ex_app_def moved_def)

lemma ex_call_reach: "rank_reach [] ex_call" "phase ex_call 0 = Calling (A_detach ex_handle) None None"
proof -
  obtain e t s where c: "start_call (A_detach ex_handle) (ex_thread\<lparr>tls := Some 0\<rparr>) ex_started = (e, t, s)" by (metis surj_pair)
  have "fst (start_call (A_detach ex_handle) (ex_thread\<lparr>tls := Some 0\<rparr>) ex_started) = None" by code_simp
  then have "thread_step 0 (Running None) (ex_thread\<lparr>tls := Some 0\<rparr>) ex_started (Calling (A_detach ex_handle) None None) t s"
    using thread_step.call_waits [of "A_detach ex_handle" _ _ t s 0 None] c by simp
  moreover have "nmaxthread ex_started = 1" by code_simp
  ultimately have "rank_step ex_app (moved 0 (Calling (A_detach ex_handle) None None) t s ex_app)"
    by (intro rank_step.thread) (simp_all add: ex_app_fields)
  then show "rank_reach [] ex_call" unfolding ex_call_def c Let_def prod.case using ex_app_reach rank_reach.step by blast
  show "phase ex_call 0 = Calling (A_detach ex_handle) None None" unfolding ex_call_def c Let_def prod.case by (simp add: moved_def)
qed

definition ex_request :: rank_sys where
  "ex_request = do_take ex_call"

definition ex_reply :: rank_sys where
  "ex_reply = do_take (do_work (do_take (do_work ex_request)))"

lemma ex_request_reach: "rank_reach [] ex_request"
  unfolding ex_request_def by (rule reach_take [OF ex_call_reach(1)]) code_simp

lemma ex_reply_reach: "rank_reach [] ex_reply"
proof -
  have "can_take (do_work ex_request)" by code_simp
  moreover have "can_take (do_work (do_take (do_work ex_request)))" by code_simp
  ultimately show ?thesis unfolding ex_reply_def using reach_take reach_work ex_request_reach by blast
qed

theorem rank_refines_queues_witness: "dtq_reach (mpi_rank (rk ex_reply)) [] (rank_queues ex_reply)"
  by (rule rank_refines_queues [OF ex_reply_reach])

theorem calls_accounted_witness:
  "request_places ex_call 0 = 1 \<and> Ltab_req 0 \<in> set (queued ex_call) \<and> reqop (lt_req (ltab (rk ex_call) ! 0)) = DTOP_DETACH"
proof -
  have n: "0 < nmaxthread (rk ex_call)" by code_simp
  have "reqstate (lt_req (ltab (rk ex_call) ! 0)) = DTREQ_BUSY" by code_simp
  moreover have "req_mqe (lt_req (ltab (rk ex_call) ! 0)) \<noteq> None" by code_simp
  ultimately show ?thesis using calls_accounted [OF ex_call_reach(1) n ex_call_reach(2)] by simp
qed

theorem call_gets_its_reply_witness:
  "\<exists>s'. process_mqe 0 (rk ex_reply) = Inr s' \<and> map_option (\<lambda>x. reqerror (fst x)) (collect_req (Ltab_req 0) s') = Some 0"
proof -
  let ?s = "rk ex_reply" and ?e = "mqes (rk ex_reply) 0"
  have r: "reply_to (msg_body (frame ?e)) = Some (DTOP_DETACH, \<lambda>q. q\<lparr>reqerror := 0\<rparr>)" if "msg_body (frame ?e) = Dtmsg_detached 0"
    using that by simp
  have "mgr_mqe ex_reply = Some 0" by code_simp
  moreover have "\<not> flen_lt (flen ?e) sizeof_hdr" "\<not> flen_lt (flen ?e) (sizeof_dtmsg (msg_body (frame ?e)))" by code_simp+
  moreover have b: "msg_body (frame ?e) = Dtmsg_detached 0" by code_simp
  moreover have "0 < nmaxthread ?s" "pending ?s 0" "reqop (lt_req (ltab ?s ! 0)) = DTOP_DETACH"
    "xidseq (lt_req (ltab ?s ! 0)) = msg_xidseq (frame ?e)" by code_simp+
  ultimately obtain s' where "process_mqe 0 ?s = Inr s'"
    "map_option fst (collect_req (Ltab_req 0) s') = Some ((lt_req (ltab ?s ! 0))\<lparr>reqerror := 0, reqstate := DTREQ_DONE\<rparr>)"
    using call_gets_its_reply [OF ex_reply_reach _ refl _ _ r, where l = 0] by auto
  then show ?thesis by (cases "collect_req (Ltab_req 0) s'") auto
qed

theorem taken_request_processed_witness: "\<exists>s'. process_req (Ltab_req 0) (rk ex_request) = Inr s'"
proof (rule taken_request_processed [OF ex_request_reach])
  have f: "mpi_rank (rk ex_request) = 0" "mpi_wsize (rk ex_request) = 1" "rpending (mgrstate (rk ex_request)) = []"
    "uint (seqsrc (rk ex_request)) = 2" by code_simp+
  show "mgr_req ex_request = Some (Ltab_req 0)" by code_simp
  show "seq_ok (rk ex_request)" by (simp add: seq_ok_def f)
  show "length (rpending (mgrstate (rk ex_request))) < seq_period (rk ex_request)" by (simp add: seq_period_def f)
qed

end
