(* ===== verification/Dt_Mpithread.thy ===== *)
theory Dt_Mpithread
  imports Dt_Rank
begin

text \<open>
  The MPI thread of a rank (\<^verbatim>\<open>libdthread/dt_mpithread.c\<close>): the table of sends that have been
  started and not finished (\<^verbatim>\<open>struct mpimtsmgr\<close>), the reception of a message, and the turns
  of the loop of \<^verbatim>\<open>mpit_main\<close> with its start and its end.  The answers of MPI and of
  \<^verbatim>\<open>realloc\<close> are arguments of the definitions that make the calls.
\<close>

subsection \<open>The table of started sends\<close>

text \<open>
  A slot in use has an entry of the send queue and its MPI request, at the same position
  of two arrays; \<open>None\<close> is NULL and \<^verbatim>\<open>MPI_REQUEST_NULL\<close>.  Of the output arrays of
  \<^verbatim>\<open>MPI_Testsome\<close> only the sizes are state.  The counts of slots are natural numbers:
  the \<^verbatim>\<open>int\<close> that holds them overflows when more than \<open>2 ^ 30\<close> sends are under way.
\<close>

record mpimtsmgr =
  nalloc :: nat
  nused :: nat
  ntestsome :: u64
  got1 :: u64
  gotmore :: u64
  gotmax :: u64
  mts_mqes :: "nat option list"
  mts_reqs :: "nat option list"
  idxout_len :: nat
  statout_len :: nat

definition MPIMTSMGR_INIT :: mpimtsmgr where
  "MPIMTSMGR_INIT = \<lparr>nalloc = 0, nused = 0, ntestsome = 0, got1 = 0, gotmore = 0, gotmax = 0, mts_mqes = [], mts_reqs = [],
     idxout_len = 0, statout_len = 0\<rparr>"

text \<open>The outcomes of the four \<^verbatim>\<open>realloc\<close> calls, and what new memory contains.\<close>

record realloc_env =
  re_ok :: "nat \<Rightarrow> bool"
  re_mqe :: "nat option"
  re_req :: "nat option"

definition realloced :: "nat \<Rightarrow> 'a \<Rightarrow> 'a list \<Rightarrow> 'a list" where
  "realloced n x xs = take n xs @ replicate (n - length xs) x"

definition mpimts_setslots :: "realloc_env \<Rightarrow> nat \<Rightarrow> mpimtsmgr \<Rightarrow> int \<times> mpimtsmgr" where
  "mpimts_setslots e n mts =
     (if n \<le> nalloc mts then (0, mts)
      else if \<not> re_ok e 0 then (-1, mts)
      else let mts = mts\<lparr>mts_mqes := realloced n (re_mqe e) (mts_mqes mts)\<rparr>
           in if \<not> re_ok e 1 then (-1, mts)
              else let mts = mts\<lparr>mts_reqs := realloced n (re_req e) (mts_reqs mts)\<rparr>
                   in if \<not> re_ok e 2 then (-1, mts)
                      else let mts = mts\<lparr>idxout_len := n\<rparr>
                           in if \<not> re_ok e 3 then (-1, mts)
                              else (0, mts\<lparr>statout_len := n, nalloc := n\<rparr>))"

definition mpimts_afree :: "mpimtsmgr \<Rightarrow> mpimtsmgr" where
  "mpimts_afree mts = MPIMTSMGR_INIT"

definition mpimts_init :: "realloc_env \<Rightarrow> nat \<Rightarrow> int \<times> mpimtsmgr" where
  "mpimts_init e n =
     (let (ret, mts) = mpimts_setslots e n MPIMTSMGR_INIT
      in if ret = -1 then (-1, mpimts_afree mts) else (0, mts))"

definition mpimts_add :: "realloc_env \<Rightarrow> nat \<Rightarrow> nat \<Rightarrow> mpimtsmgr \<Rightarrow> (int \<times> mpimtsmgr) res" where
  "mpimts_add e mqe req mts =
     (let (rv, mts) = (if nused mts = nalloc mts then mpimts_setslots e (nalloc mts * 2) mts else (0, mts))
      in if rv = -1 then Inr (-1, mts)
         else let slot = nused mts
              in if slot \<ge> length (mts_mqes mts) \<or> slot \<ge> length (mts_reqs mts) then Inl Out_of_bounds
                 else Inr (0, mts\<lparr>mts_mqes := (mts_mqes mts)[slot := Some mqe], mts_reqs := (mts_reqs mts)[slot := Some req],
                        nused := slot + 1\<rparr>))"

definition mpimts_done :: "nat \<Rightarrow> dtq_state \<Rightarrow> dtq_state" where
  "mpimts_done mqe q = dtq_send_release mqe q"

subsection \<open>Testing for finished sends\<close>

text \<open>
  The answer of \<^verbatim>\<open>MPI_Testsome\<close>: a return code, of which the code distinguishes four kinds,
  and the positions of the finished requests, as many as it says in \<^verbatim>\<open>got\<close>.
\<close>

datatype testsome_rv = TS_SUCCESS | TS_IN_STATUS | TS_UNDEFINED | TS_OTHER

record testsome =
  ts_rv :: testsome_rv
  ts_idx :: "nat list"

text \<open>The loop that releases the finished sends and leaves holes in \<^verbatim>\<open>mqes[]\<close>.\<close>

fun release_done :: "nat list \<Rightarrow> nat option list \<Rightarrow> dtq_state \<Rightarrow> (nat option list \<times> dtq_state) res" where
  "release_done [] ms q = Inr (ms, q)"
| "release_done (i # is) ms q =
     (if i \<ge> length ms then Inl Out_of_bounds
      else case ms ! i of
             None \<Rightarrow> Inl Null_deref
           | Some m \<Rightarrow> release_done is (ms[i := None]) (mpimts_done m q))"

text \<open>The scan for an entry to pull into a hole.\<close>

function skip_null :: "nat \<Rightarrow> nat \<Rightarrow> nat option list \<Rightarrow> nat" where
  "skip_null pullfrom n ms = (if pullfrom < n \<and> ms ! pullfrom = None then skip_null (pullfrom + 1) n ms else pullfrom)"
  by pat_completeness auto
termination by (relation "measure (\<lambda>(p, n, _). n - p)") auto

text \<open>The loop that fills the holes below the new end from the entries above it.\<close>

function compact :: "nat \<Rightarrow> nat \<Rightarrow> nat \<Rightarrow> nat \<Rightarrow> nat option list \<Rightarrow> nat option list \<Rightarrow> nat \<times> nat option list \<times> nat option list" where
  "compact lcv new_nused pullfrom n ms rs =
     (if lcv \<ge> new_nused then (new_nused, ms, rs)
      else if ms ! lcv \<noteq> None then compact (lcv + 1) new_nused pullfrom n ms rs
      else let p = skip_null pullfrom n ms
           in if p \<ge> n then (0, ms, rs)
              else compact (lcv + 1) new_nused (p + 1) n (ms[lcv := ms ! p]) (rs[lcv := rs ! p]))"
  by pat_completeness auto
termination by (relation "measure (\<lambda>(l, n, _). n - l)") auto

declare skip_null.simps [simp del] compact.simps [simp del]

definition test_stats :: "nat \<Rightarrow> mpimtsmgr \<Rightarrow> mpimtsmgr" where
  "test_stats got mts =
     (let mts = (if got = 1 then mts\<lparr>got1 := got1 mts + 1\<rparr> else if got > 1 then mts\<lparr>gotmore := gotmore mts + 1\<rparr> else mts)
      in if of_nat got > gotmax mts then mts\<lparr>gotmax := of_nat got\<rparr> else mts)"

text \<open>\<^verbatim>\<open>MPI_Testsome\<close> itself sets the finished requests to \<^verbatim>\<open>MPI_REQUEST_NULL\<close>.\<close>

definition mpimts_test :: "testsome \<Rightarrow> mpimtsmgr \<Rightarrow> dtq_state \<Rightarrow> (int \<times> mpimtsmgr \<times> dtq_state) res" where
  "mpimts_test ts mts q =
     (if nused mts = 0 then Inr (0, mts, q)
      else
        let idx = ts_idx ts; got = length idx;
            mts = mts\<lparr>ntestsome := ntestsome mts + 1, mts_reqs := fold (\<lambda>i rs. rs[i := None]) idx (mts_reqs mts)\<rparr>
        in case ts_rv ts of
             TS_UNDEFINED \<Rightarrow> Inr (0, mts\<lparr>nused := 0\<rparr>, q)
           | TS_OTHER \<Rightarrow> Inr (-1, mts, q)
           | _ \<Rightarrow>
               if got = 0 then Inr (0, mts, q)
               else rbind (release_done idx (mts_mqes mts) q) (\<lambda>(ms, q).
                      let mts = (test_stats got mts)\<lparr>mts_mqes := ms\<rparr>; firsthole = fold min idx (hd idx)
                      in if got \<ge> nused mts then Inr (0, mts\<lparr>nused := 0\<rparr>, q)
                         else let new_nused = nused mts - got;
                                  (new_nused, ms, rs) = compact firsthole new_nused new_nused (nused mts) ms (mts_reqs mts)
                              in Inr (0, mts\<lparr>mts_mqes := ms, mts_reqs := rs, nused := new_nused\<rparr>, q)))"

definition mpimts_finalize :: "mpimtsmgr \<Rightarrow> dtq_state \<Rightarrow> mpimtsmgr \<times> dtq_state" where
  "mpimts_finalize mts q =
     (mpimts_afree mts, fold (\<lambda>i q. case mts_mqes mts ! i of None \<Rightarrow> q | Some m \<Rightarrow> mpimts_done m q) [0..<nused mts] q)"

subsection \<open>Receiving a message\<close>

text \<open>
  What the probe found: the sender, the length that \<^verbatim>\<open>MPI_Get_count\<close> returns (\<open>None\<close> when it
  fails), whether \<^verbatim>\<open>MPI_Recv\<close> succeeds, and the message.  \<open>None\<close> as a result is
  \<^verbatim>\<open>mlog_exit\<close>, the end of the process.  \<^verbatim>\<open>MPI_Recv\<close> is given the length of the message, not
  that of the frame, so a message that is longer than the frame is written beyond its end.
\<close>

record mpi_probe =
  pr_source :: int
  pr_count :: "int option"
  pr_recv_ok :: bool
  pr_msg :: dtmsg

abbreviation DTQ_MAXMSGSIZE :: int where
  "DTQ_MAXMSGSIZE \<equiv> dtmsg_all_size sizeof_pthread_attr_t"

definition mpimqerecv :: "mpi_probe \<Rightarrow> dtrs \<Rightarrow> (int \<times> dtrs) option res" where
  "mpimqerecv status s =
     (case pr_count status of
        None \<Rightarrow> Inr None
      | Some cnt \<Rightarrow>
          if cnt < 1 then Inr None
          else let overflow = (if cnt > DTQ_MAXMSGSIZE then cnt - DTQ_MAXMSGSIZE else 0)
               in case mqe_alloc s of
                    (None, s) \<Rightarrow> Inr None
                  | (Some m, s) \<Rightarrow>
                      let s = upd_mqe m (\<lambda>e. e\<lparr>flen := cnt, peer := pr_source status, frame := pr_msg status\<rparr>) s
                      in if cnt > DTQ_MAXMSGSIZE \<and> pr_recv_ok status then Inl Out_of_bounds
                         else if overflow \<noteq> 0 \<or> \<not> pr_recv_ok status then Inr (Some (0, recv_release m s))
                         else Inr (Some (cnt, s\<lparr>dtq := dtq_recv_enqueue m (dtq s)\<rparr>)))"

subsection \<open>The main loop\<close>

datatype mts_state = MTS_INIT | MTS_START | MTS_RUN | MTS_STOP | MTS_DONE

record mpit =
  mpi_mts :: mpimtsmgr
  mpit_state :: mts_state
  mpiabort :: bool
  isend_cnt :: u64
  isend_bytes :: u64
  iprobe_cnt :: u64
  recv_cnt :: u64
  recv_bytes :: u64

text \<open>
  What MPI answers in one turn: to \<^verbatim>\<open>MPI_Testsome\<close>, to \<^verbatim>\<open>MPI_Isend\<close> (the request, \<open>None\<close> on
  failure), and to \<^verbatim>\<open>MPI_Iprobe\<close> (\<open>None\<close> on failure, \<open>Some None\<close> when nothing has arrived).
\<close>

record turn_env =
  te_testsome :: testsome
  te_isend :: "nat option"
  te_realloc :: realloc_env
  te_probe :: "mpi_probe option option"

text \<open>The start of \<^verbatim>\<open>mpit_main\<close>, under \<^verbatim>\<open>mpit_slock\<close>: whether the loop is entered.\<close>

abbreviation "MPIMTS_INITSZ \<equiv> (16 :: nat)"

definition mpit_start :: "realloc_env \<Rightarrow> mpit \<Rightarrow> bool \<times> mpit" where
  "mpit_start e x =
     (if mpit_state x \<noteq> MTS_START then (False, x\<lparr>mpit_state := MTS_DONE\<rparr>)
      else let (rv, mts) = mpimts_init e MPIMTS_INITSZ
           in if rv \<noteq> 0 then (False, x\<lparr>mpi_mts := mts\<rparr>)
              else (True, x\<lparr>mpi_mts := mts, mpit_state := MTS_RUN\<rparr>))"

text \<open>Starting the next send.\<close>

definition mpit_send :: "turn_env \<Rightarrow> mpit \<Rightarrow> dtrs \<Rightarrow> (mpit \<times> dtrs) res" where
  "mpit_send e x s =
     (case dtq_send_dequeue (dtq s) of
        (None, q) \<Rightarrow> Inr (x, s\<lparr>dtq := q\<rparr>)
      | (Some mqe, q) \<Rightarrow>
          (let s = s\<lparr>dtq := q\<rparr>
           in case te_isend e of
                None \<Rightarrow> Inr (x, s\<lparr>dtq := mpimts_done mqe (dtq s)\<rparr>)
              | Some newreq \<Rightarrow>
                  let x = x\<lparr>isend_cnt := isend_cnt x + 1, isend_bytes := isend_bytes x + word_of_int (flen (mqes s mqe))\<rparr>
                  in rbind (mpimts_add (te_realloc e) mqe newreq (mpi_mts x)) (\<lambda>(rv, mts).
                       if rv = -1 then Inr (x\<lparr>mpi_mts := mts\<rparr>, s\<lparr>dtq := mpimts_done mqe (dtq s)\<rparr>)
                       else Inr (x\<lparr>mpi_mts := mts\<rparr>, s))))"

text \<open>The receive side of a turn; a failed probe aborts the loop.\<close>

definition mpit_recv :: "turn_env \<Rightarrow> mpit \<Rightarrow> dtrs \<Rightarrow> (mpit \<times> dtrs) option res" where
  "mpit_recv e x s =
     (let x = x\<lparr>iprobe_cnt := iprobe_cnt x + 1\<rparr>
      in case te_probe e of
           None \<Rightarrow> Inr (Some (x\<lparr>mpiabort := True\<rparr>, s))
         | Some None \<Rightarrow> Inr (Some (x, s))
         | Some (Some status) \<Rightarrow>
             rbind (mpimqerecv status s) (\<lambda>r.
               case r of
                 None \<Rightarrow> Inr None
               | Some (ret, s) \<Rightarrow>
                   Inr (Some (if ret > 0 then x\<lparr>recv_cnt := recv_cnt x + 1, recv_bytes := recv_bytes x + word_of_int ret\<rparr>
                              else x, s))))"

definition mpit_turn :: "turn_env \<Rightarrow> mpit \<Rightarrow> dtrs \<Rightarrow> (mpit \<times> dtrs) option res" where
  "mpit_turn e x s =
     rbind (mpimts_test (te_testsome e) (mpi_mts x) (dtq s)) (\<lambda>(rv, mts, q).
       let x = x\<lparr>mpi_mts := mts\<rparr>; s = s\<lparr>dtq := q\<rparr>
       in if rv \<noteq> 0 then Inr (Some (x\<lparr>mpiabort := True\<rparr>, s))
          else rbind (mpit_send e x s) (\<lambda>(x, s). mpit_recv e x s))"

text \<open>The end of \<^verbatim>\<open>mpit_main\<close>, and the request to stop, which waits for the state \<^verbatim>\<open>MTS_DONE\<close>.\<close>

definition mpit_finish :: "mpit \<Rightarrow> dtrs \<Rightarrow> mpit \<times> dtrs" where
  "mpit_finish x s =
     (let (mts, q) = mpimts_finalize (mpi_mts x) (dtq s) in (x\<lparr>mpi_mts := mts, mpit_state := MTS_DONE\<rparr>, s\<lparr>dtq := q\<rparr>))"

definition mpit_stop_request :: "mpit \<Rightarrow> bool \<times> mpit" where
  "mpit_stop_request x = (if mpit_state x = MTS_RUN then (True, x\<lparr>mpit_state := MTS_STOP\<rparr>) else (False, x))"

subsection \<open>Filling the holes\<close>

text \<open>The entries with their requests at the positions \<open>ks\<close>.\<close>

definition live :: "nat option list \<Rightarrow> nat option list \<Rightarrow> nat list \<Rightarrow> (nat \<times> nat option) list" where
  "live ms rs ks = map (\<lambda>k. (the (ms ! k), rs ! k)) (filter (\<lambda>k. ms ! k \<noteq> None) ks)"

lemma live_Nil [simp]: "live ms rs [] = []"
  by (simp add: live_def)

lemma live_append: "live ms rs (xs @ ys) = live ms rs xs @ live ms rs ys"
  by (simp add: live_def)

lemma live_Cons: "live ms rs (k # ks) = (case ms ! k of None \<Rightarrow> live ms rs ks | Some m \<Rightarrow> (m, rs ! k) # live ms rs ks)"
  by (auto simp: live_def split: option.splits)

lemma live_null: "\<forall>k \<in> set ks. ms ! k = None \<Longrightarrow> live ms rs ks = []"
  by (simp add: live_def)

lemma live_full: "\<forall>k \<in> set ks. ms ! k \<noteq> None \<Longrightarrow> length (live ms rs ks) = length ks"
  by (simp add: live_def)

lemma live_other: "l \<notin> set ks \<Longrightarrow> live (ms[l := x]) (rs[l := y]) ks = live ms rs ks"
  by (induction ks) (simp_all add: live_Cons nth_list_update split: option.splits)

lemma skip_null_stop:
  "p \<le> n \<Longrightarrow> p \<le> skip_null p n ms \<and> skip_null p n ms \<le> n \<and> (\<forall>k. p \<le> k \<longrightarrow> k < skip_null p n ms \<longrightarrow> ms ! k = None) \<and>
     (skip_null p n ms < n \<longrightarrow> ms ! skip_null p n ms \<noteq> None)"
proof (induction p n ms rule: skip_null.induct)
  case (1 p n ms)
  show ?case
  proof (cases "p < n \<and> ms ! p = None")
    case True
    have s: "skip_null p n ms = skip_null (p + 1) n ms" using True by (subst skip_null.simps) simp
    have "ms ! k = None" if "p \<le> k" "k < skip_null (p + 1) n ms" for k
      using 1 True that by (cases "k = p") auto
    then show ?thesis using 1 True unfolding s by auto
  next
    case False
    then have "skip_null p n ms = p" by (subst skip_null.simps) auto
    then show ?thesis using False 1(2) by auto
  qed
qed

lemma live_skip: "p \<le> n \<Longrightarrow> live ms rs [p..<n] = live ms rs [skip_null p n ms..<n]"
proof -
  assume p: "p \<le> n"
  note s = skip_null_stop [OF p, of ms]
  have "[p..<n] = [p..<skip_null p n ms] @ [skip_null p n ms..<n]" using s upt_add_eq_append [of p "skip_null p n ms" "n - skip_null p n ms"] by simp
  moreover have "live ms rs [p..<skip_null p n ms] = []" by (rule live_null) (use s in auto)
  ultimately show ?thesis by (simp add: live_append)
qed

lemma live_fill:
  assumes "l < new_nused" "ms ! l = None" "l < length ms" "l < length rs" "x = Some m"
  shows "mset (live (ms[l := x]) (rs[l := y]) [0..<new_nused]) = add_mset (m, y) (mset (live ms rs [0..<new_nused]))"
proof -
  have "[0..<new_nused] = [0..<l] @ l # [Suc l..<new_nused]"
    using assms(1) upt_add_eq_append [of 0 l "new_nused - l"] upt_conv_Cons [of l new_nused] by simp
  then show ?thesis using assms by (simp add: live_append live_Cons live_other)
qed

lemma compact_fills:
  assumes "new_nused \<le> pull" "pull \<le> n" "n \<le> length ms" "n \<le> length rs" "\<forall>k < lcv. ms ! k \<noteq> None"
    and "length (live ms rs [0..<new_nused]) + length (live ms rs [pull..<n]) = new_nused"
  shows "\<exists>ms' rs'. compact lcv new_nused pull n ms rs = (new_nused, ms', rs') \<and> length ms' = length ms \<and> length rs' = length rs \<and>
    (\<forall>k < new_nused. ms' ! k \<noteq> None) \<and>
    mset (live ms' rs' [0..<new_nused]) = mset (live ms rs [0..<new_nused]) + mset (live ms rs [pull..<n])"
  using assms
proof (induction lcv new_nused pull n ms rs rule: compact.induct)
  case (1 lcv new_nused pull n ms rs)
  consider "lcv \<ge> new_nused" | "lcv < new_nused" "ms ! lcv \<noteq> None" | "lcv < new_nused" "ms ! lcv = None" by linarith
  then show ?case
  proof cases
    case 1
    then have "length (live ms rs [0..<new_nused]) = new_nused" using "1.prems"(5) live_full [of "[0..<new_nused]" ms rs] by simp
    then have "live ms rs [pull..<n] = []" using "1.prems"(6) by simp
    then show ?thesis using 1 "1.prems"(5) by (subst compact.simps) auto
  next
    case 2
    then have s: "compact lcv new_nused pull n ms rs = compact (lcv + 1) new_nused pull n ms rs" by (subst compact.simps) simp
    show ?thesis unfolding s by (rule "1.IH"(1)) (use 2 "1.prems" in \<open>auto simp: less_Suc_eq\<close>)
  next
    case 3
    let ?p = "skip_null pull n ms"
    note sk = skip_null_stop [OF "1.prems"(2), of ms]
    have "length (filter (\<lambda>k. ms ! k \<noteq> None) [0..<new_nused]) < length [0..<new_nused]"
      by (rule length_filter_less [of lcv]) (use 3 in auto)
    then have "live ms rs [pull..<n] \<noteq> []" using "1.prems"(6) by (auto simp: live_def)
    then have p: "?p < n" using live_skip [OF "1.prems"(2)] by (cases "?p < n") auto
    then obtain m where m: "ms ! ?p = Some m" using sk by auto
    let ?ms = "ms[lcv := ms ! ?p]" and ?rs = "rs[lcv := rs ! ?p]"
    have s: "compact lcv new_nused pull n ms rs = compact (lcv + 1) new_nused (?p + 1) n ?ms ?rs"
      using 3 p by (subst compact.simps) (simp add: Let_def)
    have tail: "live ms rs [pull..<n] = (m, rs ! ?p) # live ?ms ?rs [?p + 1..<n]"
      using live_skip [OF "1.prems"(2), of ms rs] p m 3(1) "1.prems"(1) sk
      by (simp add: upt_conv_Cons [OF p] live_Cons live_other)
    have front: "mset (live ?ms ?rs [0..<new_nused]) = add_mset (m, rs ! ?p) (mset (live ms rs [0..<new_nused]))"
      by (rule live_fill) (use 3 m "1.prems" in auto)
    have len: "length (live ?ms ?rs [0..<new_nused]) = Suc (length (live ms rs [0..<new_nused]))" using arg_cong [OF front, of size] by simp
    have "\<exists>ms' rs'. compact (lcv + 1) new_nused (?p + 1) n ?ms ?rs = (new_nused, ms', rs') \<and> length ms' = length ?ms \<and> length rs' = length ?rs \<and>
        (\<forall>k < new_nused. ms' ! k \<noteq> None) \<and>
        mset (live ms' rs' [0..<new_nused]) = mset (live ?ms ?rs [0..<new_nused]) + mset (live ?ms ?rs [?p + 1..<n])"
    proof (rule "1.IH"(2) [OF _ _ refl])
      show "\<forall>k < lcv + 1. ?ms ! k \<noteq> None" using "1.prems"(3,5) 3(1) "1.prems"(1,2) m by (auto simp: less_Suc_eq nth_list_update)
      show "length (live ?ms ?rs [0..<new_nused]) + length (live ?ms ?rs [?p + 1..<n]) = new_nused"
        using len tail "1.prems"(6) by simp
    qed (use 3 p sk "1.prems" in auto)
    then show ?thesis unfolding s using tail front by simp
  qed
qed

subsection \<open>One test of the started sends\<close>

definition mts_ok :: "mpimtsmgr \<Rightarrow> bool" where
  "mts_ok mts \<longleftrightarrow> 0 < nalloc mts \<and> nused mts \<le> nalloc mts \<and> nalloc mts \<le> length (mts_mqes mts) \<and> nalloc mts \<le> length (mts_reqs mts) \<and>
     (\<forall>k < nused mts. mts_mqes mts ! k \<noteq> None)"

definition in_slots :: "mpimtsmgr \<Rightarrow> (nat \<times> nat option) multiset" where
  "in_slots mts = mset (live (mts_mqes mts) (mts_reqs mts) [0..<nused mts])"

definition sent :: "testsome \<Rightarrow> mpimtsmgr \<Rightarrow> nat list" where
  "sent ts mts = map (\<lambda>i. the (mts_mqes mts ! i)) (ts_idx ts)"

definition testsome_ok :: "testsome \<Rightarrow> nat \<Rightarrow> bool" where
  "testsome_ok ts n \<longleftrightarrow> ts_rv ts \<in> {TS_SUCCESS, TS_IN_STATUS} \<and> distinct (ts_idx ts) \<and> (\<forall>i \<in> set (ts_idx ts). i < n)"

abbreviation punch :: "nat list \<Rightarrow> nat option list \<Rightarrow> nat option list" where
  "punch \<equiv> fold (\<lambda>i xs. xs[i := None])"

lemma punch_length [simp]: "length (punch idx xs) = length xs"
  by (induction idx arbitrary: xs) simp_all

lemma punch_nth: "k < length xs \<Longrightarrow> punch idx xs ! k = (if k \<in> set idx then None else xs ! k)"
  by (induction idx arbitrary: xs) (auto simp: nth_list_update)

lemma release_done_all:
  "distinct idx \<Longrightarrow> \<forall>i \<in> set idx. i < length ms \<and> ms ! i \<noteq> None \<Longrightarrow>
     release_done idx ms q = Inr (punch idx ms, fold mpimts_done (map (\<lambda>i. the (ms ! i)) idx) q)"
proof (induction idx arbitrary: ms q)
  case (Cons i idx)
  then obtain m where m: "ms ! i = Some m" by auto
  have "map (\<lambda>j. the (ms[i := None] ! j)) idx = map (\<lambda>j. the (ms ! j)) idx"
    using Cons.prems(1) by (auto intro!: arg_cong [where f = the] nth_list_update_neq)
  moreover have "\<forall>j \<in> set idx. j < length (ms[i := None]) \<and> ms[i := None] ! j \<noteq> None" using Cons.prems by (auto simp: nth_list_update)
  ultimately have "release_done idx (ms[i := None]) (mpimts_done m q) =
      Inr (punch idx (ms[i := None]), fold mpimts_done (map (\<lambda>j. the (ms ! j)) idx) (mpimts_done m q))"
    using Cons.IH [of "ms[i := None]" "mpimts_done m q"] Cons.prems(1) by (simp only: distinct.simps)
  then show ?case using Cons.prems m by simp
qed simp

lemma fold_min_le: "fold min idx (a :: nat) \<le> a \<and> (\<forall>i \<in> set idx. fold min idx a \<le> i)"
proof (induction idx arbitrary: a)
  case (Cons i idx)
  have "fold min idx (min i a) \<le> min i a" "\<forall>j \<in> set idx. fold min idx (min i a) \<le> j" using Cons.IH by blast+
  then show ?case by auto
qed simp

lemma live_punch:
  "\<forall>k \<in> set ks. k < length ms \<and> k < length rs \<Longrightarrow> live (punch idx ms) (punch idx rs) ks = live ms rs (filter (\<lambda>k. k \<notin> set idx) ks)"
  by (induction ks) (auto simp: live_Cons punch_nth split: option.splits)

lemma length_filter_notin:
  assumes "distinct idx" "\<forall>i \<in> set idx. i < n"
  shows "length (filter (\<lambda>k. k \<notin> set idx) [0..<n]) = n - length idx"
proof -
  have "length (filter (\<lambda>k. k \<notin> set idx) [0..<n]) = card ({0..<n} - set idx)"
    by (subst distinct_card [symmetric]) (auto intro: arg_cong [where f = card])
  also have "\<dots> = n - card (set idx)" using assms(2) by (subst card_Diff_subset) auto
  finally show ?thesis using assms(1) by (simp add: distinct_card)
qed

lemma test_stats_slots [simp]:
  "nused (test_stats g mts) = nused mts" "nalloc (test_stats g mts) = nalloc mts"
  "mts_mqes (test_stats g mts) = mts_mqes mts" "mts_reqs (test_stats g mts) = mts_reqs mts"
  by (simp_all add: test_stats_def Let_def)

lemma mpimts_test_slots:
  assumes ok: "mts_ok mts" and ts: "testsome_ok ts (nused mts)"
  shows "\<exists>mts'. mpimts_test ts mts q = Inr (0, mts', if nused mts = 0 then q else fold mpimts_done (sent ts mts) q) \<and> mts_ok mts' \<and>
    nused mts' = nused mts - length (ts_idx ts) \<and>
    in_slots mts' = mset (live (mts_mqes mts) (mts_reqs mts) (filter (\<lambda>k. k \<notin> set (ts_idx ts)) [0..<nused mts]))"
proof (cases "nused mts = 0 \<or> ts_idx ts = []")
  case True
  then show ?thesis using ok ts
    by (cases "ts_rv ts") (auto simp: mpimts_test_def in_slots_def testsome_ok_def mts_ok_def sent_def Let_def)
next
  case False
  let ?n = "nused mts" and ?idx = "ts_idx ts" and ?ms = "mts_mqes mts" and ?rs = "mts_reqs mts"
  let ?new = "?n - length ?idx" and ?f = "fold min ?idx (hd ?idx)"
  have idx: "distinct ?idx" "\<forall>i \<in> set ?idx. i < ?n" and rv: "ts_rv ts \<in> {TS_SUCCESS, TS_IN_STATUS}"
    using ts by (auto simp: testsome_ok_def)
  have len: "?n \<le> length ?ms" "?n \<le> length ?rs" and full: "\<forall>k < ?n. ?ms ! k \<noteq> None" using ok by (auto simp: mts_ok_def)
  have rel: "release_done ?idx ?ms q = Inr (punch ?idx ?ms, fold mpimts_done (sent ts mts) q)"
    unfolding sent_def by (rule release_done_all) (use idx len full in auto)
  have lp: "live (punch ?idx ?ms) (punch ?idx ?rs) [0..<?n] = live ?ms ?rs (filter (\<lambda>k. k \<notin> set ?idx) [0..<?n])"
    by (rule live_punch) (use len in auto)
  have ll: "length (live (punch ?idx ?ms) (punch ?idx ?rs) [0..<?n]) = ?new"
    unfolding lp using length_filter_notin [OF idx] full by (subst live_full) auto
  show ?thesis
  proof (cases "?n \<le> length ?idx")
    case True
    then have "filter (\<lambda>k. k \<notin> set ?idx) [0..<?n] = []" using length_filter_notin [OF idx] by simp
    then show ?thesis using True rv rel ok \<open>\<not> (?n = 0 \<or> ?idx = [])\<close>
      by (auto simp: mpimts_test_def Let_def in_slots_def mts_ok_def)
  next
    case less: False
    have split: "[0..<?n] = [0..<?new] @ [?new..<?n]" using upt_add_eq_append [of 0 ?new "?n - ?new"] by simp
    have cut: "live (punch ?idx ?ms) (punch ?idx ?rs) [0..<?n] =
        live (punch ?idx ?ms) (punch ?idx ?rs) [0..<?new] @ live (punch ?idx ?ms) (punch ?idx ?rs) [?new..<?n]"
      by (subst split) (rule live_append)
    have "k < ?n \<and> k \<notin> set ?idx" if "k < ?f" for k
      using fold_min_le [of ?idx "hd ?idx"] idx(2) that hd_in_set [of ?idx] \<open>\<not> (?n = 0 \<or> ?idx = [])\<close> by fastforce
    then have "punch ?idx ?ms ! k \<noteq> None" if "k < ?f" for k using that len full punch_nth [of k ?ms ?idx] by fastforce
    then have "\<forall>k < ?f. punch ?idx ?ms ! k \<noteq> None" by blast
    moreover have "length (live (punch ?idx ?ms) (punch ?idx ?rs) [0..<?new]) + length (live (punch ?idx ?ms) (punch ?idx ?rs) [?new..<?n]) = ?new"
      using ll unfolding cut by simp
    ultimately obtain ms' rs' where c: "compact ?f ?new ?new ?n (punch ?idx ?ms) (punch ?idx ?rs) = (?new, ms', rs')"
      "length ms' = length ?ms" "length rs' = length ?rs" "\<forall>k < ?new. ms' ! k \<noteq> None"
      "mset (live ms' rs' [0..<?new]) = mset (live (punch ?idx ?ms) (punch ?idx ?rs) [0..<?n])"
      using compact_fills [of ?new ?new ?n "punch ?idx ?ms" "punch ?idx ?rs" ?f] len unfolding cut by auto
    show ?thesis using less rv rel ok c lp \<open>\<not> (?n = 0 \<or> ?idx = [])\<close>
      by (auto simp: mpimts_test_def Let_def in_slots_def mts_ok_def)
  qed
qed

text \<open>
  C6. One call of \<open>mpimts_test\<close> does exactly what \<^verbatim>\<open>MPI_Testsome\<close> reports: when it names
  distinct positions of slots in use as finished, the entries of these slots are released, once each,
  in the order in which they are named, the call succeeds, and filling the holes loses, duplicates or
  mismatches nothing: the slots in use afterwards hold precisely the entries that are
  not finished, each with its own MPI request.  The branch "pull overflow - should not
  happen!" is never taken.
\<close>

theorem mpimts_test_exact:
  assumes "mts_ok mts" "testsome_ok ts (nused mts)" "0 < nused mts"
  shows "\<exists>mts'. mpimts_test ts mts q = Inr (0, mts', fold mpimts_done (sent ts mts) q) \<and> mts_ok mts' \<and>
    nused mts' = nused mts - length (ts_idx ts) \<and>
    in_slots mts' = mset (live (mts_mqes mts) (mts_reqs mts) (filter (\<lambda>k. k \<notin> set (ts_idx ts)) [0..<nused mts]))"
  using mpimts_test_slots [OF assms(1,2), of q] assms(3) by simp

definition ex_mts :: mpimtsmgr where
  "ex_mts = \<lparr>nalloc = 8, nused = 6, ntestsome = 0, got1 = 0, gotmore = 0, gotmax = 0,
     mts_mqes = map Some [10, 11, 12, 13, 14, 15] @ [None, None], mts_reqs = map Some [20, 21, 22, 23, 24, 25] @ [None, None],
     idxout_len = 8, statout_len = 8\<rparr>"

definition ex_testsome :: testsome where
  "ex_testsome = \<lparr>ts_rv = TS_SUCCESS, ts_idx = [4, 0, 1]\<rparr>"

lemma ex_mts_ok: "mts_ok ex_mts" "testsome_ok ex_testsome (nused ex_mts)" "0 < nused ex_mts"
  by code_simp+

theorem mpimts_test_exact_witness:
  "\<exists>mts'. mpimts_test ex_testsome ex_mts (dtq_init []) = Inr (0, mts', fold mpimts_done [14, 10, 11] (dtq_init [])) \<and> nused mts' = 3 \<and>
     in_slots mts' = {#(12, Some 22), (13, Some 23), (15, Some 25)#}"
proof -
  have "sent ex_testsome ex_mts = [14, 10, 11]" "nused ex_mts - length (ts_idx ex_testsome) = 3"
    "live (mts_mqes ex_mts) (mts_reqs ex_mts) (filter (\<lambda>k. k \<notin> set (ts_idx ex_testsome)) [0..<nused ex_mts]) =
       [(12, Some 22), (13, Some 23), (15, Some 25)]"
    by code_simp+
  then show ?thesis using mpimts_test_exact [OF ex_mts_ok, of "dtq_init []"] by auto
qed

subsection \<open>The MPI thread as steps of the rank\<close>

definition sending_mqes :: "mpimtsmgr \<Rightarrow> nat multiset" where
  "sending_mqes mts = image_mset fst (in_slots mts)"

lemma release_steps:
  "mset ms \<subseteq># infl r \<Longrightarrow>
     rank_step\<^sup>*\<^sup>* r (r\<lparr>rk := (rk r)\<lparr>dtq := fold mpimts_done ms (dtq (rk r))\<rparr>, infl := infl r - mset ms\<rparr>)"
proof (induction ms arbitrary: r)
  case (Cons m ms)
  let ?r = "r\<lparr>rk := (rk r)\<lparr>dtq := dtq_send_release m (dtq (rk r))\<rparr>, infl := infl r - {#m#}\<rparr>"
  have "m \<in># infl r" and sub: "mset ms \<subseteq># infl ?r" using Cons.prems by (auto simp: insert_subset_eq_iff)
  then have "rank_step r ?r" by (intro rank_step.mpi_sent)
  then show ?case using Cons.IH [OF sub] by (auto simp: mpimts_done_def intro: converse_rtranclp_into_rtranclp)
qed simp

lemma live_mqes: "\<forall>k \<in> set ks. ms ! k \<noteq> None \<Longrightarrow> map fst (live ms rs ks) = map (\<lambda>k. the (ms ! k)) ks"
  by (simp add: live_def)

lemma sending_split:
  assumes ok: "mts_ok mts" and idx: "distinct idx" "\<forall>i \<in> set idx. i < nused mts"
  shows "sending_mqes mts = mset (map (\<lambda>i. the (mts_mqes mts ! i)) idx) +
    image_mset fst (mset (live (mts_mqes mts) (mts_reqs mts) (filter (\<lambda>k. k \<notin> set idx) [0..<nused mts])))"
proof -
  let ?g = "\<lambda>k. the (mts_mqes mts ! k)"
  have full: "\<forall>k < nused mts. mts_mqes mts ! k \<noteq> None" using ok by (simp add: mts_ok_def)
  have "mset (filter (\<lambda>k. k \<in> set idx) [0..<nused mts]) = mset idx"
    by (rule set_eq_iff_mset_eq_distinct [THEN iffD1]) (use idx in auto)
  then have "mset [0..<nused mts] = mset idx + mset (filter (\<lambda>k. k \<notin> set idx) [0..<nused mts])"
    using multiset_partition [of "mset [0..<nused mts]" "\<lambda>k. k \<in> set idx"] by simp
  then have "image_mset ?g (mset [0..<nused mts]) = image_mset ?g (mset idx) + image_mset ?g (mset (filter (\<lambda>k. k \<notin> set idx) [0..<nused mts]))"
    by simp
  moreover have "mset (map fst (live (mts_mqes mts) (mts_reqs mts) [0..<nused mts])) = mset (map ?g [0..<nused mts])"
    "mset (map fst (live (mts_mqes mts) (mts_reqs mts) (filter (\<lambda>k. k \<notin> set idx) [0..<nused mts]))) =
      mset (map ?g (filter (\<lambda>k. k \<notin> set idx) [0..<nused mts]))"
    using full by (simp_all add: live_mqes del: mset_map)
  ultimately show ?thesis by (simp add: sending_mqes_def in_slots_def)
qed

text \<open>
  What MPI documents of the answer of \<^verbatim>\<open>MPI_Testsome\<close> for \<open>n\<close> active requests: it names
  distinct requests of them, and the answer \<^verbatim>\<open>MPI_UNDEFINED\<close> is for a table without any.
  Nothing is asked of what arrives.
\<close>

definition answers_ok :: "turn_env \<Rightarrow> nat \<Rightarrow> bool" where
  "answers_ok e n \<longleftrightarrow> ts_rv (te_testsome e) \<noteq> TS_UNDEFINED \<and> distinct (ts_idx (te_testsome e)) \<and>
     (\<forall>i \<in> set (ts_idx (te_testsome e)). i < n)"

text \<open>A message that is longer than a frame arrives in this turn.\<close>

definition too_long :: "turn_env \<Rightarrow> bool" where
  "too_long e \<longleftrightarrow> (case te_probe e of
     Some (Some st) \<Rightarrow> pr_recv_ok st \<and> (case pr_count st of Some c \<Rightarrow> DTQ_MAXMSGSIZE < c | None \<Rightarrow> False)
   | _ \<Rightarrow> False)"

definition refines :: "rank_sys \<Rightarrow> mpit \<Rightarrow> dtrs \<Rightarrow> bool" where
  "refines r x s \<longleftrightarrow> rank_step\<^sup>*\<^sup>* r (r\<lparr>rk := s, infl := sending_mqes (mpi_mts x)\<rparr>) \<and> mts_ok (mpi_mts x)"

lemma refinesI:
  "rank_step\<^sup>*\<^sup>* r r' \<Longrightarrow> r' = r\<lparr>rk := s, infl := sending_mqes (mpi_mts x)\<rparr> \<Longrightarrow> mts_ok (mpi_mts x) \<Longrightarrow> refines r x s"
  by (simp add: refines_def)

lemma mpimts_test_failed:
  assumes "mts_ok mts" "ts_rv ts = TS_OTHER"
  shows "\<exists>rv mts'. mpimts_test ts mts q = Inr (rv, mts', q) \<and> mts_ok mts' \<and> sending_mqes mts' = sending_mqes mts"
proof -
  let ?mts = "mts\<lparr>ntestsome := ntestsome mts + 1, mts_reqs := punch (ts_idx ts) (mts_reqs mts)\<rparr>"
  have "mset (map fst (live (mts_mqes mts) rs [0..<nused mts])) = mset (map (\<lambda>k. the (mts_mqes mts ! k)) [0..<nused mts])" for rs
    using assms(1) by (simp add: live_mqes mts_ok_def del: mset_map)
  then have "sending_mqes ?mts = sending_mqes mts" "mts_ok ?mts" using assms(1) by (simp_all add: sending_mqes_def in_slots_def mts_ok_def)
  then show ?thesis using assms by (simp add: mpimts_test_def Let_def)
qed

lemma test_refines:
  assumes "mts_ok (mpi_mts x)" "infl r = sending_mqes (mpi_mts x)" "answers_ok e (nused (mpi_mts x))"
  shows "\<exists>rv mts q. mpimts_test (te_testsome e) (mpi_mts x) (dtq (rk r)) = Inr (rv, mts, q) \<and>
    refines r (x\<lparr>mpi_mts := mts\<rparr>) ((rk r)\<lparr>dtq := q\<rparr>)"
proof (cases "ts_rv (te_testsome e) = TS_OTHER")
  case True
  then obtain rv mts where "mpimts_test (te_testsome e) (mpi_mts x) (dtq (rk r)) = Inr (rv, mts, dtq (rk r))" "mts_ok mts"
      "sending_mqes mts = sending_mqes (mpi_mts x)"
    using mpimts_test_failed [OF assms(1)] by blast
  moreover have "refines r (x\<lparr>mpi_mts := mts\<rparr>) ((rk r)\<lparr>dtq := dtq (rk r)\<rparr>)"
    by (rule refinesI [of _ r]) (use calculation assms(2) in simp_all)
  ultimately show ?thesis by blast
next
  case False
  let ?mts = "mpi_mts x" and ?ts = "te_testsome e"
  have ok: "testsome_ok ?ts (nused ?mts)" using False assms(3) by (cases "ts_rv ?ts") (auto simp: answers_ok_def testsome_ok_def)
  obtain mts' where t: "mpimts_test ?ts ?mts (dtq (rk r)) =
      Inr (0, mts', if nused ?mts = 0 then dtq (rk r) else fold mpimts_done (sent ?ts ?mts) (dtq (rk r)))" "mts_ok mts'"
      "in_slots mts' = mset (live (mts_mqes ?mts) (mts_reqs ?mts) (filter (\<lambda>k. k \<notin> set (ts_idx ?ts)) [0..<nused ?mts]))"
    using mpimts_test_slots [OF assms(1) ok] by blast
  have "nused ?mts = 0 \<Longrightarrow> sent ?ts ?mts = []" using ok by (cases "ts_idx ?ts") (auto simp: testsome_ok_def sent_def)
  then have q: "(if nused ?mts = 0 then dtq (rk r) else fold mpimts_done (sent ?ts ?mts) (dtq (rk r))) = fold mpimts_done (sent ?ts ?mts) (dtq (rk r))"
    by simp
  have split: "infl r = mset (sent ?ts ?mts) + sending_mqes mts'"
    using sending_split [OF assms(1), of "ts_idx ?ts"] ok t(3) assms(2) by (simp add: testsome_ok_def sent_def sending_mqes_def)
  then have "rank_step\<^sup>*\<^sup>* r (r\<lparr>rk := (rk r)\<lparr>dtq := fold mpimts_done (sent ?ts ?mts) (dtq (rk r))\<rparr>, infl := sending_mqes mts'\<rparr>)"
    using release_steps [of "sent ?ts ?mts" r] by simp
  then have "refines r (x\<lparr>mpi_mts := mts'\<rparr>) ((rk r)\<lparr>dtq := fold mpimts_done (sent ?ts ?mts) (dtq (rk r))\<rparr>)"
    by (rule refinesI) (simp_all add: t(2))
  then show ?thesis unfolding t(1) q by blast
qed

lemma refines_chain:
  assumes "refines r x s" "refines (r\<lparr>rk := s, infl := sending_mqes (mpi_mts x)\<rparr>) x' s'"
  shows "refines r x' s'"
  using assms unfolding refines_def by (auto intro: rtranclp_trans)

lemma realloced_nth: "k < length xs \<Longrightarrow> k < n \<Longrightarrow> realloced n x xs ! k = xs ! k"
  by (simp add: realloced_def nth_append)

lemma realloced_length [simp]: "length (realloced n x xs) = n"
  by (simp add: realloced_def)

lemma live_cong:
  "(\<And>k. k \<in> set ks \<Longrightarrow> ms' ! k = ms ! k \<and> rs' ! k = rs ! k) \<Longrightarrow> live ms' rs' ks = live ms rs ks"
  by (induction ks) (simp_all add: live_Cons split: option.splits)

lemma setslots_keeps:
  assumes "mts_ok mts" "nalloc mts \<le> n" "mpimts_setslots e n mts = (rv, mts')"
  shows "mts_ok mts' \<and> in_slots mts' = in_slots mts \<and> nused mts' = nused mts \<and> (rv = 0 \<and> n \<le> nalloc mts' \<or> rv = -1)"
proof -
  have len: "nused mts \<le> nalloc mts" "nalloc mts \<le> length (mts_mqes mts)" "nalloc mts \<le> length (mts_reqs mts)" using assms(1) by (simp_all add: mts_ok_def)
  have m: "realloced n y (mts_mqes mts) ! k = mts_mqes mts ! k" and q: "realloced n z (mts_reqs mts) ! k = mts_reqs mts ! k"
    if "k < nused mts" for k y z using that len assms(2) by (simp_all add: realloced_nth)
  have l: "live (realloced n y (mts_mqes mts)) (realloced n z (mts_reqs mts)) [0..<nused mts] = live (mts_mqes mts) (mts_reqs mts) [0..<nused mts]"
    "live (realloced n y (mts_mqes mts)) (mts_reqs mts) [0..<nused mts] = live (mts_mqes mts) (mts_reqs mts) [0..<nused mts]" for y z
    by (rule live_cong, simp add: m q)+
  show ?thesis using assms m l
    by (auto simp: mpimts_setslots_def mts_ok_def in_slots_def Let_def split: if_splits)
qed

lemma add_keeps:
  assumes "mts_ok mts"
  shows "\<exists>rv mts'. mpimts_add e m q mts = Inr (rv, mts') \<and> mts_ok mts' \<and>
    (rv = -1 \<and> in_slots mts' = in_slots mts \<or> rv = 0 \<and> in_slots mts' = add_mset (m, Some q) (in_slots mts))"
proof -
  obtain rv mts1 where g: "(if nused mts = nalloc mts then mpimts_setslots e (nalloc mts * 2) mts else (0, mts)) = (rv, mts1)" by fastforce
  then have k: "mts_ok mts1 \<and> in_slots mts1 = in_slots mts \<and> (rv = 0 \<and> nused mts1 < nalloc mts1 \<or> rv = -1)"
    using setslots_keeps [OF assms, of "nalloc mts * 2" e rv mts1] assms by (auto simp: mts_ok_def split: if_splits)
  show ?thesis
  proof (cases "rv = -1")
    case True
    then show ?thesis using g k by (simp add: mpimts_add_def Let_def)
  next
    case False
    then have u: "nused mts1 < length (mts_mqes mts1)" "nused mts1 < length (mts_reqs mts1)" "nused mts1 < nalloc mts1" "rv = 0"
      using k by (auto simp: mts_ok_def)
    have "live ((mts_mqes mts1)[nused mts1 := Some m]) ((mts_reqs mts1)[nused mts1 := Some q]) [0..<nused mts1] =
        live (mts_mqes mts1) (mts_reqs mts1) [0..<nused mts1]" by (rule live_other) simp
    then show ?thesis using g k u
      by (auto simp: mpimts_add_def Let_def mts_ok_def in_slots_def live_append live_Cons nth_list_update less_Suc_eq)
  qed
qed

lemma send_refines:
  assumes ok: "mts_ok (mpi_mts x)" and i: "infl r = sending_mqes (mpi_mts x)"
  shows "\<exists>x' s'. mpit_send e x (rk r) = Inr (x', s') \<and> refines r x' s'"
proof (cases "dtq_send_dequeue (dtq (rk r))")
  case (Pair mo q)
  show ?thesis
  proof (cases mo)
    case None
    then have "q = dtq (rk r)" using Pair by (auto simp: dtq_ops split: list.splits)
    then have "mpit_send e x (rk r) = Inr (x, rk r)" using Pair None by (simp add: mpit_send_def)
    moreover have "refines r x (rk r)" by (rule refinesI [of _ r]) (simp_all add: ok i)
    ultimately show ?thesis by blast
  next
    case (Some m)
    let ?r1 = "r\<lparr>rk := (rk r)\<lparr>dtq := q\<rparr>, infl := add_mset m (infl r)\<rparr>"
    let ?r2 = "r\<lparr>rk := (rk r)\<lparr>dtq := mpimts_done m q\<rparr>\<rparr>"
    have s1: "rank_step r ?r1" using Pair Some by (intro rank_step.mpi_send) simp
    have "rank_step ?r1 ?r2" using rank_step.mpi_sent [of m ?r1] by (simp add: mpimts_done_def)
    then have s2: "rank_step\<^sup>*\<^sup>* r ?r2" using s1 by (meson r_into_rtranclp rtranclp.rtrancl_into_rtrancl)
    show ?thesis
    proof (cases "te_isend e")
      case None
      then have "mpit_send e x (rk r) = Inr (x, (rk r)\<lparr>dtq := mpimts_done m q\<rparr>)" using Pair Some by (simp add: mpit_send_def)
      moreover have "refines r x ((rk r)\<lparr>dtq := mpimts_done m q\<rparr>)" by (rule refinesI [OF s2]) (simp_all add: ok i)
      ultimately show ?thesis by blast
    next
      case (Some newreq)
      obtain rv mts where a: "mpimts_add (te_realloc e) m newreq (mpi_mts x) = Inr (rv, mts)" "mts_ok mts"
          "rv = -1 \<and> in_slots mts = in_slots (mpi_mts x) \<or> rv = 0 \<and> in_slots mts = add_mset (m, Some newreq) (in_slots (mpi_mts x))"
        using add_keeps [OF ok] by blast
      let ?x = "x\<lparr>isend_cnt := isend_cnt x + 1, isend_bytes := isend_bytes x + word_of_int (flen (mqes (rk r) m)), mpi_mts := mts\<rparr>"
      have e: "mpit_send e x (rk r) = Inr (?x, (rk r)\<lparr>dtq := if rv = -1 then mpimts_done m q else q\<rparr>)"
        using Pair Some \<open>mo = Some m\<close> a(1) by (simp add: mpit_send_def Let_def)
      show ?thesis
      proof (cases "rv = -1")
        case True
        then have "refines r ?x ((rk r)\<lparr>dtq := mpimts_done m q\<rparr>)" by (intro refinesI [OF s2]) (use a i in \<open>simp_all add: sending_mqes_def\<close>)
        then show ?thesis using e True by simp
      next
        case False
        then have "refines r ?x ((rk r)\<lparr>dtq := q\<rparr>)"
          by (intro refinesI [OF r_into_rtranclp [of rank_step, OF s1]]) (use a i in \<open>simp_all add: sending_mqes_def\<close>)
        then show ?thesis using e False by simp
      qed
    qed
  qed
qed

lemma mpimqerecv_steps:
  "(\<exists>out. mpimqerecv st (rk r) = Inr out \<and> (\<forall>ret s'. out = Some (ret, s') \<longrightarrow> rank_step\<^sup>*\<^sup>* r (r\<lparr>rk := s'\<rparr>))) \<or>
   mpimqerecv st (rk r) = Inl Out_of_bounds \<and> pr_recv_ok st \<and> (\<exists>c. pr_count st = Some c \<and> DTQ_MAXMSGSIZE < c)"
proof (cases "pr_count st")
  case (Some c)
  obtain mo s1 where al: "mqe_alloc (rk r) = (mo, s1)" by fastforce
  show ?thesis
  proof (cases mo)
    case None
    then show ?thesis using Some al by (auto simp: mpimqerecv_def Let_def)
  next
    case m: (Some m)
    let ?e = "\<lambda>e. e\<lparr>flen := c, peer := pr_source st, frame := pr_msg st\<rparr>"
    let ?r1 = "r\<lparr>rk := s1, held := held r + {#m#}\<rparr>"
    have s1: "rank_step r ?r1" using rank_step.mpi_alloc [OF al] m by simp
    let ?u = "upd_mqe m ?e s1"
    have u: "upd_mqe m (\<lambda>_. ?e (mqes s1 m)) s1 = ?u" and d: "dtq ?u = dtq s1" by (simp_all add: upd_mqe_def)
    have "rank_step ?r1 (r\<lparr>rk := ?u\<lparr>dtq := dtq_recv_enqueue m (dtq s1)\<rparr>\<rparr>)"
      using rank_step.mpi_recv [of m ?r1 "?e (mqes s1 m)"] by (simp add: u)
    then have q: "rank_step\<^sup>*\<^sup>* r (r\<lparr>rk := ?u\<lparr>dtq := dtq_recv_enqueue m (dtq s1)\<rparr>\<rparr>)" using s1 by (meson r_into_rtranclp rtranclp.rtrancl_into_rtrancl)
    have "rank_step ?r1 (r\<lparr>rk := ?u\<lparr>dtq := dtq_recv_release m (dtq s1)\<rparr>\<rparr>)"
      using rank_step.mpi_free [of m ?r1 "?e (mqes s1 m)"] by (simp add: u dtq_mqe_unalloc_def dtq_recv_release_def)
    then have f: "rank_step\<^sup>*\<^sup>* r (r\<lparr>rk := ?u\<lparr>dtq := dtq_recv_release m (dtq s1)\<rparr>\<rparr>)" using s1 by (meson r_into_rtranclp rtranclp.rtrancl_into_rtrancl)
    have "mpimqerecv st (rk r) =
        (if c < 1 then Inr None else if DTQ_MAXMSGSIZE < c \<and> pr_recv_ok st then Inl Out_of_bounds
         else if pr_recv_ok st then Inr (Some (c, ?u\<lparr>dtq := dtq_recv_enqueue m (dtq s1)\<rparr>))
         else Inr (Some (0, ?u\<lparr>dtq := dtq_recv_release m (dtq s1)\<rparr>)))"
      using Some al m by (auto simp: mpimqerecv_def Let_def recv_release_def d)
    then show ?thesis using q f Some by (cases "c < 1"; cases "pr_recv_ok st"; cases "DTQ_MAXMSGSIZE < c") simp_all
  qed
qed (simp add: mpimqerecv_def)

lemma recv_refines:
  assumes "mts_ok (mpi_mts x)" "infl r = sending_mqes (mpi_mts x)"
  shows "(\<exists>out. mpit_recv e x (rk r) = Inr out \<and> (\<forall>x' s'. out = Some (x', s') \<longrightarrow> refines r x' s' \<and> mpit_state x' = mpit_state x)) \<or>
    mpit_recv e x (rk r) = Inl Out_of_bounds \<and> too_long e"
proof -
  have stay: "refines r x' s'" if "rank_step\<^sup>*\<^sup>* r (r\<lparr>rk := s'\<rparr>)" "mpi_mts x' = mpi_mts x" for x' s'
    by (rule refinesI [OF that(1)]) (use that(2) assms(1,2) in simp_all)
  consider "te_probe e = None" | "te_probe e = Some None" | st where "te_probe e = Some (Some st)" by (cases "te_probe e") auto
  then show ?thesis
  proof cases
    case (3 st)
    from mpimqerecv_steps [of st r] show ?thesis
    proof (elim disjE exE conjE)
      fix out assume o: "mpimqerecv st (rk r) = Inr out" "\<forall>ret s'. out = Some (ret, s') \<longrightarrow> rank_step\<^sup>*\<^sup>* r (r\<lparr>rk := s'\<rparr>)"
      then show ?thesis using 3 stay by (cases out) (auto simp: mpit_recv_def Let_def)
    next
      fix c assume "mpimqerecv st (rk r) = Inl Out_of_bounds" "pr_recv_ok st" "pr_count st = Some c" "DTQ_MAXMSGSIZE < c"
      then show ?thesis using 3 by (simp add: mpit_recv_def Let_def too_long_def)
    qed
  qed (use stay [of "rk r"] in \<open>auto simp: mpit_recv_def Let_def\<close>)
qed

lemma send_state: "mpit_send e x s = Inr (x', s') \<Longrightarrow> mpit_state x' = mpit_state x"
  by (auto simp: mpit_send_def Let_def split: prod.splits option.splits if_splits)

lemma turn_refines:
  assumes "mts_ok (mpi_mts x)" "infl r = sending_mqes (mpi_mts x)" "answers_ok e (nused (mpi_mts x))"
  shows "(\<exists>out. mpit_turn e x (rk r) = Inr out \<and> (\<forall>x' s'. out = Some (x', s') \<longrightarrow> refines r x' s' \<and> mpit_state x' = mpit_state x)) \<or>
    mpit_turn e x (rk r) = Inl Out_of_bounds \<and> too_long e"
proof -
  obtain rv mts q where t: "mpimts_test (te_testsome e) (mpi_mts x) (dtq (rk r)) = Inr (rv, mts, q)"
    and r: "refines r (x\<lparr>mpi_mts := mts\<rparr>) ((rk r)\<lparr>dtq := q\<rparr>)" using test_refines [OF assms] by blast
  show ?thesis
  proof (cases "rv = 0")
    case False
    then show ?thesis using t r by (simp add: mpit_turn_def Let_def refines_def)
  next
    case True
    let ?r1 = "r\<lparr>rk := (rk r)\<lparr>dtq := q\<rparr>, infl := sending_mqes mts\<rparr>"
    obtain x2 s2 where s: "mpit_send e (x\<lparr>mpi_mts := mts\<rparr>) (rk ?r1) = Inr (x2, s2)" "refines ?r1 x2 s2"
      using send_refines [of "x\<lparr>mpi_mts := mts\<rparr>" ?r1 e] r by (auto simp: refines_def)
    have r2: "refines r x2 s2" by (rule refines_chain [OF r]) (use s(2) in simp)
    then have ok2: "mts_ok (mpi_mts x2)" by (simp add: refines_def)
    let ?r2 = "r\<lparr>rk := s2, infl := sending_mqes (mpi_mts x2)\<rparr>"
    have turn: "mpit_turn e x (rk r) = mpit_recv e x2 (rk ?r2)" using t True s(1) by (simp add: mpit_turn_def Let_def)
    have i2: "infl ?r2 = sending_mqes (mpi_mts x2)" by simp
    have "refines r x' s' \<and> mpit_state x' = mpit_state x" if "refines ?r2 x' s' \<and> mpit_state x' = mpit_state x2" for x' s'
      using that refines_chain [OF r2] send_state [OF s(1)] by simp
    then show ?thesis unfolding turn using recv_refines [OF ok2 i2, of e] by blast
  qed
qed

lemma finish_refines:
  assumes "mts_ok (mpi_mts x)" "infl r = sending_mqes (mpi_mts x)" "mpit_finish x (rk r) = (x', s')"
  shows "rank_step\<^sup>*\<^sup>* r (r\<lparr>rk := s', infl := {#}\<rparr>) \<and> mpi_mts x' = MPIMTSMGR_INIT \<and> mpit_state x' = MTS_DONE"
proof -
  let ?mts = "mpi_mts x" and ?all = "map (\<lambda>k. the (mts_mqes (mpi_mts x) ! k)) [0..<nused (mpi_mts x)]"
  have full: "\<forall>k < nused ?mts. mts_mqes ?mts ! k \<noteq> None" using assms(1) by (simp add: mts_ok_def)
  have "fold (\<lambda>i q. case mts_mqes ?mts ! i of None \<Rightarrow> q | Some m \<Rightarrow> mpimts_done m q) [0..<nused ?mts] q = fold mpimts_done ?all q" for q
    unfolding fold_map by (rule fold_cong) (use full in auto)
  then have s': "s' = (rk r)\<lparr>dtq := fold mpimts_done ?all (dtq (rk r))\<rparr>" and x': "mpi_mts x' = MPIMTSMGR_INIT" "mpit_state x' = MTS_DONE"
    using assms(3) by (auto simp: mpit_finish_def mpimts_finalize_def mpimts_afree_def)
  have "mset (map fst (live (mts_mqes ?mts) (mts_reqs ?mts) [0..<nused ?mts])) = mset ?all" using full by (simp add: live_mqes del: mset_map)
  then have "infl r = mset ?all" using assms(2) by (simp add: sending_mqes_def in_slots_def)
  then show ?thesis using release_steps [of ?all r] s' x' by simp
qed

lemma start_ok:
  assumes "mpit_start e x = (True, x')"
  shows "mts_ok (mpi_mts x') \<and> sending_mqes (mpi_mts x') = {#} \<and> mpit_state x' = MTS_RUN"
  using assms
  by (auto simp: mpit_start_def mpimts_init_def mpimts_setslots_def MPIMTSMGR_INIT_def mts_ok_def sending_mqes_def in_slots_def Let_def
      split: if_splits)

subsection \<open>A rank with its MPI thread\<close>

text \<open>
  The MPI thread from its start to its end, between the steps of the other threads, which
  start no send and hold no receive buffer of it; \<open>infl\<close> is the part of the rank that its
  slots represent.
\<close>

inductive mpit_run :: "bool list \<Rightarrow> mpit \<Rightarrow> rank_sys \<Rightarrow> bool" for env :: "bool list" where
  start: "rank_reach env r \<Longrightarrow> infl r = {#} \<Longrightarrow> mpit_start e x = (True, x') \<Longrightarrow> mpit_run env x' r"
| turn: "mpit_run env x r \<Longrightarrow> mpit_state x = MTS_RUN \<Longrightarrow> \<not> mpiabort x \<Longrightarrow> answers_ok e (nused (mpi_mts x)) \<Longrightarrow>
     mpit_turn e x (rk r) = Inr (Some (x', s')) \<Longrightarrow> mpit_run env x' (r\<lparr>rk := s', infl := sending_mqes (mpi_mts x')\<rparr>)"
| other: "mpit_run env x r \<Longrightarrow> rank_step r r' \<Longrightarrow> infl r' = infl r \<Longrightarrow> held r' = held r \<Longrightarrow> mpit_run env x r'"
| stop: "mpit_run env x r \<Longrightarrow> mpit_stop_request x = (True, x') \<Longrightarrow> mpit_run env x' r"
| finish: "mpit_run env x r \<Longrightarrow> mpit_state x \<noteq> MTS_DONE \<Longrightarrow> mpit_state x \<noteq> MTS_RUN \<or> mpiabort x \<Longrightarrow>
     mpit_finish x (rk r) = (x', s') \<Longrightarrow> mpit_run env x' (r\<lparr>rk := s', infl := sending_mqes (mpi_mts x')\<rparr>)"

lemma rank_reach_steps: "rank_step\<^sup>*\<^sup>* r r' \<Longrightarrow> rank_reach env r \<Longrightarrow> rank_reach env r'"
  by (induction rule: rtranclp_induct) (auto intro: rank_reach.step)

lemma mpit_run_inv:
  "mpit_run env x r \<Longrightarrow> rank_reach env r \<and> infl r = sending_mqes (mpi_mts x) \<and>
     (if mpit_state x = MTS_DONE then infl r = {#} else mts_ok (mpi_mts x))"
proof (induction rule: mpit_run.induct)
  case (start r e x x')
  then show ?case using start_ok by auto
next
  case (turn x r e x' s')
  then have "refines r x' s' \<and> mpit_state x' = mpit_state x" using turn_refines [of x r e] by (auto split: if_splits)
  then show ?case using turn rank_reach_steps by (auto simp: refines_def)
next
  case (other x r r')
  then show ?case using rank_reach.step [of env r r'] by auto
next
  case (stop x r x')
  then show ?case by (auto simp: mpit_stop_request_def split: if_splits)
next
  case (finish x r x' s')
  have "sending_mqes MPIMTSMGR_INIT = {#}" by (simp add: sending_mqes_def in_slots_def MPIMTSMGR_INIT_def)
  then show ?case using finish finish_refines [of x r x' s'] rank_reach_steps by auto
qed

text \<open>
  C5. The MPI thread refines the rank: whatever sends have been started and however its
  turns are interleaved with the steps of the other threads, its state and the rank's state
  correspond to a reachable state of the rank in which the sends under way are exactly the
  entries in its slots; and when the thread has ended, be it on a stop request or after an MPI
  error, no send is left under way.  All that is proved of reachable ranks therefore holds
  with the MPI thread as it is written.  A turn has one fault and no other: when a message that is
  longer than a frame arrives, \<^verbatim>\<open>MPI_Recv\<close> writes beyond the frame.  Of MPI it is only asked that
  the answers of \<^verbatim>\<open>MPI_Testsome\<close> name distinct positions in use.
\<close>

theorem mpit_main_refines:
  assumes "mpit_run env x r"
  shows "rank_reach env r \<and> infl r = sending_mqes (mpi_mts x) \<and> (mpit_state x = MTS_DONE \<longrightarrow> infl r = {#}) \<and>
    (\<forall>e. mpit_state x \<noteq> MTS_DONE \<and> answers_ok e (nused (mpi_mts x)) \<longrightarrow>
       (\<exists>out. mpit_turn e x (rk r) = Inr out) \<or> mpit_turn e x (rk r) = Inl Out_of_bounds \<and> too_long e)"
proof -
  note inv = mpit_run_inv [OF assms]
  have "(\<exists>out. mpit_turn e x (rk r) = Inr out) \<or> mpit_turn e x (rk r) = Inl Out_of_bounds \<and> too_long e"
    if "mpit_state x \<noteq> MTS_DONE" and ok: "answers_ok e (nused (mpi_mts x))" for e
  proof -
    have "mts_ok (mpi_mts x)" using inv that(1) by simp
    from turn_refines [OF this _ ok] inv show ?thesis by blast
  qed
  then show ?thesis using inv by (auto split: if_splits)
qed

definition ex_mpit :: mpit where
  "ex_mpit = \<lparr>mpi_mts = MPIMTSMGR_INIT, mpit_state = MTS_START, mpiabort = False, isend_cnt = 0, isend_bytes = 0, iprobe_cnt = 0,
     recv_cnt = 0, recv_bytes = 0\<rparr>"

definition ex_realloc :: "bool \<Rightarrow> realloc_env" where
  "ex_realloc ok = \<lparr>re_ok = (\<lambda>_. ok), re_mqe = None, re_req = None\<rparr>"

definition ex_turn :: turn_env where
  "ex_turn = \<lparr>te_testsome = \<lparr>ts_rv = TS_SUCCESS, ts_idx = []\<rparr>, te_isend = None, te_realloc = ex_realloc True,
     te_probe = Some (Some \<lparr>pr_source = 0, pr_count = Some 16, pr_recv_ok = True, pr_msg = frame zero_mqe\<rparr>)\<rparr>"

definition ex_mpit_rank :: dtrs where
  "ex_mpit_rank = dtrs_init 1 2 [] 1 [True] [] (zero_argret, 0, 0)"

definition ex_mpit_turn :: "mpit \<times> dtrs" where
  "ex_mpit_turn =
     (case mpit_turn ex_turn (snd (mpit_start (ex_realloc True) ex_mpit)) ex_mpit_rank of Inr (Some p) \<Rightarrow> p | _ \<Rightarrow> (ex_mpit, ex_mpit_rank))"

lemma ex_mpit_run:
  "mpit_run [True] (fst ex_mpit_turn) ((rank_start ex_mpit_rank (\<lambda>_. Absent) ts)\<lparr>rk := snd ex_mpit_turn, infl := sending_mqes (mpi_mts (fst ex_mpit_turn))\<rparr>)"
proof -
  let ?r = "rank_start ex_mpit_rank (\<lambda>_. Absent) ts"
  let ?x = "snd (mpit_start (ex_realloc True) ex_mpit)"
  have "fst (mpit_start (ex_realloc True) ex_mpit)" by code_simp
  then have "mpit_start (ex_realloc True) ex_mpit = (True, ?x)" by (simp add: prod_eq_iff)
  moreover have "rank_reach [True] ?r" unfolding ex_mpit_rank_def by (rule rank_reach.start) simp
  moreover have "infl ?r = {#}" by (simp add: rank_start_def)
  ultimately have run: "mpit_run [True] ?x ?r" by (intro mpit_run.start)
  have "(case mpit_turn ex_turn ?x ex_mpit_rank of Inr (Some _) \<Rightarrow> True | _ \<Rightarrow> False)" by code_simp
  then have t: "mpit_turn ex_turn ?x (rk ?r) = Inr (Some (fst ex_mpit_turn, snd ex_mpit_turn))"
    by (auto simp: ex_mpit_turn_def rank_start_def split: sum.splits option.splits)
  have "mpit_state ?x = MTS_RUN" "\<not> mpiabort ?x" "answers_ok ex_turn (nused (mpi_mts ?x))" by code_simp+
  then show ?thesis using mpit_run.turn [OF run _ _ _ t] by blast
qed

theorem mpit_main_refines_witness:
  "mpirecvq (dtq (snd ex_mpit_turn)) = [0] \<and> recv_bytes (fst ex_mpit_turn) = 16 \<and>
   rank_reach [True] ((rank_start ex_mpit_rank (\<lambda>_. Absent) (\<lambda>_. undefined))
     \<lparr>rk := snd ex_mpit_turn, infl := sending_mqes (mpi_mts (fst ex_mpit_turn))\<rparr>) \<and>
   (\<exists>out. mpit_turn ex_turn (fst ex_mpit_turn) (snd ex_mpit_turn) = Inr out)"
proof -
  have "mpirecvq (dtq (snd ex_mpit_turn)) = [0]" "recv_bytes (fst ex_mpit_turn) = 16" "mpit_state (fst ex_mpit_turn) \<noteq> MTS_DONE"
    "answers_ok ex_turn (nused (mpi_mts (fst ex_mpit_turn)))" "\<not> too_long ex_turn"
    by code_simp+
  then show ?thesis using mpit_main_refines [OF ex_mpit_run [of "\<lambda>_. undefined"]] by simp blast
qed

subsection \<open>What goes wrong\<close>

text \<open>
  When the first allocation of the slots fails, \<^verbatim>\<open>mpit_main\<close> ends and leaves the state at
  \<^verbatim>\<open>MTS_START\<close>, for the end of which \<^verbatim>\<open>dthread_run\<close> waits.
\<close>

lemma mpit_start_stuck:
  assumes "mpit_state x = MTS_START" "\<not> (\<forall>i < 4. re_ok e i)"
  shows "\<exists>x'. mpit_start e x = (False, x') \<and> mpit_state x' = MTS_START"
proof -
  have "\<not> re_ok e 0 \<or> \<not> re_ok e 1 \<or> \<not> re_ok e 2 \<or> \<not> re_ok e 3" using assms(2) by (auto simp: numeral_eq_Suc less_Suc_eq)
  then show ?thesis using assms(1) by (auto simp: mpit_start_def mpimts_init_def mpimts_setslots_def MPIMTSMGR_INIT_def Let_def)
qed

text \<open>A message that is longer than the frame is received beyond its end.\<close>

lemma long_message_overruns:
  assumes "pr_count st = Some c" "DTQ_MAXMSGSIZE < c" "pr_recv_ok st" "mqe_alloc s = (Some m, s')"
  shows "mpimqerecv st s = Inl Out_of_bounds"
proof -
  have "0 < DTQ_MAXMSGSIZE" by code_simp
  then show ?thesis using assms by (simp add: mpimqerecv_def Let_def)
qed

end
