(* ===== verification/Dt_Drain.thy ===== *)
theory Dt_Drain
  imports Dt_Rank_Props Dt_Mpithread
begin

text \<open>
  The end of a draindown: a rank that shuts down waits until all its messages have been
  sent.  The turns of the MPI thread, as they are written and with the other threads of the
  rank at work in between, bring the send queue to the state \<^verbatim>\<open>DTQ_DD_DRAINED\<close>.
\<close>

subsection \<open>What is left to send\<close>

text \<open>A message in the queue has to be started and to be finished, one under way to be finished.\<close>

definition drain_work :: "dtq_sys \<Rightarrow> nat" where
  "drain_work c = 2 * length (mpisendq (sys_q c)) + size (inflight c)"

lemma dtq_step_draining:
  "dtq_step me c c' \<Longrightarrow> mpisq_draindown (sys_q c) \<noteq> DTQ_DD_INIT \<Longrightarrow>
     mpisq_draindown (sys_q c') \<noteq> DTQ_DD_INIT \<and> drain_work c' \<le> drain_work c"
  by (induction rule: dtq_step.induct)
    (auto simp: drain_work_def dtq_ops dtq_alloc_defs Let_def size_Diff_singleton
       dest!: multi_member_split split: list.splits if_splits prod.splits)

lemma rank_steps_draining:
  assumes "rank_step\<^sup>*\<^sup>* r r'" "rank_reach env r" "mpisq_draindown (dtq (rk r)) \<noteq> DTQ_DD_INIT"
  shows "mpisq_draindown (dtq (rk r')) \<noteq> DTQ_DD_INIT \<and> drain_work (rank_queues r') \<le> drain_work (rank_queues r)"
  using assms
proof (induction rule: rtranclp_induct)
  case (step r1 r2)
  have "rank_reach env r1" using rank_reach_steps step.hyps(1) step.prems(1) by blast
  then have "queue_run r1 r2" using rank_step_run [OF step.hyps(2)] rank_reach_inv by blast
  then have run: "(dtq_step (mpi_rank (rk r1)))\<^sup>*\<^sup>* (rank_queues r1) (rank_queues r2)" by blast
  have "mpisq_draindown (sys_q c) \<noteq> DTQ_DD_INIT \<and> drain_work c \<le> drain_work (rank_queues r1)"
    if "(dtq_step (mpi_rank (rk r1)))\<^sup>*\<^sup>* (rank_queues r1) c" "mpisq_draindown (sys_q (rank_queues r1)) \<noteq> DTQ_DD_INIT" for c
    using that by (induction rule: rtranclp_induct) (auto dest: dtq_step_draining)
  from this [OF run] step.IH [OF step.prems] show ?case by (auto simp: rank_queues_def)
qed simp

lemma rank_drained:
  assumes "rank_reach env r" "mpisq_draindown (dtq (rk r)) \<noteq> DTQ_DD_INIT" "drain_work (rank_queues r) = 0"
  shows "dtq_send_drainstate (dtq (rk r)) = DTQ_DD_DRAINED"
  using dtq_reach_inv [OF rank_reach_queues [OF assms(1)]] assms(2,3)
  by (auto simp: dtq_drain_def drain_work_def rank_queues_def dtq_send_drainstate_def split: dtq_dd.splits)

subsection \<open>A turn that gets something done\<close>

text \<open>\<^verbatim>\<open>MPI_Testsome\<close> succeeds and, when sends are under way, reports one of them as finished.\<close>

definition progress :: "turn_env \<Rightarrow> nat \<Rightarrow> bool" where
  "progress e n \<longleftrightarrow> ts_rv (te_testsome e) \<in> {TS_SUCCESS, TS_IN_STATUS} \<and> (0 < n \<longrightarrow> ts_idx (te_testsome e) \<noteq> [])"

lemma done_sendq [simp]: "mpisendq (fold mpimts_done ms q) = mpisendq q"
  by (induction ms arbitrary: q) (simp_all add: mpimts_done_def dtq_ops Let_def)

lemma size_sending: "mts_ok mts \<Longrightarrow> size (sending_mqes mts) = nused mts"
  by (simp add: sending_mqes_def in_slots_def live_full mts_ok_def)

lemma alloc_sendq: "mqe_alloc s = (mo, s') \<Longrightarrow> mpisendq (dtq s') = mpisendq (dtq s)"
  by (auto simp: mqe_alloc_def dtq_alloc_defs Let_def split: list.splits prod.splits if_splits option.splits)

lemma recv_sendq:
  assumes "mpit_recv e x s = Inr (Some (x', s'))"
  shows "mpisendq (dtq s') = mpisendq (dtq s)" "mpi_mts x' = mpi_mts x"
  using assms alloc_sendq
  by (auto simp: mpit_recv_def mpimqerecv_def recv_release_def upd_mqe_def dtq_ops Let_def
      split: option.splits prod.splits if_splits)

lemma send_turn_work:
  assumes "mts_ok (mpi_mts x)" "mpit_send e x s = Inr (x', s')"
  shows "mts_ok (mpi_mts x') \<and> mpisendq (dtq s') = tl (mpisendq (dtq s)) \<and>
    nused (mpi_mts x') \<le> nused (mpi_mts x) + (if mpisendq (dtq s) = [] then 0 else 1)"
proof (cases "mpisendq (dtq s)")
  case Nil
  then show ?thesis using assms by (auto simp: mpit_send_def dtq_ops)
next
  case (Cons m ms)
  show ?thesis
  proof (cases "te_isend e")
    case None
    then show ?thesis using Cons assms by (auto simp: mpit_send_def mpimts_done_def dtq_ops Let_def)
  next
    case (Some newreq)
    obtain rv mts where a: "mpimts_add (te_realloc e) m newreq (mpi_mts x) = Inr (rv, mts)" "mts_ok mts"
        "rv = -1 \<and> in_slots mts = in_slots (mpi_mts x) \<or> rv = 0 \<and> in_slots mts = add_mset (m, Some newreq) (in_slots (mpi_mts x))"
      using add_keeps [OF assms(1)] by blast
    have "size (in_slots mts) = nused mts" "size (in_slots (mpi_mts x)) = nused (mpi_mts x)"
      using size_sending a(2) assms(1) by (simp_all add: sending_mqes_def)
    then have "nused mts \<le> nused (mpi_mts x) + 1" using a(3) by auto
    then show ?thesis using Cons Some assms(2) a(1,2)
      by (auto simp: mpit_send_def mpimts_done_def dtq_ops Let_def split: if_splits)
  qed
qed

lemma turn_work:
  assumes "mts_ok (mpi_mts x)" "answers_ok e (nused (mpi_mts x))" "progress e (nused (mpi_mts x))"
    and "mpit_turn e x s = Inr (Some (x', s'))"
  shows "let work = (\<lambda>x s. 2 * length (mpisendq (dtq s)) + nused (mpi_mts x)) in work x' s' < work x s \<or> work x' s' = 0"
proof -
  let ?ts = "te_testsome e" and ?mts = "mpi_mts x"
  have ok: "testsome_ok ?ts (nused ?mts)" using assms(2,3) by (auto simp: answers_ok_def progress_def testsome_ok_def)
  obtain mts q where t: "mpimts_test ?ts ?mts (dtq s) = Inr (0, mts, q)" "mts_ok mts" "nused mts = nused ?mts - length (ts_idx ?ts)"
      "mpisendq q = mpisendq (dtq s)"
    using mpimts_test_slots [OF assms(1) ok, of "dtq s"] by auto
  obtain x1 s1 where m: "mpit_send e (x\<lparr>mpi_mts := mts\<rparr>) (s\<lparr>dtq := q\<rparr>) = Inr (x1, s1)" "mpit_recv e x1 s1 = Inr (Some (x', s'))"
    using assms(4) t(1) by (auto simp: mpit_turn_def Let_def)
  note w = send_turn_work [OF _ m(1)] recv_sendq [OF m(2)]
  have "0 < nused ?mts \<longrightarrow> nused mts < nused ?mts" using assms(3) t(3) by (auto simp: progress_def)
  then show ?thesis using w t by (cases "mpisendq (dtq s)") auto
qed

subsection \<open>Turns\<close>

text \<open>
  The turns of the loop of \<^verbatim>\<open>mpit_main\<close>, between steps of the other threads as in \<open>mpit_run\<close>; the
  number counts the turns in which MPI made progress.  What MPI answers in the other turns, and
  what arrives, is arbitrary.
\<close>

inductive mpit_turns :: "mpit \<Rightarrow> rank_sys \<Rightarrow> nat \<Rightarrow> mpit \<Rightarrow> rank_sys \<Rightarrow> bool" for x :: mpit and r :: rank_sys where
  none: "mpit_turns x r 0 x r"
| turn: "mpit_turns x r k y r1 \<Longrightarrow> mpit_state y = MTS_RUN \<Longrightarrow> \<not> mpiabort y \<Longrightarrow> answers_ok e (nused (mpi_mts y)) \<Longrightarrow>
     mpit_turn e y (rk r1) = Inr (Some (y', s')) \<Longrightarrow>
     mpit_turns x r (if progress e (nused (mpi_mts y)) then k + 1 else k) y' (r1\<lparr>rk := s', infl := sending_mqes (mpi_mts y')\<rparr>)"
| other: "mpit_turns x r k y r1 \<Longrightarrow> rank_step r1 r2 \<Longrightarrow> infl r2 = infl r1 \<Longrightarrow> held r2 = held r1 \<Longrightarrow> mpit_turns x r k y r2"

lemma turns_run: "mpit_turns x r k y r' \<Longrightarrow> mpit_run env x r \<Longrightarrow> mpit_run env y r'"
  by (induction rule: mpit_turns.induct) (blast intro: mpit_run.turn mpit_run.other)+

lemma turns_work:
  assumes "mpit_turns x r k y r'" "mpit_run env x r" "mpisq_draindown (dtq (rk r)) \<noteq> DTQ_DD_INIT"
  shows "mpisq_draindown (dtq (rk r')) \<noteq> DTQ_DD_INIT \<and>
    (drain_work (rank_queues r') + k \<le> drain_work (rank_queues r) \<or> drain_work (rank_queues r') = 0)"
  using assms
proof (induction rule: mpit_turns.induct)
  case (turn k y r1 e y' s')
  let ?r2 = "r1\<lparr>rk := s', infl := sending_mqes (mpi_mts y')\<rparr>"
  have inv: "rank_reach env r1" "infl r1 = sending_mqes (mpi_mts y)" "mts_ok (mpi_mts y)"
    using mpit_run_inv [OF turns_run [OF turn.hyps(1) turn.prems(1)]] turn.hyps(2) by simp_all
  have ref: "refines r1 y' s'" using turn_refines [OF inv(3,2) turn.hyps(4)] turn.hyps(5) by auto
  then have d: "mpisq_draindown (dtq (rk ?r2)) \<noteq> DTQ_DD_INIT" "drain_work (rank_queues ?r2) \<le> drain_work (rank_queues r1)"
    using rank_steps_draining [of r1 ?r2 env] inv(1) turn.IH turn.prems by (auto simp: refines_def)
  have "drain_work (rank_queues ?r2) < drain_work (rank_queues r1) \<or> drain_work (rank_queues ?r2) = 0"
    if "progress e (nused (mpi_mts y))"
    using turn_work [OF inv(3) turn.hyps(4) that turn.hyps(5)] size_sending [OF inv(3)] size_sending [of "mpi_mts y'"] ref inv(2)
    by (simp add: drain_work_def rank_queues_def refines_def Let_def)
  then show ?case using d turn.IH turn.prems by auto
next
  case (other k y r1 r2)
  have "rank_reach env r1" using mpit_run_inv [OF turns_run [OF other.hyps(1) other.prems(1)]] by simp
  then show ?case using rank_steps_draining [OF r_into_rtranclp [of rank_step, OF other.hyps(2)]] other.IH other.prems by fastforce
qed simp

text \<open>MPI can always let the thread go on: all sends finish, and nothing arrives.\<close>

definition calm :: "nat \<Rightarrow> turn_env" where
  "calm n = \<lparr>te_testsome = \<lparr>ts_rv = TS_SUCCESS, ts_idx = [0..<n]\<rparr>, te_isend = Some 0,
     te_realloc = \<lparr>re_ok = (\<lambda>_. True), re_mqe = None, re_req = None\<rparr>, te_probe = Some None\<rparr>"

lemma calm_turn:
  fixes r :: rank_sys
  assumes "mts_ok (mpi_mts x)" "infl r = sending_mqes (mpi_mts x)"
  shows "\<exists>x' s'. mpit_turn (calm (nused (mpi_mts x))) x (rk r) = Inr (Some (x', s')) \<and> mpit_state x' = mpit_state x \<and> mpiabort x' = mpiabort x"
proof -
  let ?e = "calm (nused (mpi_mts x))"
  have "testsome_ok (te_testsome ?e) (nused (mpi_mts x))" by (simp add: testsome_ok_def calm_def)
  then obtain mts q where t: "mpimts_test (te_testsome ?e) (mpi_mts x) (dtq (rk r)) = Inr (0, mts, q)" "mts_ok mts"
    using mpimts_test_slots [OF assms(1)] by blast
  obtain x1 s1 where s: "mpit_send ?e (x\<lparr>mpi_mts := mts\<rparr>) ((rk r)\<lparr>dtq := q\<rparr>) = Inr (x1, s1)"
    using send_refines [of "x\<lparr>mpi_mts := mts\<rparr>" "r\<lparr>rk := (rk r)\<lparr>dtq := q\<rparr>, infl := sending_mqes mts\<rparr>" ?e] t(2) by auto
  then have "mpit_state x1 = mpit_state x" "mpiabort x1 = mpiabort x"
    by (auto simp: mpit_send_def Let_def split: prod.splits option.splits if_splits)
  then show ?thesis using t(1) s by (simp add: mpit_turn_def mpit_recv_def calm_def Let_def)
qed

lemma turns_exist:
  assumes "mpit_run env x r" "mpit_state x = MTS_RUN" "\<not> mpiabort x"
  shows "\<exists>y r'. mpit_turns x r k y r' \<and> mpit_state y = MTS_RUN \<and> \<not> mpiabort y"
proof (induction k)
  case 0
  then show ?case using mpit_turns.none assms(2,3) by blast
next
  case (Suc k)
  then obtain y r' where y: "mpit_turns x r k y r'" "mpit_state y = MTS_RUN" "\<not> mpiabort y" by blast
  have inv: "infl r' = sending_mqes (mpi_mts y)" "mts_ok (mpi_mts y)"
    using mpit_run_inv [OF turns_run [OF y(1) assms(1)]] y(2) by simp_all
  let ?e = "calm (nused (mpi_mts y))"
  obtain y' s' where t: "mpit_turn ?e y (rk r') = Inr (Some (y', s'))" "mpit_state y' = MTS_RUN" "\<not> mpiabort y'"
    using calm_turn [OF inv(2,1)] y(2,3) by auto
  have "answers_ok ?e (nused (mpi_mts y))" "progress ?e (nused (mpi_mts y))" by (simp_all add: answers_ok_def progress_def calm_def)
  then show ?case using mpit_turns.turn [OF y _ t(1)] t(2,3) by auto
qed

subsection \<open>The manager is told\<close>

text \<open>Nothing that a turn does to the queues puts the manager to sleep, and the last release wakes it.\<close>

definition told :: "dtq_state \<Rightarrow> bool" where
  "told q \<longleftrightarrow> (mpisq_draindown q = DTQ_DD_DRAINED \<longrightarrow> \<not> mgr_blocked q)"

lemma told_ops:
  assumes "told q"
  shows "told (mpimts_done m q)" "told (snd (dtq_send_dequeue q))" "told (dtq_recv_enqueue m q)" "told (dtq_recv_release m q)"
    "told (snd (dtq_mqe_alloc q))"
  using assms by (auto simp: told_def mpimts_done_def dtq_ops dtq_alloc_defs Let_def split: list.splits if_splits prod.splits)

lemma release_done_told: "release_done is ms q = Inr (ms', q') \<Longrightarrow> told q \<Longrightarrow> told q'"
  by (induction "is" ms q rule: release_done.induct) (auto simp: told_ops split: if_splits option.splits)

lemma test_told:
  assumes "mpimts_test ts mts q = Inr (rv, mts', q')" "told q"
  shows "told q'"
  using assms by (auto simp: mpimts_test_def Let_def split: if_splits testsome_rv.splits prod.splits dest: release_done_told)

lemma send_told:
  assumes "mpit_send e x s = Inr (x', s')" "told (dtq s)"
  shows "told (dtq s')"
proof (cases "dtq_send_dequeue (dtq s)")
  case (Pair mo q)
  then have "told q" using told_ops(2) [OF assms(2)] by simp
  then show ?thesis using Pair assms(1) by (auto simp: mpit_send_def Let_def told_ops split: option.splits prod.splits if_splits)
qed

lemma mpimqerecv_told:
  assumes "mpimqerecv st s = Inr (Some (ret, s'))" "told (dtq s)"
  shows "told (dtq s')"
proof -
  obtain m s1 where m: "mqe_alloc s = (Some m, s1)" "dtq s' = dtq_recv_enqueue m (dtq s1) \<or> dtq s' = dtq_recv_release m (dtq s1)"
    using assms(1) by (auto simp: mpimqerecv_def Let_def recv_release_def upd_mqe_def split: option.splits prod.splits if_splits)
  have "dtq s1 = snd (dtq_mqe_alloc (dtq s))" using m(1) by (auto simp: mqe_alloc_def split: prod.splits)
  then show ?thesis using m(2) told_ops(3,4) [OF told_ops(5) [OF assms(2)]] by auto
qed

lemma recv_told:
  assumes "mpit_recv e x s = Inr (Some (x', s'))" "told (dtq s)"
  shows "told (dtq s')"
proof -
  have "s' = s \<or> (\<exists>st ret. mpimqerecv st s = Inr (Some (ret, s')))"
    using assms(1) by (auto simp: mpit_recv_def Let_def split: option.splits)
  then show ?thesis using assms(2) mpimqerecv_told by blast
qed

lemma turn_told:
  assumes "mpit_turn e x s = Inr (Some (x', s'))" "told (dtq s)"
  shows "told (dtq s')"
proof -
  obtain rv mts q where t: "mpimts_test (te_testsome e) (mpi_mts x) (dtq s) = Inr (rv, mts, q)"
    using assms(1) by (auto simp: mpit_turn_def)
  then have q: "told q" using test_told assms(2) by blast
  show ?thesis
  proof (cases "rv = 0")
    case True
    then obtain x1 s1 where "mpit_send e (x\<lparr>mpi_mts := mts\<rparr>) (s\<lparr>dtq := q\<rparr>) = Inr (x1, s1)" "mpit_recv e x1 s1 = Inr (Some (x', s'))"
      using assms(1) t by (auto simp: mpit_turn_def Let_def)
    then show ?thesis using recv_told send_told [of e _ "s\<lparr>dtq := q\<rparr>"] q by simp
  next
    case False
    then show ?thesis using assms(1) t q by (auto simp: mpit_turn_def Let_def)
  qed
qed

subsection \<open>Property\<close>

text \<open>
  C16. The draindown of a shutdown finishes: from any state of a draining rank, whatever the
  other threads of the rank do between the turns of the MPI thread, whatever arrives and
  whatever MPI answers otherwise, the send queue is drained once there have been as many turns
  in which MPI made progress (it reports a finished send when there is one under way) as there
  is work: two for each queued message and one for each that is under way.  While the thread runs,
  any number of such turns is possible.  The turn that drains the queue leaves the manager awake.
\<close>

theorem draindown_completes:
  assumes "mpit_run env x r" and "dtq_send_drainstate (dtq (rk r)) = DTQ_DD_DRAINING"
  shows "(\<forall>k y r'. mpit_turns x r k y r' \<and> 2 * length (mpisendq (dtq (rk r))) + size (infl r) \<le> k \<longrightarrow>
       dtq_send_drainstate (dtq (rk r')) = DTQ_DD_DRAINED) \<and>
    (mpit_state x = MTS_RUN \<and> \<not> mpiabort x \<longrightarrow> (\<forall>k. \<exists>y r'. mpit_turns x r k y r')) \<and>
    (\<forall>e x' s'. mpit_turn e x (rk r) = Inr (Some (x', s')) \<and> dtq_send_drainstate (dtq s') = DTQ_DD_DRAINED \<longrightarrow>
       \<not> mgr_blocked (dtq s'))"
proof -
  have dd: "mpisq_draindown (dtq (rk r)) = DTQ_DD_DRAINING" using assms(2) by (simp add: dtq_send_drainstate_def)
  have w: "2 * length (mpisendq (dtq (rk r))) + size (infl r) = drain_work (rank_queues r)" by (simp add: drain_work_def rank_queues_def)
  have drained: "dtq_send_drainstate (dtq (rk r')) = DTQ_DD_DRAINED" if "mpit_turns x r k y r'" "drain_work (rank_queues r) \<le> k" for k y r'
  proof (rule rank_drained)
    show "rank_reach env r'" using mpit_run_inv [OF turns_run [OF that(1) assms(1)]] by simp
    show "mpisq_draindown (dtq (rk r')) \<noteq> DTQ_DD_INIT" "drain_work (rank_queues r') = 0"
      using turns_work [OF that(1) assms(1)] dd that(2) by auto
  qed
  have "told (dtq (rk r))" using dd by (simp add: told_def)
  then have "\<not> mgr_blocked (dtq s')"
    if "mpit_turn e x (rk r) = Inr (Some (x', s'))" "dtq_send_drainstate (dtq s') = DTQ_DD_DRAINED" for e x' s'
    using turn_told [OF that(1)] that(2) by (simp add: told_def dtq_send_drainstate_def)
  then show ?thesis unfolding w using drained turns_exist [OF assms(1)] by blast
qed

subsection \<open>A shutdown of two ranks\<close>

text \<open>Rank 0 has no thread left: its manager sends the other rank a shutdown message and drains.\<close>

definition ex_drain_rank :: dtrs where
  "ex_drain_rank = dtrs_init 0 2 [] 1 [] [] (zero_argret, 0, 0)"

definition ex_drain :: rank_sys where
  "ex_drain = (rank_start ex_drain_rank (\<lambda>_. Absent) (\<lambda>_. undefined))\<lparr>rk := mgr_check ex_drain_rank\<rparr>"

definition ex_drain_mpit :: mpit where
  "ex_drain_mpit = snd (mpit_start (ex_realloc True) ex_mpit)"

lemma ex_drain_run: "mpit_run [] ex_drain_mpit ex_drain"
proof -
  let ?r = "rank_start ex_drain_rank (\<lambda>_. Absent) (\<lambda>_. undefined)"
  have "fst (mpit_start (ex_realloc True) ex_mpit)" by code_simp
  then have st: "mpit_start (ex_realloc True) ex_mpit = (True, ex_drain_mpit)" by (simp add: prod_eq_iff ex_drain_mpit_def)
  have "rank_reach [] ?r" unfolding ex_drain_rank_def by (rule rank_reach.start) simp
  moreover have "infl ?r = {#}" by (simp add: rank_start_def)
  ultimately have run: "mpit_run [] ex_drain_mpit ?r" using st by (rule mpit_run.start)
  have "rank_step ?r ex_drain" using rank_step.check [of ?r] by (simp add: ex_drain_def rank_start_def)
  then show ?thesis by (rule mpit_run.other [OF run]) (simp_all add: ex_drain_def)
qed

theorem draindown_completes_witness:
  "dtq_send_drainstate (dtq (rk ex_drain)) = DTQ_DD_DRAINING \<and> length (mpisendq (dtq (rk ex_drain))) = 1 \<and>
   (\<exists>y r'. mpit_turns ex_drain_mpit ex_drain 2 y r' \<and> dtq_send_drainstate (dtq (rk r')) = DTQ_DD_DRAINED)"
proof -
  have "dtq_send_drainstate (dtq (mgr_check ex_drain_rank)) = DTQ_DD_DRAINING" "length (mpisendq (dtq (mgr_check ex_drain_rank))) = 1"
    by code_simp+
  then have d: "dtq_send_drainstate (dtq (rk ex_drain)) = DTQ_DD_DRAINING" "length (mpisendq (dtq (rk ex_drain))) = 1"
    by (simp_all add: ex_drain_def)
  have run: "infl ex_drain = {#}" by (simp add: ex_drain_def rank_start_def)
  have "mpit_state ex_drain_mpit = MTS_RUN" "\<not> mpiabort ex_drain_mpit" by code_simp+
  note all = draindown_completes [OF ex_drain_run d(1)]
  then obtain y r' where t: "mpit_turns ex_drain_mpit ex_drain 2 y r'"
    using \<open>mpit_state ex_drain_mpit = MTS_RUN\<close> \<open>\<not> mpiabort ex_drain_mpit\<close> by blast
  then have "dtq_send_drainstate (dtq (rk r')) = DTQ_DD_DRAINED" using conjunct1 [OF all, rule_format, of 2 y r'] d(2) run by simp
  then show ?thesis using d t by blast
qed

end
