(* ===== verification/Dt_Behaviour.thy ===== *)
theory Dt_Behaviour
  imports Dt_Invariant
begin

text \<open>
  What the handlers do for the threads: creating, joining, detaching and the end of a
  thread, seen as the messages that are sent and the changes of the global table.
  \<open>posted\<close> says that an entry holds a message and is queued for its destination.
\<close>

subsection \<open>Messages that are on their way\<close>

definition posted :: "dtrs \<Rightarrow> nat \<Rightarrow> dtmsg_body \<Rightarrow> u32 \<Rightarrow> int \<Rightarrow> bool" where
  "posted s m body xid to \<longleftrightarrow>
     mqes s m = \<lparr>frame = \<lparr>msg_xidseq = xid, msg_body = body\<rparr>, flen = sizeof_dtmsg body, peer = to\<rparr> \<and>
     m \<in> set (if to = mpi_rank s then mpirecvq (dtq s) else mpisendq (dtq s))"

definition sending :: "dtrs \<Rightarrow> bool" where
  "sending s \<longleftrightarrow> mpisq_draindown (dtq s) = DTQ_DD_INIT"

lemma send_posted:
  assumes "sending s" "mqes s m = \<lparr>frame = \<lparr>msg_xidseq = x, msg_body = b\<rparr>, flen = sizeof_dtmsg b, peer = t\<rparr>"
  shows "posted (snd (send_or_unalloc m s)) m b x t \<and> sending (snd (send_or_unalloc m s))"
  using assms by (simp add: posted_def sending_def send_or_unalloc_def dtq_ops Let_def)

lemma write_posted: "sending s \<Longrightarrow> posted (snd (send_or_unalloc m (write_dtmsg m b x t s))) m b x t"
  using send_posted [of "write_dtmsg m b x t s" m x b t] by (simp add: sending_def mgr_ops)

lemma recycle_posted:
  "sending s \<Longrightarrow> posted (snd (send_or_unalloc m (recycle_dtmsg_mqe m b x s))) m b x (peer (mqes s m))"
  using send_posted [of "recycle_dtmsg_mqe m b x s" m x b "peer (mqes s m)"] by (simp add: sending_def mgr_ops)

text \<open>Steps that do not touch the entry memory, the queues' contents and the rank keep what is posted.\<close>

lemma posted_cong:
  "mqes s' m = mqes s m \<Longrightarrow> mpi_rank s' = mpi_rank s \<Longrightarrow> mpirecvq (dtq s') = mpirecvq (dtq s) \<Longrightarrow>
   mpisendq (dtq s') = mpisendq (dtq s) \<Longrightarrow> posted s' m b x t = posted s m b x t"
  by (simp add: posted_def)

lemma posted_gtab_free [simp]: "posted (gtab_free g s) m b x t = posted s m b x t"
  by (rule posted_cong) (simp_all add: gtab_free_def mgr_ops)

lemma posted_req_release [simp]: "posted (dtq_req_release r n s) m b x t = posted s m b x t"
  by (rule posted_cong) (simp_all add: dtq_req_release_def)

lemma posted_detached_ret_cleanup [simp]: "posted (detached_ret_cleanup g s) m b x t = posted s m b x t"
  by (rule posted_cong) (simp_all add: detached_ret_cleanup_def Let_def mgr_ops split: option.splits prod.splits)

lemma dt2gtab_SomeD:
  "dthread_dt2gtab th s = Some g \<Longrightarrow>
     unat (dt_index th) = g \<and> g < nmaxthread s \<and> gt_allocated (gtab s ! g) \<and> gt_seq (gtab s ! g) = dt_seq th"
  by (auto simp: dthread_dt2gtab_def Let_def split: if_splits)

subsection \<open>Join\<close>

text \<open>
  C11. Joining a zombie: the joiner is sent the return value of the thread with the
  transaction number of its request, the slot is freed, and the handle of the thread
  is no longer valid, so no second join can succeed.
\<close>

theorem join_zombie:
  assumes "gtab_ok s" and "sending s" and "dthread_dt2gtab th s = Some g"
    and "\<not> gt_detached (gtab s ! g)" and "\<not> LT_NEED_FINALSTATE (gt_terminated (gtab s ! g))"
  shows "posted (join_thread m th s) m (Dtmsg_joined 0 (gt_ret (gtab s ! g)))
           (msg_xidseq (frame (mqes s m))) (peer (mqes s m)) \<and>
         gtab_inuse (join_thread m th s) = gtab_inuse s - {g} \<and>
         dthread_dt2gtab th (join_thread m th s) = None"
proof -
  let ?s1 = "send_joined m 0 (gt_ret (gtab s ! g)) s"
  have run: "join_thread m th s = gtab_free g ?s1" using assms(3-5) by (simp add: join_thread_def Let_def)
  have "posted ?s1 m (Dtmsg_joined 0 (gt_ret (gtab s ! g))) (msg_xidseq (frame (mqes s m))) (peer (mqes s m))"
    using recycle_posted [OF assms(2)] by (simp add: send_joined_def)
  moreover have v: "gview ?s1 = gview s" by simp
  have ok: "gtab_ok ?s1" "gtab_inuse ?s1 = gtab_inuse s" using gtab_ok_gview [OF v] assms(1) by auto
  moreover have g: "g < nmaxthread ?s1" "unat (dt_index th) = g" "gt_allocated (gtab ?s1 ! g)"
    using dt2gtab_SomeD [OF assms(3)] v by (auto simp: gview_def send_joined_def mgr_ops)
  moreover have "gtab_inuse (gtab_free g ?s1) = gtab_inuse s - {g}" using gtab_free_slot [OF ok(1) g(1)] ok(2) by simp
  moreover have "\<not> gt_allocated (gtab (gtab_free g ?s1) ! g)"
    using g ok(1) by (auto simp: gtab_free_def mgr_ops gtab_ok_def)
  ultimately show ?thesis unfolding run by (simp add: dthread_dt2gtab_def Let_def)
qed

text \<open>
  C12. Joining a running thread: if nobody waits for the thread yet and a request can be
  allocated, one JOINWAIT request is appended to the pending list that remembers the
  thread, the joiner's rank and its transaction number; nothing is sent, the global table
  does not change, and the entry of the message is released.
\<close>

theorem join_running:
  assumes "dthread_dt2gtab th s = Some g" and "\<not> gt_detached (gtab s ! g)"
    and "LT_NEED_FINALSTATE (gt_terminated (gtab s ! g))" and "fst (joinwait_search th False s) = None"
    and "dtq_req_alloc s = (Some r, s1)" and "mgr_inv s"
  shows "rpending (mgrstate (join_thread m th s)) = rpending (mgrstate s) @ [r] \<and>
         (let q = get_req (join_thread m th s) r
          in reqop q = DTOP_JOINWAIT \<and> req_waitthread q = th \<and> reqpeer q = peer (mqes s m) \<and>
             xidseq q = msg_xidseq (frame (mqes s m)) \<and> reqerror q = 0) \<and>
         gtab (join_thread m th s) = gtab s \<and> mpisendq (dtq (join_thread m th s)) = mpisendq (dtq s) \<and>
         mqefree (dtq (join_thread m th s)) = m # mqefree (dtq s)"
proof -
  have prev: "joinwait_search th False s = (None, s)"
    using assms(4) by (auto simp: joinwait_search_def split: option.splits)
  have s1: "mgrstate s1 = mgrstate s" "gtab s1 = gtab s" "mqes s1 = mqes s" "mpisendq (dtq s1) = mpisendq (dtq s)"
      "mqefree (dtq s1) = mqefree (dtq s)"
    using assms(5) by (auto simp: dtq_req_alloc_def q_malloc_def split: list.splits if_splits)
  have "mgr_inv_held {#r#} s1"
    using mgr_inv_req_alloc [OF _ assms(5), of "{#}"] assms(6) by (simp add: mgr_inv_def mgr_inv_held_def)
  then obtain k where k: "r = Int_req k" using held_not_pending(2) [of "{#r#}" s1 r] by (auto simp: mgr_inv_held_def)
  show ?thesis using assms(1-3,5) prev s1 by (simp add: join_thread_def Let_def k mgr_ops dtq_ops)
qed

subsection \<open>The end of a thread\<close>

lemma sending_mqe_alloc: "mqe_alloc s = (m, s') \<Longrightarrow> sending s' = sending s"
  by (auto simp: sending_def mqe_alloc_def dtq_alloc_defs split: list.splits prod.splits if_splits)

lemma get_req_mqe_alloc: "mqe_alloc s = (m, s') \<Longrightarrow> get_req s' r = get_req s r"
  using fields_mqe_alloc [of s m s'] by (cases r) simp_all

lemma joinwait_end_release_posted:
  assumes "reqop (get_req s r) = DTOP_JOINWAIT" "reqerror (get_req s r) = 0" "mqe_alloc s = (Some m, s1)" "sending s"
  shows "posted (joinwait_end_release r s) m
     (Dtmsg_joined 0 (gt_ret (gtab s ! unat (dt_index (req_waitthread (get_req s r))))))
     (xidseq (get_req s r)) (reqpeer (get_req s r))"
  using assms write_posted [of s1 m] sending_mqe_alloc [OF assms(3)] get_req_mqe_alloc [OF assms(3)]
    fields_mqe_alloc [OF assms(3)]
  by (simp add: joinwait_end_release_def Let_def)

lemma joinwait_end_release_fields [simp]:
  "gtab (joinwait_end_release r s) = gtab s" "mgrstate (joinwait_end_release r s) = mgrstate s"
proof -
  obtain a s' where al: "mqe_alloc s = (a, s')" by fastforce
  show "gtab (joinwait_end_release r s) = gtab s" "mgrstate (joinwait_end_release r s) = mgrstate s"
    using fields_mqe_alloc [OF al]
    by (cases a; simp add: joinwait_end_release_def Let_def mgr_ops al dtq_req_release_def)+
qed

text \<open>The state in which \<^verbatim>\<open>terminated_thread\<close> looks for a waiting join.\<close>

definition zombie_state :: "nat \<Rightarrow> lt_state \<Rightarrow> dtrs \<Rightarrow> dtrs" where
  "zombie_state g f s = upd_gtab g (\<lambda>gt. gt\<lparr>gt_has_ltab := False\<rparr>)
     (upd_mgr (\<lambda>m. m\<lparr>threads_running := threads_running m - 1\<rparr>)
       (upd_gtab g (\<lambda>gt. gt\<lparr>gt_terminated := f\<rparr>) s))"

lemma zombie_state_fields [simp]:
  "rpending (mgrstate (zombie_state g f s)) = rpending (mgrstate s)" "dtq (zombie_state g f s) = dtq s"
  "get_req (zombie_state g f s) r = get_req s r" "nmaxthread (zombie_state g f s) = nmaxthread s"
  "mqes (zombie_state g f s) = mqes s" "mpi_rank (zombie_state g f s) = mpi_rank s"
  by (cases r; simp add: zombie_state_def mgr_ops)+

lemma zombie_state_gtab:
  "g < length (gtab s) \<Longrightarrow> gtab (zombie_state g f s) = (gtab s)[g := (gtab s ! g)\<lparr>gt_terminated := f, gt_has_ltab := False\<rparr>]"
  by (simp add: zombie_state_def mgr_ops)

lemma joinwait_search_zombie:
  "joinwait_search th True (zombie_state g f s) =
     (case fst (joinwait_search th False s) of
        None \<Rightarrow> (None, zombie_state g f s) | Some r \<Rightarrow> (Some r, rm_pending r (zombie_state g f s)))"
  by (simp add: joinwait_search_def split: option.splits)

lemma joinwait_search_hit:
  "fst (joinwait_search th rm s) = Some r \<Longrightarrow>
     r \<in> set (rpending (mgrstate s)) \<and> reqop (get_req s r) = DTOP_JOINWAIT \<and>
     dt_index (req_waitthread (get_req s r)) = dt_index th"
  by (auto simp: joinwait_search_def split: option.splits dest!: find_Some_mem)

text \<open>
  C10. The end of a thread that somebody waits for: the waiting rank is sent the return
  value of the thread with the transaction number of its JOIN, the JOINWAIT request is no
  longer pending, and the slot of the thread is free.
\<close>

theorem terminated_wakes_joiner:
  assumes "mgr_inv s" and "sending s" and "dthread_dt2gtab th s = Some g" and "\<not> gt_detached (gtab s ! g)"
    and "fst (joinwait_search th False s) = Some r" and "reqerror (get_req s r) = 0"
    and "mqe_alloc s = (Some m, s1)"
  shows "posted (terminated_thread th f s) m (Dtmsg_joined 0 (gt_ret (gtab s ! g)))
           (xidseq (get_req s r)) (reqpeer (get_req s r)) \<and>
         r \<notin> set (rpending (mgrstate (terminated_thread th f s))) \<and>
         g \<notin> gtab_inuse (terminated_thread th f s)"
proof -
  let ?z = "rm_pending r (zombie_state g f s)"
  note g = dt2gtab_SomeD [OF assms(3)] and r = joinwait_search_hit [OF assms(5)]
  have len: "length (gtab s) = nmaxthread s" using assms(1) by (simp add: mgr_inv_def tables_ok_def)
  have zg: "gtab ?z ! g = (gtab s ! g)\<lparr>gt_terminated := f, gt_has_ltab := False\<rparr>"
    using g len by (simp add: mgr_ops zombie_state_gtab)
  have zr: "get_req ?z q = get_req s q" for q
    using zombie_state_fields(3) [of g f s q] by (cases q) (simp_all add: mgr_ops)
  obtain s2 where al: "mqe_alloc ?z = (Some m, s2)"
    using assms(7) by (auto simp: mqe_alloc_def mgr_ops zombie_state_def split: prod.splits)
  have sz: "sending ?z" using assms(2) by (simp add: sending_def mgr_ops)
  define s3 where "s3 = joinwait_end_release r ?z"
  have p3: "posted s3 m (Dtmsg_joined 0 (gt_ret (gtab s ! g))) (xidseq (get_req s r)) (reqpeer (get_req s r))"
    using joinwait_end_release_posted [of ?z r m s2] r assms(6) al sz g zg unfolding s3_def zr by simp
  have t3: "gtab s3 = gtab ?z" "mgrstate s3 = mgrstate ?z" by (simp_all add: s3_def)
  have run: "terminated_thread th f s = gtab_free g s3"
    using g assms(4,5) zg t3 joinwait_search_zombie [of th g f s]
    unfolding terminated_thread_def Let_def zombie_state_def [symmetric] s3_def by simp
  have "distinct (rpending (mgrstate s))" using assms(1) by (simp add: mgr_inv_def req_inv_def)
  then have "r \<notin> set (rpending (mgrstate s3))" using t3 by (simp add: mgr_ops)
  moreover have "\<not> gt_allocated (gtab (gtab_free g s3) ! g)"
    using g len t3 zg by (simp add: gtab_free_def mgr_ops zombie_state_gtab)
  moreover have "mgrstate (gtab_free g s3) = (mgrstate s3)\<lparr>threads_alloc := threads_alloc (mgrstate (gtab_free g s3))\<rparr>"
    by (simp add: gtab_free_def mgr_ops)
  then have "rpending (mgrstate (gtab_free g s3)) = rpending (mgrstate s3)" by (simp add: gtab_free_def mgr_ops)
  ultimately show ?thesis using p3 unfolding run by (simp add: gtab_inuse_def)
qed

text \<open>
  C24. The end of a joinable thread that nobody waits for: nothing is sent, and the slot
  stays allocated as a zombie with its final state, its return value and its handle, so
  that a later join finds it.
\<close>

theorem terminated_leaves_zombie:
  assumes "mgr_inv s" and "dthread_dt2gtab th s = Some g" and "\<not> gt_detached (gtab s ! g)"
    and "fst (joinwait_search th False s) = None"
  shows "dthread_dt2gtab th (terminated_thread th f s) = Some g \<and>
         gt_terminated (gtab (terminated_thread th f s) ! g) = f \<and>
         gt_ret (gtab (terminated_thread th f s) ! g) = gt_ret (gtab s ! g) \<and>
         threads_running (mgrstate (terminated_thread th f s)) = threads_running (mgrstate s) - 1 \<and>
         dtq (terminated_thread th f s) = dtq s"
proof -
  note g = dt2gtab_SomeD [OF assms(2)]
  have len: "length (gtab s) = nmaxthread s" using assms(1) by (simp add: mgr_inv_def tables_ok_def)
  have zg: "gtab (zombie_state g f s) ! g = (gtab s ! g)\<lparr>gt_terminated := f, gt_has_ltab := False\<rparr>"
    using g len by (simp add: zombie_state_gtab)
  have run: "terminated_thread th f s = zombie_state g f s"
    using g assms(3,4) zg joinwait_search_zombie [of th g f s]
    unfolding terminated_thread_def Let_def zombie_state_def [symmetric] by simp
  show ?thesis unfolding run using g zg assms(2)
    by (simp add: dthread_dt2gtab_def Let_def) (simp add: zombie_state_def mgr_ops)
qed

text \<open>
  C25. The end of a detached thread: its slot is freed and its handle becomes invalid.
\<close>

theorem terminated_detached_freed:
  assumes "mgr_inv s" and "dthread_dt2gtab th s = Some g" and "gt_detached (gtab s ! g)"
  shows "g \<notin> gtab_inuse (terminated_thread th f s) \<and> dthread_dt2gtab th (terminated_thread th f s) = None"
proof -
  note g = dt2gtab_SomeD [OF assms(2)]
  then have gi: "unat (dt_index th) = g" by simp
  have len: "length (gtab s) = nmaxthread s" using assms(1) by (simp add: mgr_inv_def tables_ok_def)
  obtain rqe s1 where j: "joinwait_search th True (zombie_state g f s) = (rqe, s1)" by fastforce
  define s2 where "s2 = (case rqe of None \<Rightarrow> s1 | Some r \<Rightarrow>
     joinwait_end_release r (if gt_detached (gtab s1 ! g) then upd_req r (\<lambda>q. q\<lparr>reqerror := EINVAL\<rparr>) s1 else s1))"
  have "gtab s1 = gtab (zombie_state g f s)"
    using j by (auto simp: joinwait_search_def mgr_ops split: option.splits)
  then have t2: "gtab s2 = gtab (zombie_state g f s)" by (simp add: s2_def split: option.splits)
  then have d2: "gt_detached (gtab s2 ! g)" "gt_allocated (gtab s2 ! g)" "g < length (gtab s2)"
    using g len assms(3) by (simp_all add: zombie_state_gtab)
  define s3 where "s3 = detached_ret_cleanup g s2"
  have d3: "gt_detached (gtab s3 ! g)" "gt_allocated (gtab s3 ! g)" "g < length (gtab s3)"
    using d2 by (auto simp: s3_def detached_ret_cleanup_def Let_def mgr_ops split: option.splits prod.splits)
  have run: "terminated_thread th f s = gtab_free g s3"
    using d2(1) d3(1) unfolding terminated_thread_def Let_def gi zombie_state_def [symmetric] j prod.case
      s2_def [symmetric] s3_def by simp
  have "\<not> gt_allocated (gtab (gtab_free g s3) ! g)" using d3 by (simp add: gtab_free_def mgr_ops)
  then show ?thesis unfolding run by (simp add: gtab_inuse_def dthread_dt2gtab_def Let_def gi)
qed

subsection \<open>Concrete states\<close>

text \<open>One thread in slot 2, in state \<open>f\<close>, detached or not; and the same with a join waiting for it.\<close>

definition ex_slot :: "lt_state \<Rightarrow> bool \<Rightarrow> dtrs" where
  "ex_slot f d = rank_ex\<lparr>gtab := (gtab rank_ex)[2 := zero_gtab\<lparr>gt_allocated := True, gt_rank := 2, gt_seq := 8,
       gt_detached := d, gt_terminated := f\<rparr>],
     mgrstate := (mgrstate rank_ex)\<lparr>threads_alloc := 1, last_slot := 2, threads_running := 1\<rparr>\<rparr>"

definition ex_th :: dthread_t where
  "ex_th = \<lparr>dt_index = 2, dt_seq = 8\<rparr>"

definition ex_waited :: dtrs where
  "ex_waited = join_thread 0 ex_th (ex_slot LT_RUNNING False)"

lemmas ex_slot_defs = ex_slot_def ex_th_def rank_ex_def dtrs_init_def zero_mgrstate_def dtq_init_def zero_gtab_def
  dthread_dt2gtab_def sending_def

lemma ex_slot_inv: "mgr_inv (ex_slot f d)"
proof -
  have "gtab_inuse (ex_slot f d) = {2}"
    by (auto simp: gtab_inuse_def ex_slot_defs nth_list_update_if split: if_splits)
  then have "gtab_ok (ex_slot f d)" by (simp add: gtab_ok_def) (simp add: ex_slot_defs)
  moreover have "lview (ex_slot f d) = lview rank_ex" "rview (ex_slot f d) = rview rank_ex"
    by (simp_all add: ex_slot_def lview_def rview_def)
  ultimately show ?thesis
    using rank_ex_inv ltab_ok_lview [of "ex_slot f d" rank_ex] req_inv_rview [of "ex_slot f d" rank_ex "{#}"]
    by (simp add: mgr_inv_def tables_ok_def gtab_ok_def)
qed

lemma ex_slot_rank: "mpi_rank (ex_slot f d) = 0"
  by (simp add: ex_slot_defs)

lemma ex_slot_facts:
  "gtab_ok (ex_slot f d)" "sending (ex_slot f d)" "dthread_dt2gtab ex_th (ex_slot f d) = Some 2"
  "gt_detached (gtab (ex_slot f d) ! 2) = d" "gt_terminated (gtab (ex_slot f d) ! 2) = f"
  "fst (joinwait_search ex_th b (ex_slot f d)) = None"
  using ex_slot_inv [of f d] by (simp_all add: mgr_inv_def tables_ok_def ex_slot_rank) (simp_all add: joinwait_search_def ex_slot_defs Let_def)

theorem join_zombie_witness:
  "dthread_dt2gtab ex_th (join_thread 5 ex_th (ex_slot LT_RETURNED False)) = None"
  using join_zombie [OF ex_slot_facts(1-3), of LT_RETURNED False 5] by (simp add: ex_slot_facts)

theorem join_running_witness:
  "rpending (mgrstate (join_thread 5 ex_th (ex_slot LT_RUNNING False))) = [Int_req 0]"
proof -
  let ?s = "ex_slot LT_RUNNING False"
  obtain s1 where al: "dtq_req_alloc ?s = (Some (Int_req 0), s1)"
    by (simp add: dtq_req_alloc_def q_malloc_def ex_slot_defs)
  have "rpending (mgrstate ?s) = []" by (simp add: ex_slot_defs)
  then show ?thesis
    using join_running [OF ex_slot_facts(3) _ _ ex_slot_facts(6) al ex_slot_inv, of 5] by (simp add: ex_slot_facts)
qed

theorem terminated_wakes_joiner_witness:
  "\<exists>m. posted (terminated_thread ex_th LT_RETURNED ex_waited) m (Dtmsg_joined 0 zero_argret) 0 0"
proof -
  let ?s = "ex_slot LT_RUNNING False"
  have "mgr_inv ex_waited"
    using join_thread_inv [of ?s 0 ex_th] ex_slot_inv by (simp add: mgr_inv_def mgr_inv_held_def ex_waited_def)
  moreover obtain m s1 where "mqe_alloc ex_waited = (Some m, s1)"
    by (simp add: ex_waited_def join_thread_def joinwait_search_def dtq_req_alloc_def q_malloc_def ex_slot_defs
        mqe_alloc_def dtq_alloc_defs dtq_ops mgr_ops Let_def)
  moreover have "sending ex_waited" "dthread_dt2gtab ex_th ex_waited = Some 2"
      "fst (joinwait_search ex_th False ex_waited) = Some (Int_req 0)" "gtab ex_waited = gtab ?s"
      "reqerror (get_req ex_waited (Int_req 0)) = 0" "xidseq (get_req ex_waited (Int_req 0)) = 0"
      "reqpeer (get_req ex_waited (Int_req 0)) = 0"
    by (simp_all add: ex_waited_def join_thread_def joinwait_search_def dtq_req_alloc_def q_malloc_def ex_slot_defs
        mgr_ops dtq_ops Let_def zero_mqe_def)
  moreover have "gt_ret (gtab ?s ! 2) = zero_argret" by (simp add: ex_slot_defs)
  ultimately show ?thesis
    using terminated_wakes_joiner [of ex_waited ex_th 2 "Int_req 0" m s1 LT_RETURNED] ex_slot_facts(4)
    by (auto simp del: get_req.simps)
qed

theorem terminated_leaves_zombie_witness:
  "dthread_dt2gtab ex_th (terminated_thread ex_th LT_RETURNED (ex_slot LT_RUNNING False)) = Some 2"
  using terminated_leaves_zombie [OF ex_slot_inv ex_slot_facts(3) _ ex_slot_facts(6), of LT_RUNNING False LT_RETURNED]
  by (simp add: ex_slot_facts)

theorem terminated_detached_freed_witness:
  "dthread_dt2gtab ex_th (terminated_thread ex_th LT_RETURNED (ex_slot LT_RUNNING True)) = None"
  using terminated_detached_freed [OF ex_slot_inv ex_slot_facts(3), of LT_RUNNING True LT_RETURNED] by (simp add: ex_slot_facts)

end
