(* ===== verification/Dt_Memory.thy ===== *)
theory Dt_Memory
  imports Dt_Prelude
begin

text \<open>
  The bytes of a shared memory segment, as the C code reads and writes them: byte
  \<open>i\<close> of a segment is the value of a memory at \<open>i\<close>.  Integers are stored in little-endian
  order; \<^verbatim>\<open>memcpy\<close> is \<open>put_bytes\<close> of \<open>get_bytes\<close>.  The lemmas say that a read sees the
  last write to the same place and no write to a place that does not overlap it.
\<close>

type_synonym bytes = "nat \<Rightarrow> u8"

lemma unat64_less [simp]: "unat (w :: u64) < 2 ^ 64" "unat w < 18446744073709551616"
  using unsigned_less [of w] by simp_all

lemma unat_add_bounded: "unat (a :: u64) + unat b \<le> unat (c :: u64) \<Longrightarrow> unat (a + b) = unat a + unat b"
proof -
  assume "unat a + unat b \<le> unat c"
  then have "unat a + unat b < 2 ^ 64" using unat64_less(1) [of c] by linarith
  then show ?thesis by (intro unat_add_no_overflow) simp
qed

subsection \<open>Ranges of bytes\<close>

definition put_bytes :: "nat \<Rightarrow> u8 list \<Rightarrow> bytes \<Rightarrow> bytes" where
  "put_bytes a xs mem = (\<lambda>i. if a \<le> i \<and> i < a + length xs then xs ! (i - a) else mem i)"

definition get_bytes :: "nat \<Rightarrow> nat \<Rightarrow> bytes \<Rightarrow> u8 list" where
  "get_bytes a n mem = map mem [a..<a + n]"

lemma length_get_bytes [simp]: "length (get_bytes a n mem) = n"
  by (simp add: get_bytes_def)

lemma get_put_bytes_same [simp]: "get_bytes a (length xs) (put_bytes a xs mem) = xs"
  by (rule nth_equalityI) (simp_all add: get_bytes_def put_bytes_def)

text \<open>Two ranges of bytes given by their starts and lengths.\<close>

definition apart :: "nat \<Rightarrow> nat \<Rightarrow> nat \<Rightarrow> nat \<Rightarrow> bool" where
  "apart a n b k \<longleftrightarrow> a + n \<le> b \<or> b + k \<le> a"

lemma apart_sym: "apart a n b k = apart b k a n"
  by (auto simp: apart_def)

lemma apart_sub: "apart a n b k \<Longrightarrow> a \<le> a' \<Longrightarrow> a' + n' \<le> a + n \<Longrightarrow> apart a' n' b k"
  by (auto simp: apart_def)

lemma apart_sub2: "apart a n b k \<Longrightarrow> b \<le> b' \<Longrightarrow> b' + k' \<le> b + k \<Longrightarrow> apart a n b' k'"
  by (auto simp: apart_def)

lemma apart_no_common: "apart a n b k \<Longrightarrow> {a..<a + n} \<inter> {b..<b + k} = {}"
  by (auto simp: apart_def)

lemma get_put_bytes_apart: "apart a n b (length xs) \<Longrightarrow> get_bytes a n (put_bytes b xs mem) = get_bytes a n mem"
  by (auto simp: get_bytes_def put_bytes_def apart_def)

lemma take_get_bytes [simp]: "take k (get_bytes a n mem) = get_bytes a (min k n) mem"
  by (rule nth_equalityI) (simp_all add: get_bytes_def)

lemma take_get_put_bytes:
  "k \<le> length xs \<Longrightarrow> get_bytes a k (put_bytes a xs mem) = take k xs"
  by (rule nth_equalityI) (simp_all add: get_bytes_def put_bytes_def)

subsection \<open>Little-endian integers\<close>

definition word_bytes :: "nat \<Rightarrow> 'a::len word \<Rightarrow> u8 list" where
  "word_bytes n w = map (\<lambda>i. ucast (drop_bit (8 * i) w)) [0..<n]"

definition bytes_word :: "u8 list \<Rightarrow> 'a::len word" where
  "bytes_word xs = word_of_int (horner_sum uint (2 ^ 8) xs)"

lemma length_word_bytes [simp]: "length (word_bytes n w) = n"
  by (simp add: word_bytes_def)

lemma bytes_word_word_bytes:
  fixes w :: "'a::len word"
  assumes "LENGTH('a) \<le> 8 * n"
  shows "bytes_word (word_bytes n w) = w"
proof (rule bit_word_eqI)
  fix k assume k: "k < LENGTH('a)"
  then have "k div 8 < n" using assms by (simp add: less_mult_imp_div_less mult.commute)
  moreover have "8 * (k div 8) + k mod 8 = k" by simp
  ultimately show "bit (bytes_word (word_bytes n w) :: 'a word) k = bit w k"
    using k bit_horner_sum_uint_exp_iff [of "word_bytes n w" k]
    by (simp add: bytes_word_def word_bytes_def bit_word_of_int_iff bit_ucast_iff bit_drop_bit_eq)
qed

definition rd32 :: "bytes \<Rightarrow> nat \<Rightarrow> u32" where
  "rd32 mem a = bytes_word (get_bytes a 4 mem)"

definition wr32 :: "nat \<Rightarrow> u32 \<Rightarrow> bytes \<Rightarrow> bytes" where
  "wr32 a w mem = put_bytes a (word_bytes 4 w) mem"

definition rd64 :: "bytes \<Rightarrow> nat \<Rightarrow> u64" where
  "rd64 mem a = bytes_word (get_bytes a 8 mem)"

definition wr64 :: "nat \<Rightarrow> u64 \<Rightarrow> bytes \<Rightarrow> bytes" where
  "wr64 a w mem = put_bytes a (word_bytes 8 w) mem"

lemma rd32_wr32_same [simp]: "rd32 (wr32 a w mem) a = w"
proof -
  have "get_bytes a 4 (wr32 a w mem) = word_bytes 4 w"
    using get_put_bytes_same [of a "word_bytes 4 w" mem] by (simp add: wr32_def)
  then show ?thesis by (simp add: rd32_def bytes_word_word_bytes)
qed

lemma rd64_wr64_same [simp]: "rd64 (wr64 a w mem) a = w"
proof -
  have "get_bytes a 8 (wr64 a w mem) = word_bytes 8 w"
    using get_put_bytes_same [of a "word_bytes 8 w" mem] by (simp add: wr64_def)
  then show ?thesis by (simp add: rd64_def bytes_word_word_bytes)
qed

lemma rd_put_apart:
  "apart a 4 b (length xs) \<Longrightarrow> rd32 (put_bytes b xs mem) a = rd32 mem a"
  "apart a 8 b (length xs) \<Longrightarrow> rd64 (put_bytes b xs mem) a = rd64 mem a"
  by (simp_all add: rd32_def rd64_def get_put_bytes_apart)

lemma rd_wr_apart:
  "apart a 4 b 4 \<Longrightarrow> rd32 (wr32 b w mem) a = rd32 mem a"
  "apart a 8 b 8 \<Longrightarrow> rd64 (wr64 b v mem) a = rd64 mem a"
  by (simp_all add: wr32_def wr64_def rd_put_apart)

lemma get_wr_apart:
  "apart a n b 4 \<Longrightarrow> get_bytes a n (wr32 b w mem) = get_bytes a n mem"
  "apart a n b 8 \<Longrightarrow> get_bytes a n (wr64 b v mem) = get_bytes a n mem"
  by (simp_all add: wr32_def wr64_def get_put_bytes_apart)

text \<open>A memory that agrees with another on a range.\<close>

lemma rd_get_bytes_cong:
  "get_bytes a 4 m = get_bytes a 4 m' \<Longrightarrow> rd32 m a = rd32 m' a"
  "get_bytes a 8 m = get_bytes a 8 m' \<Longrightarrow> rd64 m a = rd64 m' a"
  by (simp_all add: rd32_def rd64_def)

end
