(* ===== verification/Dt_Shm.thy ===== *)
theory Dt_Shm
  imports Dt_Types Dt_Memory
begin

text \<open>
  Shared memory: the state of the segments, which all ranks share, the mappings of one
  rank, and the translation between local pointers and shared memory references
  (\<^verbatim>\<open>dt_ops.c\<close>).

  Each rank maps a segment at an address of its own; a place of a segment is known to
  all ranks by the number of the segment and the offset in it.  The structures that the
  code keeps in a segment (\<^verbatim>\<open>dthread_shmseg_md_t\<close> and the metadata of the malloc arenas) are
  found by their place; all other bytes of segment \<open>i\<close> are in \<open>shm_bytes\<close>.  That the metadata
  and the bytes handed out to users never overlap is what the bounds of the allocators
  say.  A local pointer is an address (\<^typ>\<open>u64\<close>), NULL is \<open>None\<close>.

  The spin lock in a metadata structure makes the locked part of each operation one
  step; it has no other content here.
\<close>

subsection \<open>Structures (dt_internal.h, dthread.h, dt_shmops.c)\<close>

record dthread_shmmap_t =
  mapping :: u64
  md_offset :: u64
  map_size :: u64

record dthread_shmseg_md_t =
  seg_md_magic :: u64
  seg_self :: dthread_shmref_t
  seg_srcflags :: u64
  umapaddr :: u64
  first_avail :: u64
  end_avail :: u64

record dthread_shm_alloc_md_t =
  mdmagic :: u64
  md_self :: dthread_shmref_t
  min_uoffset :: u64
  max_uoffset :: u64
  badalign_bits :: u64
  mopid :: int

record break_malloc_md =
  brk_allocated :: u64
  hdrlen :: int
  nalloc :: int

record bsd_malloc_md =
  oversize :: int
  minbucket :: int
  pagesz :: int
  pagebucket :: int
  nextf :: "u64 list"
  nmalloc :: "u64 list"
  mycore :: u64
  core_resid :: u64

type_synonym shmloc = "u64 \<times> u64"

record shmem =
  seg_mds :: "shmloc \<Rightarrow> dthread_shmseg_md_t"
  amds :: "shmloc \<Rightarrow> dthread_shm_alloc_md_t"
  brk_mds :: "shmloc \<Rightarrow> break_malloc_md"
  bsd_mds :: "shmloc \<Rightarrow> bsd_malloc_md"
  shm_bytes :: "u64 \<Rightarrow> bytes"
  da_src :: dthread_shmref_t

text \<open>
  The operations of a malloc driver, as one rank runs them; \<^verbatim>\<open>malloc\<close> and \<^verbatim>\<open>realloc\<close> return the
  local pointer and the reference.
\<close>

type_synonym mallocret = "(u64 \<times> dthread_shmref_t) option"

record dthread_shm_alloc_ops_t =
  op_name :: string
  op_init :: "dthread_shmref_t \<Rightarrow> shmem \<Rightarrow> (int \<times> shmem) res"
  op_finalize :: "dthread_shmref_t \<Rightarrow> shmem \<Rightarrow> (int \<times> shmem) res"
  op_malloc :: "dthread_shmref_t \<Rightarrow> u64 \<Rightarrow> shmem \<Rightarrow> (mallocret \<times> shmem) res"
  op_free :: "dthread_shmref_t \<Rightarrow> dthread_shmref_t \<Rightarrow> shmem \<Rightarrow> shmem res"
  op_realloc :: "dthread_shmref_t \<Rightarrow> dthread_shmref_t \<Rightarrow> u64 \<Rightarrow> shmem \<Rightarrow> (mallocret \<times> shmem) res"

text \<open>
  What a rank knows: the fields of \<^verbatim>\<open>dthread_dtrs_t\<close> that the shared memory code reads.
  \<open>usrmops\<close> are the malloc drivers of the application.
\<close>

record shmrs =
  shm_rank :: int
  pagesize :: int
  shmmap :: "dthread_shmmap_t list"
  usrmops :: "dthread_shm_alloc_ops_t list"
  defarena :: "dthread_shmref_t option"

abbreviation nshmsrc :: "shmrs \<Rightarrow> nat" where "nshmsrc rs \<equiv> length (shmmap rs)"

abbreviation "DTHREAD_SEG_MD_MAGIC \<equiv> (0x64746873676d6431 :: u64)"
abbreviation "DTHREAD_SHM_MD_MAGIC \<equiv> (0x647468626d643030 :: u64)"

text \<open>\<^verbatim>\<open>alignof(max_align_t)\<close> and the sizes of the metadata structures (LP64, 4-byte spin lock).\<close>

abbreviation "alignsz \<equiv> (16 :: u64)"
abbreviation "sizeof_alloc_md \<equiv> (64 :: u64)"
abbreviation "sizeof_break_md \<equiv> (80 :: u64)"
abbreviation "sizeof_bsd_md \<equiv> (1056 :: u64)"

subsection \<open>References and pointers (dt_ops.c)\<close>

definition dthread_shmref2ptr :: "shmrs \<Rightarrow> dthread_shmref_t option \<Rightarrow> u64 \<Rightarrow> u64 option" where
  "dthread_shmref2ptr rs refp len =
     (case refp of
        None \<Rightarrow> None
      | Some r \<Rightarrow>
          if unat (dt_shmid r) \<ge> nshmsrc rs then None
          else let m = shmmap rs ! unat (dt_shmid r)
               in if dt_offset r \<ge> map_size m then None
                  else if dt_length r > map_size m - dt_offset r then None
                  else if len \<noteq> 0 \<and> len > dt_length r then None
                  else Some (mapping m + dt_offset r))"

text \<open>The loop over the segments: the first one whose mapping holds the pointer, and the offset.\<close>

fun find_shm :: "u64 \<Rightarrow> nat \<Rightarrow> dthread_shmmap_t list \<Rightarrow> (nat \<times> u64) option" where
  "find_shm ptr shmid [] = None"
| "find_shm ptr shmid (m # ms) =
     (if ptr \<ge> mapping m \<and> ptr - mapping m < map_size m then Some (shmid, ptr - mapping m)
      else find_shm ptr (shmid + 1) ms)"

definition dthread_ptr2shmref :: "shmrs \<Rightarrow> u64 \<Rightarrow> u64 \<Rightarrow> int + dthread_shmref_t" where
  "dthread_ptr2shmref rs ptr len =
     (case find_shm ptr 0 (shmmap rs) of
        None \<Rightarrow> Inl EINVAL
      | Some (shmid, offset) \<Rightarrow>
          if len > map_size (shmmap rs ! shmid) - offset then Inl EINVAL
          else Inr \<lparr>dt_shmid = word_of_nat shmid, dt_offset = offset, dt_length = len\<rparr>)"

subsection \<open>Mappings of a rank\<close>

text \<open>
  What the operating system guarantees of the mappings of a process: none wraps around
  the end of the address space, and no two overlap.
\<close>

definition map_range :: "dthread_shmmap_t \<Rightarrow> nat set" where
  "map_range m = {unat (mapping m)..<unat (mapping m) + unat (map_size m)}"

definition maps_ok :: "shmrs \<Rightarrow> bool" where
  "maps_ok rs \<longleftrightarrow> nshmsrc rs < 2 ^ 31 \<and>
     (\<forall>i < nshmsrc rs. unat (mapping (shmmap rs ! i)) + unat (map_size (shmmap rs ! i)) < 2 ^ 64) \<and>
     (\<forall>i < nshmsrc rs. \<forall>j < nshmsrc rs. i \<noteq> j \<longrightarrow> map_range (shmmap rs ! i) \<inter> map_range (shmmap rs ! j) = {})"

lemma find_shm_range:
  "unat (mapping m) + unat (map_size m) < 2 ^ 64 \<Longrightarrow>
   ptr \<ge> mapping m \<and> ptr - mapping m < map_size m \<longleftrightarrow> unat ptr \<in> map_range m"
  by (auto simp: map_range_def word_le_nat_alt word_less_nat_alt unat_sub)

lemma find_shm_first:
  assumes "i < length ms" "unat ptr \<in> map_range (ms ! i)"
    and "\<And>j. j < length ms \<Longrightarrow> unat (mapping (ms ! j)) + unat (map_size (ms ! j)) < 2 ^ 64"
    and "\<And>j. j < i \<Longrightarrow> unat ptr \<notin> map_range (ms ! j)"
  shows "find_shm ptr k ms = Some (k + i, ptr - mapping (ms ! i))"
  using assms
proof (induction ms arbitrary: i k)
  case Nil
  then show ?case by simp
next
  case (Cons m ms)
  have r: "ptr \<ge> mapping m \<and> ptr - mapping m < map_size m \<longleftrightarrow> unat ptr \<in> map_range m"
    using Cons.prems(3) [of 0] by (intro find_shm_range) simp
  show ?case
  proof (cases i)
    case 0
    then show ?thesis using Cons.prems(2) r by simp
  next
    case (Suc i')
    have "unat ptr \<notin> map_range m" using Cons.prems(4) [of 0] Suc by simp
    moreover have "find_shm ptr (k + 1) ms = Some (k + 1 + i', ptr - mapping (ms ! i'))"
      using Cons.prems(1,2) Suc Cons.prems(3) [of "Suc j" for j] Cons.prems(4) [of "Suc j" for j]
      by (intro Cons.IH) auto
    ultimately show ?thesis using r Suc by simp
  qed
qed

lemma find_shm_some:
  assumes "find_shm ptr k ms = Some (i, off)"
  shows "k \<le> i \<and> i < k + length ms \<and> off = ptr - mapping (ms ! (i - k)) \<and> off < map_size (ms ! (i - k))"
  using assms
proof (induction ms arbitrary: k)
  case (Cons m ms)
  show ?case
  proof (cases "ptr \<ge> mapping m \<and> ptr - mapping m < map_size m")
    case False
    then have "find_shm ptr (k + 1) ms = Some (i, off)" using Cons.prems by auto
    from Cons.IH [OF this] show ?thesis by (auto simp: nth_Cons' )
  qed (use Cons.prems in auto)
qed simp

text \<open>What a resolved reference says, in offsets and in addresses.\<close>

lemma shmref2ptr_SomeD:
  assumes "dthread_shmref2ptr rs (Some r) len = Some p"
  shows "unat (dt_shmid r) < nshmsrc rs"
    and "unat (dt_offset r) < unat (map_size (shmmap rs ! unat (dt_shmid r)))"
    and "unat (dt_offset r) + unat (dt_length r) \<le> unat (map_size (shmmap rs ! unat (dt_shmid r)))"
    and "len = 0 \<or> unat len \<le> unat (dt_length r)"
    and "p = mapping (shmmap rs ! unat (dt_shmid r)) + dt_offset r"
    and "maps_ok rs \<Longrightarrow> unat p = unat (mapping (shmmap rs ! unat (dt_shmid r))) + unat (dt_offset r)"
proof -
  let ?m = "shmmap rs ! unat (dt_shmid r)"
  have c: "unat (dt_shmid r) < nshmsrc rs" "dt_offset r < map_size ?m" "dt_length r \<le> map_size ?m - dt_offset r"
      "len = 0 \<or> len \<le> dt_length r" "p = mapping ?m + dt_offset r"
    using assms by (auto simp: dthread_shmref2ptr_def Let_def not_less not_le split: if_splits)
  then show "unat (dt_shmid r) < nshmsrc rs" "unat (dt_offset r) < unat (map_size ?m)"
      "unat (dt_offset r) + unat (dt_length r) \<le> unat (map_size ?m)"
      "len = 0 \<or> unat len \<le> unat (dt_length r)" "p = mapping ?m + dt_offset r"
    by (auto simp: word_less_nat_alt word_le_nat_alt unat_sub)
  assume "maps_ok rs"
  then have "unat (mapping ?m) + unat (map_size ?m) < 2 ^ 64" using c(1) by (simp add: maps_ok_def)
  then show "unat p = unat (mapping ?m) + unat (dt_offset r)"
    using c(2,5) by (simp add: unat_add_no_overflow word_less_nat_alt)
qed

lemma ptr2shmref_ref:
  assumes "maps_ok rs" and a: "dthread_shmref2ptr rs (Some r) 0 = Some p"
  shows "dthread_ptr2shmref rs p (dt_length r) = Inr r"
proof -
  let ?i = "unat (dt_shmid r)"
  let ?m = "shmmap rs ! ?i"
  note c = shmref2ptr_SomeD [OF a]
  have w: "unat (mapping (shmmap rs ! j)) + unat (map_size (shmmap rs ! j)) < 2 ^ 64" if "j < nshmsrc rs" for j
    using assms(1) that by (simp add: maps_ok_def)
  have in_r: "unat p \<in> map_range ?m" using c(2) c(6) [OF assms(1)] by (simp add: map_range_def)
  have "map_range ?m \<inter> map_range (shmmap rs ! j) = {}" if "j < ?i" for j
    using assms(1) that c(1) by (simp add: maps_ok_def)
  then have "unat p \<notin> map_range (shmmap rs ! j)" if "j < ?i" for j using in_r that by blast
  then have "find_shm p 0 (shmmap rs) = Some (?i, p - mapping ?m)"
    using find_shm_first [OF c(1) in_r w, of 0] by simp
  moreover have "dt_length r \<le> map_size ?m - dt_offset r"
    using c(2,3) by (simp add: word_le_nat_alt unat_sub)
  ultimately show ?thesis using c(5) by (simp add: dthread_ptr2shmref_def)
qed

subsection \<open>Properties\<close>

text \<open>
  C36. Resolving a reference is memory safe: when \<^verbatim>\<open>dthread_shmref2ptr\<close> returns a pointer, it is
  the address of the byte at the offset of the reference and lies inside the mapping of its
  segment, also for a reference of length 0; and so do all bytes of the reference and
  the \<open>len\<close> bytes the caller asked for.
\<close>

theorem shmref2ptr_in_bounds:
  assumes "dthread_shmref2ptr rs (Some r) len = Some p" and "maps_ok rs"
  shows "unat p = unat (mapping (shmmap rs ! unat (dt_shmid r))) + unat (dt_offset r) \<and>
    unat p \<in> map_range (shmmap rs ! unat (dt_shmid r)) \<and>
    (\<forall>i. i < unat (dt_length r) \<or> i < unat len \<longrightarrow> unat p + i \<in> map_range (shmmap rs ! unat (dt_shmid r)))"
  using shmref2ptr_SomeD [OF assms(1)] assms(2) by (auto simp: map_range_def)

text \<open>
  C37. References and pointers are inverse to each other: the pointer of a valid reference
  gives back the reference, and a reference made for a pointer resolves to the pointer
  (for any number of bytes up to the length it was made for).
\<close>

theorem shmref_roundtrip:
  assumes "maps_ok rs"
  shows "(dthread_shmref2ptr rs (Some r) 0 = Some p \<longrightarrow> dthread_ptr2shmref rs p (dt_length r) = Inr r) \<and>
         (dthread_ptr2shmref rs q len = Inr r' \<longrightarrow> k \<le> len \<longrightarrow> dthread_shmref2ptr rs (Some r') k = Some q)"
proof (intro conjI impI)
  assume "dthread_shmref2ptr rs (Some r) 0 = Some p"
  with assms show "dthread_ptr2shmref rs p (dt_length r) = Inr r" by (rule ptr2shmref_ref)
next
  assume b: "dthread_ptr2shmref rs q len = Inr r'" "k \<le> len"
  then obtain i off where f: "find_shm q 0 (shmmap rs) = Some (i, off)" "len \<le> map_size (shmmap rs ! i) - off"
      "r' = \<lparr>dt_shmid = word_of_nat i, dt_offset = off, dt_length = len\<rparr>"
    by (auto simp: dthread_ptr2shmref_def not_less split: option.splits if_splits)
  have i: "i < nshmsrc rs" "off = q - mapping (shmmap rs ! i)" "off < map_size (shmmap rs ! i)"
    using find_shm_some [OF f(1)] by auto
  then have "unat (word_of_nat i :: u64) = i" using assms by (simp add: maps_ok_def unat_of_nat)
  then show "dthread_shmref2ptr rs (Some r') k = Some q"
    using f i b(2) by (auto simp: dthread_shmref2ptr_def Let_def not_less not_le)
qed

subsection \<open>A rank with two segments\<close>

definition shm_ex :: shmrs where
  "shm_ex = \<lparr>shm_rank = 0, pagesize = 4096,
     shmmap = [\<lparr>mapping = 0x7f0000000000, md_offset = 0, map_size = 0x100000\<rparr>,
               \<lparr>mapping = 0x7e0000000000, md_offset = 0x1000, map_size = 0x20000\<rparr>],
     usrmops = [], defarena = None\<rparr>"

lemma shm_ex_maps_ok: "maps_ok shm_ex"
  by (auto simp: maps_ok_def shm_ex_def map_range_def less_Suc_eq)

theorem shmref2ptr_in_bounds_witness:
  "0x7e0000001234 \<in> map_range (shmmap shm_ex ! 1) \<and> 0x7e0000001234 + 9 \<in> map_range (shmmap shm_ex ! 1)"
  using shmref2ptr_in_bounds [of shm_ex "\<lparr>dt_shmid = 1, dt_offset = 0x1234, dt_length = 10\<rparr>" 10 "0x7e0000001234"]
    shm_ex_maps_ok
  by (simp add: dthread_shmref2ptr_def shm_ex_def) (auto dest: spec [of _ 9])

theorem shmref_roundtrip_witness:
  "dthread_ptr2shmref shm_ex 0x7e0000001234 10 = Inr \<lparr>dt_shmid = 1, dt_offset = 0x1234, dt_length = 10\<rparr> \<and>
   dthread_shmref2ptr shm_ex (Some \<lparr>dt_shmid = 1, dt_offset = 0x1234, dt_length = 10\<rparr>) 4 = Some 0x7e0000001234"
proof -
  let ?r = "\<lparr>dt_shmid = 1, dt_offset = 0x1234, dt_length = 10\<rparr>"
  have "dthread_shmref2ptr shm_ex (Some ?r) 0 = Some 0x7e0000001234"
    by (simp add: dthread_shmref2ptr_def shm_ex_def)
  then show ?thesis
    using shmref_roundtrip [OF shm_ex_maps_ok, of ?r "0x7e0000001234" "0x7e0000001234" 10 ?r 4] by simp
qed

end
