(* ===== verification/Dt_Alloc.thy ===== *)
theory Dt_Alloc
  imports Dt_Shm
begin

text \<open>
  What the users of shared memory rely on, as two interfaces.  \<open>block_allocator\<close>: the
  blocks that an allocator hands out do not overlap and are as long as requested (the
  segment allocator of \<^verbatim>\<open>dt_segops.c\<close>).  \<open>block_store\<close> adds the release of blocks and the
  bytes in them: seen by its clients the allocator is a set of blocks with contents that
  only the owner of a block changes (the malloc drivers of \<^verbatim>\<open>dt_shmops.c\<close>).
\<close>

subsection \<open>Blocks\<close>

definition bstart :: "dthread_shmref_t \<Rightarrow> nat" where
  "bstart r = unat (dt_offset r)"

definition blen :: "dthread_shmref_t \<Rightarrow> nat" where
  "blen r = unat (dt_length r)"

definition blocks_apart :: "dthread_shmref_t \<Rightarrow> dthread_shmref_t \<Rightarrow> bool" where
  "blocks_apart q r \<longleftrightarrow> apart (bstart q) (blen q) (bstart r) (blen r)"

definition all_apart :: "dthread_shmref_t set \<Rightarrow> bool" where
  "all_apart L \<longleftrightarrow> (\<forall>q \<in> L. \<forall>r \<in> L. q \<noteq> r \<longrightarrow> blocks_apart q r)"

definition block_bytes :: "dthread_shmref_t \<Rightarrow> bytes \<Rightarrow> u8 list" where
  "block_bytes r mem = get_bytes (bstart r) (blen r) mem"

lemma blocks_apart_sym: "blocks_apart q r = blocks_apart r q"
  unfolding blocks_apart_def by (rule apart_sym)

lemma all_apart_insert:
  "all_apart L \<Longrightarrow> \<forall>q \<in> L. blocks_apart q r \<Longrightarrow> all_apart (insert r L)"
  unfolding all_apart_def using blocks_apart_sym by (metis insert_iff)

lemma all_apart_subset: "all_apart L \<Longrightarrow> K \<subseteq> L \<Longrightarrow> all_apart K"
  unfolding all_apart_def by blast

subsection \<open>Allocators\<close>

text \<open>A sequence of allocations, each of which succeeds.\<close>

fun alloc_all :: "(u64 \<Rightarrow> 's \<Rightarrow> dthread_shmref_t option \<times> 's) \<Rightarrow> u64 list \<Rightarrow> 's \<Rightarrow>
    (dthread_shmref_t list \<times> 's) option" where
  "alloc_all alloc [] s = Some ([], s)"
| "alloc_all alloc (n # ns) s =
     (case alloc n s of
        (None, _) \<Rightarrow> None
      | (Some r, s') \<Rightarrow> map_option (\<lambda>(rs, t). (r # rs, t)) (alloc_all alloc ns s'))"

text \<open>
  \<open>inv L s\<close>: in state \<open>s\<close> the blocks \<open>L\<close> are handed out; \<open>fits n\<close>: \<open>n\<close> is a size for which the allocator
  keeps its promises.  Each allocator has its own bounds: sizes close to \<open>2 ^ 64\<close> wrap in
  some, and a driver may exclude size 0 or sizes its buckets do not reach.
\<close>

locale block_allocator =
  fixes inv :: "dthread_shmref_t set \<Rightarrow> 's \<Rightarrow> bool"
    and alloc :: "u64 \<Rightarrow> 's \<Rightarrow> dthread_shmref_t option \<times> 's"
    and fits :: "u64 \<Rightarrow> bool"
  assumes inv_apart: "inv L s \<Longrightarrow> all_apart L"
    and alloc_inv: "inv L s \<Longrightarrow> fits n \<Longrightarrow> alloc n s = (Some r, s') \<Longrightarrow>
      r \<notin> L \<and> unat n \<le> blen r \<and> inv (insert r L) s'"
    and alloc_none: "inv L s \<Longrightarrow> fits n \<Longrightarrow> alloc n s = (None, s') \<Longrightarrow> inv L s'"
begin

lemma alloc_all_inv:
  "inv L s \<Longrightarrow> list_all fits ns \<Longrightarrow> alloc_all alloc ns s = Some (rs, s') \<Longrightarrow>
     inv (set rs \<union> L) s' \<and> distinct rs \<and> set rs \<inter> L = {} \<and> list_all2 (\<lambda>n r. unat n \<le> blen r) ns rs"
proof (induction ns arbitrary: L s rs)
  case Nil
  then show ?case by simp
next
  case (Cons n ns)
  then obtain r t rs' where a: "alloc n s = (Some r, t)" "alloc_all alloc ns t = Some (rs', s')" "rs = r # rs'"
    by (auto split: option.splits prod.splits)
  then have r: "r \<notin> L" "unat n \<le> blen r" "inv (insert r L) t" using alloc_inv [of L s n] Cons.prems by auto
  then show ?case using Cons.IH [OF r(3) _ a(2)] Cons.prems(2) a(3) by auto
qed

lemma alloc_all_apart:
  assumes "inv L s" "list_all fits ns" "alloc_all alloc ns s = Some (rs, s')"
  shows "distinct rs \<and> all_apart (set rs \<union> L) \<and> list_all2 (\<lambda>n r. unat n \<le> blen r) ns rs"
  using alloc_all_inv [OF assms] inv_apart by blast

end

subsection \<open>Stores of blocks\<close>

text \<open>
  The clients of a malloc driver, with the contents they have given to their blocks.  A
  client that asked for \<open>n\<close> bytes takes its block to be \<open>n\<close> bytes long, whatever length the
  reference has: a new block has \<open>n\<close> bytes of arbitrary contents, and a write replaces all of
  them.  A client frees only blocks it has.
\<close>

type_synonym blockstore = "dthread_shmref_t \<Rightarrow> u8 list option"

inductive client_step ::
  "(u64 \<Rightarrow> 's \<Rightarrow> dthread_shmref_t option \<times> 's) \<Rightarrow> (dthread_shmref_t \<Rightarrow> 's \<Rightarrow> 's) \<Rightarrow> ('s \<Rightarrow> bytes) \<Rightarrow>
   (nat \<Rightarrow> u8 list \<Rightarrow> 's \<Rightarrow> 's) \<Rightarrow> (u64 \<Rightarrow> bool) \<Rightarrow> blockstore \<times> 's \<Rightarrow> blockstore \<times> 's \<Rightarrow> bool"
  for alloc release mem put fits where
  client_alloc: "fits n \<Longrightarrow> alloc n s = (Some r, s') \<Longrightarrow>
    client_step alloc release mem put fits (A, s) (A(r \<mapsto> get_bytes (bstart r) (unat n) (mem s')), s')"
| client_none: "fits n \<Longrightarrow> alloc n s = (None, s') \<Longrightarrow> client_step alloc release mem put fits (A, s) (A, s')"
| client_free: "r \<in> dom A \<Longrightarrow> client_step alloc release mem put fits (A, s) (A(r := None), release r s)"
| client_write: "A r = Some ys \<Longrightarrow> length xs = length ys \<Longrightarrow>
    client_step alloc release mem put fits (A, s) (A(r \<mapsto> xs), put (bstart r) xs s)"

inductive_cases client_stepE: "client_step alloc release mem put fits p q"

locale block_store = block_allocator inv alloc fits
  for inv :: "dthread_shmref_t set \<Rightarrow> 's \<Rightarrow> bool"
    and alloc :: "u64 \<Rightarrow> 's \<Rightarrow> dthread_shmref_t option \<times> 's"
    and fits :: "u64 \<Rightarrow> bool" +
  fixes release :: "dthread_shmref_t \<Rightarrow> 's \<Rightarrow> 's"
    and mem :: "'s \<Rightarrow> bytes"
    and put :: "nat \<Rightarrow> u8 list \<Rightarrow> 's \<Rightarrow> 's"
  assumes alloc_exact: "inv L s \<Longrightarrow> fits n \<Longrightarrow> alloc n s = (Some r, s') \<Longrightarrow> blen r = unat n"
    and alloc_keeps: "inv L s \<Longrightarrow> fits n \<Longrightarrow> q \<in> L \<Longrightarrow>
      block_bytes q (mem (snd (alloc n s))) = block_bytes q (mem s)"
    and release_inv: "inv L s \<Longrightarrow> r \<in> L \<Longrightarrow> inv (L - {r}) (release r s)"
    and release_keeps: "inv L s \<Longrightarrow> r \<in> L \<Longrightarrow> q \<in> L - {r} \<Longrightarrow>
      block_bytes q (mem (release r s)) = block_bytes q (mem s)"
    and put_mem: "mem (put a xs s) = put_bytes a xs (mem s)"
    and put_inv: "inv L s \<Longrightarrow> r \<in> L \<Longrightarrow> length xs = blen r \<Longrightarrow> inv L (put (bstart r) xs s)"
begin

text \<open>The simulation: the allocator's state implements the clients' view of it.\<close>

definition sim :: "blockstore \<Rightarrow> 's \<Rightarrow> bool" where
  "sim A s \<longleftrightarrow> inv (dom A) s \<and> (\<forall>r xs. A r = Some xs \<longrightarrow> block_bytes r (mem s) = xs)"

lemma sim_step:
  assumes "sim A s" "client_step alloc release mem put fits (A, s) (A', s')"
  shows "sim A' s'"
  using assms(2)
proof (cases rule: client_step.cases)
  case (client_alloc n r)
  have i: "inv (dom A) s" using assms(1) by (simp add: sim_def)
  then have r: "r \<notin> dom A" "inv (insert r (dom A)) s'" using alloc_inv client_alloc by blast+
  have "block_bytes q (mem s') = xs" if "A q = Some xs" for q xs
    using alloc_keeps [OF i client_alloc(2), of q] that assms(1) client_alloc(3) by (auto simp: sim_def)
  moreover have "blen r = unat n" using alloc_exact [OF i client_alloc(2,3)] .
  ultimately show ?thesis using client_alloc(1) r by (auto simp: sim_def block_bytes_def)
next
  case (client_none n)
  have i: "inv (dom A) s" using assms(1) by (simp add: sim_def)
  have "block_bytes q (mem s') = xs" if "A q = Some xs" for q xs
    using alloc_keeps [OF i client_none(2), of q] that assms(1) client_none(3) by (auto simp: sim_def)
  then show ?thesis using client_none(1) alloc_none [OF i client_none(2,3)] by (auto simp: sim_def)
next
  case (client_free r)
  have i: "inv (dom A) s" using assms(1) by (simp add: sim_def)
  have "dom A' = dom A - {r}" using client_free by auto
  moreover have "block_bytes q (mem s') = xs" if "A' q = Some xs" for q xs
  proof -
    have q: "q \<noteq> r" "A q = Some xs" using that client_free by (auto split: if_splits)
    then have "q \<in> dom A - {r}" by auto
    then have "block_bytes q (mem s') = block_bytes q (mem s)"
      using release_keeps [OF i client_free(3)] client_free(2) by blast
    then show ?thesis using q assms(1) by (simp add: sim_def)
  qed
  ultimately show ?thesis using release_inv [OF i client_free(3)] client_free(2) by (simp add: sim_def)
next
  case (client_write r ys xs)
  have i: "inv (dom A) s" using assms(1) by (simp add: sim_def)
  have rA: "r \<in> dom A" using client_write(3) by blast
  have "block_bytes r (mem s) = ys" using client_write(3) assms(1) by (simp add: sim_def)
  then have len: "length xs = blen r" using client_write(4) by (auto simp: block_bytes_def)
  have d: "dom A' = dom A" using client_write by auto
  have "block_bytes q (mem s') = zs" if "A' q = Some zs" for q zs
  proof (cases "q = r")
    case True
    then show ?thesis using that client_write(1,2) len get_put_bytes_same [of "bstart r" xs "mem s"]
      by (auto simp: block_bytes_def put_mem)
  next
    case False
    then have q: "A q = Some zs" using that client_write by simp
    then have "q \<in> dom A" by auto
    then have "blocks_apart q r" using inv_apart [OF i] rA False by (auto simp: all_apart_def)
    then have "block_bytes q (mem s') = block_bytes q (mem s)"
      using client_write(2) len by (simp add: block_bytes_def put_mem get_put_bytes_apart blocks_apart_def)
    then show ?thesis using q assms(1) by (simp add: sim_def)
  qed
  then show ?thesis using d put_inv [OF i rA len] client_write(2) by (simp add: sim_def)
qed

lemma sim_run:
  "(client_step alloc release mem put fits)\<^sup>*\<^sup>* p q \<Longrightarrow> sim (fst p) (snd p) \<Longrightarrow> sim (fst q) (snd q)"
proof (induction rule: rtranclp_induct)
  case (step q t)
  then show ?case using sim_step [of "fst q" "snd q" "fst t" "snd t"] by simp
qed

text \<open>What a client sees: its blocks do not overlap, are as long as requested, and hold what it wrote last.\<close>

lemma client_view:
  assumes "(client_step alloc release mem put fits)\<^sup>*\<^sup>* (Map.empty, s) (A, s')" "inv {} s"
  shows "all_apart (dom A) \<and> (\<forall>r xs. A r = Some xs \<longrightarrow> block_bytes r (mem s') = xs \<and> length xs = blen r) \<and> inv (dom A) s'"
proof -
  have "sim Map.empty s" using assms(2) by (simp add: sim_def)
  then have "sim A s'" using sim_run [OF assms(1)] by simp
  moreover have "length xs = blen r" if "A r = Some xs" "sim A s'" for r xs
    using that by (auto simp: sim_def block_bytes_def dest!: spec [of _ r])
  ultimately show ?thesis using inv_apart by (auto simp: sim_def)
qed

end

end
