(* ===== verification/Dt_Segops.thy ===== *)
theory Dt_Segops
  imports Dt_Alloc
begin

text \<open>
  The segment allocator and the information functions of \<^verbatim>\<open>dt_segops.c\<close>.  A segment has a
  line between the part that is allocated and the part that is available; allocation
  moves it, and nothing is ever given back.
\<close>

subsection \<open>Padding\<close>

text \<open>The idiom \<^verbatim>\<open>pad = n % alignsz; if (pad) pad = alignsz - pad;\<close> of both allocators.\<close>

definition align_pad :: "u64 \<Rightarrow> u64" where
  "align_pad n = (let pad = n mod alignsz in if pad \<noteq> 0 then alignsz - pad else 0)"

definition align_up :: "nat \<Rightarrow> nat" where
  "align_up n = (n + 15) div 16 * 16"

lemma align_up_eq: "align_up n = n + (if n mod 16 = 0 then 0 else 16 - n mod 16)"
proof -
  obtain q r where n: "n = 16 * q + r" "r < 16" using mult_div_mod_eq [of 16 n] mod_less_divisor [of 16 n] by (metis zero_less_numeral)
  have "(16 * q + r + 15) div 16 = q + (if r = 0 then 0 else 1)" using n(2) by (cases "r = 0") auto
  then show ?thesis using n by (auto simp: align_up_def)
qed

lemma align_up_props: "n \<le> align_up n" "align_up n < n + 16"
  by (simp_all add: align_up_eq)

lemma align_up_dvd: "16 dvd align_up n"
  by (simp add: align_up_def)

lemma unat_align_pad: "unat (align_pad n) = align_up (unat n) - unat n" "unat (align_pad n) < 16"
proof -
  let ?p = "unat n mod 16"
  have p: "unat (n mod 16) = ?p" by (simp add: unat_mod)
  show u: "unat (align_pad n) = align_up (unat n) - unat n"
  proof (cases "?p = 0")
    case True
    then have "n mod 16 = 0" using p by (simp add: unat_eq_zero)
    then show ?thesis using True by (simp add: align_pad_def align_up_eq)
  next
    case False
    then have m: "n mod 16 \<noteq> 0" using p by (metis unsigned_0)
    have "unat (16 - n mod 16) = 16 - ?p"
      using p by (simp add: unat_sub word_le_nat_alt)
    then show ?thesis using m False by (simp add: align_pad_def align_up_eq)
  qed
  then show "unat (align_pad n) < 16" using align_up_props(2) [of "unat n"] by linarith
qed

lemma unat_padded: "unat n + 15 < 2 ^ 64 \<Longrightarrow> unat (n + align_pad n) = align_up (unat n)"
proof -
  assume a: "unat n + 15 < 2 ^ 64"
  have "align_up (unat n) < 2 ^ 64"
  proof -
    have "align_up (unat n) \<le> unat n + 15" unfolding align_up_def by simp
    with a show ?thesis by simp
  qed
  then show ?thesis using unat_align_pad(1) [of n] align_up_props(1) [of "unat n"]
    by (simp add: unat_add_no_overflow)
qed

subsection \<open>Segment information\<close>

definition seg_loc :: "shmrs \<Rightarrow> u64 \<Rightarrow> shmloc" where
  "seg_loc rs shmid = (shmid, md_offset (shmmap rs ! unat shmid))"

abbreviation seg_md :: "shmrs \<Rightarrow> u64 \<Rightarrow> shmem \<Rightarrow> dthread_shmseg_md_t" where
  "seg_md rs shmid m \<equiv> seg_mds m (seg_loc rs shmid)"

record dthread_seginfo_t =
  si_mapping :: u64
  si_size :: u64
  si_mdoffset :: u64
  si_srcflags :: u64
  si_umapaddr :: u64
  si_firstavail :: u64
  si_endavail :: u64

definition dthread_shm_seginfo :: "shmrs \<Rightarrow> u64 \<Rightarrow> shmem \<Rightarrow> int + dthread_seginfo_t" where
  "dthread_shm_seginfo rs shmid m =
     (if unat shmid \<ge> nshmsrc rs then Inl ENOENT
      else let sm = shmmap rs ! unat shmid; md = seg_md rs shmid m
           in if seg_md_magic md \<noteq> DTHREAD_SEG_MD_MAGIC \<or> dt_shmid (seg_self md) \<noteq> shmid \<or>
                 dt_offset (seg_self md) \<noteq> 0 \<or> dt_length (seg_self md) \<noteq> map_size sm
              then Inl EINVAL
              else Inr \<lparr>si_mapping = mapping sm, si_size = map_size sm, si_mdoffset = md_offset sm,
                        si_srcflags = seg_srcflags md, si_umapaddr = umapaddr md,
                        si_firstavail = first_avail md, si_endavail = end_avail md\<rparr>)"

definition dthread_shm_segavail :: "shmrs \<Rightarrow> u64 \<Rightarrow> shmem \<Rightarrow> int + dthread_shmref_t" where
  "dthread_shm_segavail rs shmid m =
     (if unat shmid \<ge> nshmsrc rs then Inl EINVAL
      else let md = seg_md rs shmid m
           in if seg_md_magic md \<noteq> DTHREAD_SEG_MD_MAGIC then Inl EINVAL
              else if first_avail md > map_size (shmmap rs ! unat shmid) \<or> first_avail md > end_avail md
              then Inr \<lparr>dt_shmid = shmid, dt_offset = end_avail md, dt_length = 0\<rparr>
              else Inr \<lparr>dt_shmid = shmid, dt_offset = first_avail md,
                        dt_length = end_avail md - first_avail md\<rparr>)"

subsection \<open>Allocation\<close>

text \<open>\<open>spin\<close> is the result of \<^verbatim>\<open>dthread_spin_lock\<close>; the result holds the local pointer and the reference.\<close>

definition dthread_shmseg_alloc ::
    "shmrs \<Rightarrow> int \<Rightarrow> u64 \<Rightarrow> u64 \<Rightarrow> shmem \<Rightarrow> (u64 \<times> dthread_shmref_t) option \<times> shmem" where
  "dthread_shmseg_alloc rs spin shmid want m =
     (if unat shmid \<ge> nshmsrc rs then (None, m)
      else let md = seg_md rs shmid m
           in if seg_md_magic md \<noteq> DTHREAD_SEG_MD_MAGIC then (None, m)
              else let total = want + align_pad want
                   in if spin \<noteq> 0 then (None, m)
                      else if first_avail md \<ge> map_size (shmmap rs ! unat shmid) \<or>
                              first_avail md \<ge> end_avail md then (None, m)
                      else if total \<noteq> 0 \<and> total > end_avail md - first_avail md then (None, m)
                      else let total = (if total = 0 then end_avail md - first_avail md else total)
                           in (Some (mapping (shmmap rs ! unat shmid) + first_avail md,
                                     \<lparr>dt_shmid = shmid, dt_offset = first_avail md, dt_length = total\<rparr>),
                               m\<lparr>seg_mds := (seg_mds m)(seg_loc rs shmid := md\<lparr>first_avail := first_avail md + total\<rparr>)\<rparr>))"

text \<open>The state of a segment, and the blocks \<open>L\<close> that have been allocated in it.\<close>

definition seg_ok :: "shmrs \<Rightarrow> u64 \<Rightarrow> shmem \<Rightarrow> bool" where
  "seg_ok rs shmid m \<longleftrightarrow> unat shmid < nshmsrc rs \<and> seg_md_magic (seg_md rs shmid m) = DTHREAD_SEG_MD_MAGIC \<and>
     first_avail (seg_md rs shmid m) \<le> end_avail (seg_md rs shmid m) \<and>
     end_avail (seg_md rs shmid m) \<le> map_size (shmmap rs ! unat shmid)"

definition seg_inv :: "shmrs \<Rightarrow> u64 \<Rightarrow> nat \<Rightarrow> dthread_shmref_t set \<Rightarrow> shmem \<Rightarrow> bool" where
  "seg_inv rs shmid lo L m \<longleftrightarrow> seg_ok rs shmid m \<and> all_apart L \<and> lo \<le> unat (first_avail (seg_md rs shmid m)) \<and>
     (\<forall>r \<in> L. dt_shmid r = shmid \<and> lo \<le> bstart r \<and> 0 < blen r \<and>
        bstart r + blen r \<le> unat (first_avail (seg_md rs shmid m)))"

definition seg_fits :: "u64 \<Rightarrow> bool" where
  "seg_fits n \<longleftrightarrow> unat n + 15 < 2 ^ 64"

definition seg_alloc :: "shmrs \<Rightarrow> int \<Rightarrow> u64 \<Rightarrow> u64 \<Rightarrow> shmem \<Rightarrow> dthread_shmref_t option \<times> shmem" where
  "seg_alloc rs spin shmid n m = (let (p, m') = dthread_shmseg_alloc rs spin shmid n m in (map_option snd p, m'))"

lemma seg_alloc_some:
  assumes "seg_ok rs shmid m" "dthread_shmseg_alloc rs spin shmid want m = (Some (p, r), m')"
  shows "dt_shmid r = shmid" "dt_offset r = first_avail (seg_md rs shmid m)" "0 < blen r"
    "bstart r + blen r = unat (first_avail (seg_md rs shmid m'))"
    "seg_mds m' = (seg_mds m)(seg_loc rs shmid := (seg_md rs shmid m)\<lparr>first_avail := first_avail (seg_md rs shmid m')\<rparr>)"
    "seg_ok rs shmid m'" "p = mapping (shmmap rs ! unat shmid) + dt_offset r"
    "seg_fits want \<Longrightarrow> unat want \<le> blen r \<and> (want \<noteq> 0 \<longrightarrow> blen r = align_up (unat want))"
proof -
  let ?md = "seg_md rs shmid m"
  define t where "t = want + align_pad want"
  define total where "total = (if t = 0 then end_avail ?md - first_avail ?md else t)"
  have c: "first_avail ?md < end_avail ?md" "t = 0 \<or> t \<le> end_avail ?md - first_avail ?md"
      "r = \<lparr>dt_shmid = shmid, dt_offset = first_avail ?md, dt_length = total\<rparr>"
      "m' = m\<lparr>seg_mds := (seg_mds m)(seg_loc rs shmid := ?md\<lparr>first_avail := first_avail ?md + total\<rparr>)\<rparr>"
      "p = mapping (shmmap rs ! unat shmid) + first_avail ?md"
    using assms by (auto simp: dthread_shmseg_alloc_def Let_def seg_ok_def t_def total_def split: if_splits)
  have ne: "end_avail ?md - first_avail ?md \<noteq> 0" using c(1) by auto
  have tle: "total \<le> end_avail ?md - first_avail ?md" "total \<noteq> 0" using c(2) ne by (auto simp: total_def)
  then have n: "unat (first_avail ?md) + unat total \<le> unat (end_avail ?md)" "0 < unat total"
    using c(1) by (auto simp: word_le_nat_alt word_less_nat_alt unat_sub unat_gt_0)
  have s: "unat (first_avail ?md + total) = unat (first_avail ?md) + unat total"
    using n(1) by (rule unat_add_bounded)
  show "dt_shmid r = shmid" "dt_offset r = first_avail ?md" "0 < blen r" "p = mapping (shmmap rs ! unat shmid) + dt_offset r"
      "bstart r + blen r = unat (first_avail (seg_md rs shmid m'))"
      "seg_mds m' = (seg_mds m)(seg_loc rs shmid := ?md\<lparr>first_avail := first_avail (seg_md rs shmid m')\<rparr>)"
      "seg_ok rs shmid m'"
    using c n s assms(1) by (auto simp: blen_def bstart_def seg_ok_def word_le_nat_alt)
  assume f: "seg_fits want"
  have "unat t = align_up (unat want)" using unat_padded f by (simp add: t_def seg_fits_def)
  moreover have "t \<noteq> 0" if "want \<noteq> 0"
    using \<open>unat t = align_up (unat want)\<close> align_up_props(1) [of "unat want"] that unat_gt_0 [of want] by auto
  ultimately show "unat want \<le> blen r \<and> (want \<noteq> 0 \<longrightarrow> blen r = align_up (unat want))"
    using c(3) align_up_props(1) [of "unat want"] by (cases "want = 0") (auto simp: blen_def total_def)
qed

interpretation segs: block_allocator "seg_inv rs shmid lo" "seg_alloc rs spin shmid" seg_fits
  for rs shmid lo spin
proof (unfold_locales, goal_cases)
  case (1 L m)
  then show ?case by (simp add: seg_inv_def)
next
  case (2 L m n r m')
  then obtain p where a: "dthread_shmseg_alloc rs spin shmid n m = (Some (p, r), m')"
    by (auto simp: seg_alloc_def split: prod.splits)
  have ok: "seg_ok rs shmid m" using 2(1) by (simp add: seg_inv_def)
  note r = seg_alloc_some [OF ok a]
  have old: "bstart q + blen q \<le> bstart r" if "q \<in> L" for q using 2(1) that r(2) by (simp add: seg_inv_def bstart_def)
  then have ap: "\<forall>q \<in> L. blocks_apart q r" by (simp add: blocks_apart_def apart_def)
  have "r \<notin> L" using old r(3) by fastforce
  moreover have "bstart q + blen q \<le> unat (first_avail (seg_md rs shmid m'))" if "q \<in> L" for q
    using old [OF that] r(4) by simp
  ultimately show ?case
    using 2(1,2) r ap all_apart_insert [OF _ ap] by (auto simp: seg_inv_def bstart_def)
next
  case (3 L m n m')
  then have "m' = m" by (auto simp: seg_alloc_def dthread_shmseg_alloc_def Let_def split: prod.splits if_splits)
  then show ?case using 3(1) by simp
qed

subsection \<open>Properties\<close>

text \<open>
  Alignment: the padding keeps the line between the allocated and the available part at a
  multiple of 16, until a request for all that is left moves it to the end.
\<close>

lemma seg_allocs_aligned:
  "seg_ok rs shmid m \<Longrightarrow> \<forall>n \<in> set ns. seg_fits n \<Longrightarrow> alloc_all (seg_alloc rs spin shmid) ns m = Some (blks, m') \<Longrightarrow>
   16 dvd unat (first_avail (seg_md rs shmid m)) \<or> first_avail (seg_md rs shmid m) = end_avail (seg_md rs shmid m) \<Longrightarrow>
   (\<forall>r \<in> set blks. 16 dvd bstart r) \<and> list_all2 (\<lambda>n r. n \<noteq> 0 \<longrightarrow> 16 dvd blen r \<and> blen r < unat n + 16) ns blks"
proof (induction ns arbitrary: m blks)
  case (Cons n ns)
  obtain r t rs' where a: "seg_alloc rs spin shmid n m = (Some r, t)" "alloc_all (seg_alloc rs spin shmid) ns t = Some (rs', m')" "blks = r # rs'"
    using Cons.prems(3) by (auto split: option.splits prod.splits)
  then obtain p where al: "dthread_shmseg_alloc rs spin shmid n m = (Some (p, r), t)" by (auto simp: seg_alloc_def split: prod.splits)
  note sa = seg_alloc_some [OF Cons.prems(1) al]
  have "first_avail (seg_md rs shmid m) < end_avail (seg_md rs shmid m)"
    using al by (auto simp: dthread_shmseg_alloc_def Let_def split: if_splits)
  then have fa: "16 dvd bstart r" using Cons.prems(4) sa(2) by (auto simp: bstart_def)
  have len: "n \<noteq> 0 \<Longrightarrow> blen r = align_up (unat n)" using sa(8) Cons.prems(2) by simp
  have next_line: "16 dvd unat (first_avail (seg_md rs shmid t)) \<or> first_avail (seg_md rs shmid t) = end_avail (seg_md rs shmid t)"
  proof (cases "n = 0")
    case True
    then show ?thesis using al by (auto simp: dthread_shmseg_alloc_def Let_def align_pad_def split: if_splits)
  next
    case False
    then show ?thesis using fa len align_up_dvd [of "unat n"] sa(4) by (metis dvd_add)
  qed
  have "(\<forall>q \<in> set rs'. 16 dvd bstart q) \<and> list_all2 (\<lambda>n r. n \<noteq> 0 \<longrightarrow> 16 dvd blen r \<and> blen r < unat n + 16) ns rs'"
    by (rule Cons.IH [OF sa(6) _ a(2) next_line]) (use Cons.prems(2) in simp)
  then show ?case using a(3) fa len align_up_dvd [of "unat n"] align_up_props(2) [of "unat n"] by simp
qed simp


text \<open>
  C39. A request within 15 bytes of \<open>2 ^ 64\<close> is not refused: the padded size wraps to 0, which
  the code takes for the wish to get the rest of the segment.  The caller gets a block that
  is far smaller than the request, and the segment is used up.
\<close>

theorem seg_alloc_wraps:
  assumes "seg_ok rs shmid m" and "first_avail (seg_md rs shmid m) < end_avail (seg_md rs shmid m)"
    and "2 ^ 64 \<le> unat want + 15" and "unat (map_size (shmmap rs ! unat shmid)) + 15 < 2 ^ 64"
  shows "\<exists>r m'. seg_alloc rs 0 shmid want m = (Some r, m') \<and> blen r < unat want \<and>
           first_avail (seg_md rs shmid m') = end_avail (seg_md rs shmid m')"
proof -
  let ?md = "seg_md rs shmid m"
  have w: "18446744073709551601 \<le> unat want" using assms(3) by simp
  have up: "align_up (unat want) = 18446744073709551616"
  proof -
    have "18446744073709551601 \<le> unat want" "unat want \<le> 18446744073709551615" using w unat64_less(2) [of want] by linarith+
    then have "(unat want + 15) div 16 = 1152921504606846976" by (intro div_nat_eqI) simp_all
    then show ?thesis by (simp add: align_up_def)
  qed
  have pad: "unat (align_pad want) = 18446744073709551616 - unat want" using unat_align_pad(1) [of want] up by simp
  have "unat want + unat (align_pad want) = 18446744073709551616" using pad unat64_less(2) [of want] by linarith
  then have z: "want + align_pad want = 0" by (intro unat_eq_zero [THEN iffD1]) (simp add: unat_word_ariths)
  have e: "unat (end_avail ?md) < unat want" "first_avail ?md < map_size (shmmap rs ! unat shmid)"
    using assms w by (auto simp: seg_ok_def word_le_nat_alt word_less_nat_alt)
  have "unat (end_avail ?md - first_avail ?md) < unat want"
    using e(1) assms(2) by (simp add: unat_sub)
  then show ?thesis using assms(1,2) e(2) z
    by (auto simp: seg_alloc_def dthread_shmseg_alloc_def Let_def seg_ok_def blen_def not_le)
qed

subsection \<open>A segment\<close>

definition seg_ex :: shmem where
  "seg_ex = \<lparr>seg_mds = (\<lambda>_. \<lparr>seg_md_magic = DTHREAD_SEG_MD_MAGIC,
       seg_self = \<lparr>dt_shmid = 0, dt_offset = 0, dt_length = 0x100000\<rparr>, seg_srcflags = 0, umapaddr = 0,
       first_avail = 0x1000, end_avail = 0x100000\<rparr>),
     amds = (\<lambda>_. \<lparr>mdmagic = 0, md_self = \<lparr>dt_shmid = 0, dt_offset = 0, dt_length = 0\<rparr>, min_uoffset = 0,
       max_uoffset = 0, badalign_bits = 0, mopid = 0\<rparr>),
     brk_mds = (\<lambda>_. \<lparr>brk_allocated = 0, hdrlen = 0, nalloc = 0\<rparr>),
     bsd_mds = (\<lambda>_. \<lparr>oversize = 0, minbucket = 0, pagesz = 0, pagebucket = 0, nextf = [], nmalloc = [],
       mycore = 0, core_resid = 0\<rparr>),
     shm_bytes = (\<lambda>_ _. 0), da_src = \<lparr>dt_shmid = 0, dt_offset = 0, dt_length = 0\<rparr>\<rparr>"

lemma seg_ex_ok: "seg_ok shm_ex 0 seg_ex"
  by (simp add: seg_ok_def seg_ex_def shm_ex_def)


theorem seg_alloc_wraps_witness:
  "\<exists>r m'. seg_alloc shm_ex 0 0 0xfffffffffffffff8 seg_ex = (Some r, m') \<and> blen r < 0xfffffffffffffff8"
proof -
  have "first_avail (seg_md shm_ex 0 seg_ex) < end_avail (seg_md shm_ex 0 seg_ex)"
    by (simp add: seg_ex_def)
  from seg_alloc_wraps [OF seg_ex_ok this, of "0xfffffffffffffff8"] show ?thesis
    by (auto simp: shm_ex_def)
qed

end
