(* ===== verification/Dt_Break.thy ===== *)
theory Dt_Break
  imports Dt_Segops
begin

text \<open>
  The "break" malloc driver of \<^verbatim>\<open>dt_shmops.c\<close>: a line in the arena between allocated and
  unallocated memory.  Every block has a 16-byte header with two magic numbers and the
  size; memory comes back only when the last block is freed.  The driver implements the
  interface \<open>block_store\<close>.

  A pointer into the arena is dereferenced at the segment and the offset it was made
  from.  The caller always wants the reference of the new block (\<^verbatim>\<open>newref\<close> is not NULL), and the
  \<^verbatim>\<open>int\<close> that counts the blocks is unbounded (an arena would need 32 GB for it to overflow).
\<close>

unbundle bit_operations_syntax

subsection \<open>The driver\<close>

abbreviation "BREAK_BEFORE \<equiv> (0xbef01e12 :: u32)"
abbreviation "BREAK_AFTER \<equiv> (0xaf1e1345 :: u32)"

definition arena_loc :: "dthread_shmref_t \<Rightarrow> shmloc" where
  "arena_loc arena = (dt_shmid arena, dt_offset arena)"

definition mdalign_size :: "shmrs \<Rightarrow> dthread_shmref_t \<Rightarrow> u64 \<Rightarrow> u64" where
  "mdalign_size rs arena md_basesize =
     (let base = (case dthread_shmref2ptr rs (Some arena) 0 of None \<Rightarrow> 0 | Some p \<Rightarrow> p)
      in md_basesize + align_pad (base + md_basesize))"

definition break_init :: "shmrs \<Rightarrow> dthread_shmref_t \<Rightarrow> shmem \<Rightarrow> int \<times> shmem" where
  "break_init rs arena m =
     (let mdsize = mdalign_size rs arena sizeof_break_md
      in case dthread_shmref2ptr rs (Some arena) mdsize of
           None \<Rightarrow> (ENOMEM, m)
         | Some _ \<Rightarrow>
             let amd = amds m (arena_loc arena); h = 4 * 4; pad = h mod 16
             in (0, m\<lparr>amds := (amds m)(arena_loc arena :=
                        amd\<lparr>min_uoffset := dt_offset (md_self amd) + mdsize, badalign_bits := alignsz - 1\<rparr>),
                      brk_mds := (brk_mds m)(arena_loc arena :=
                        \<lparr>brk_allocated = mdsize, hdrlen = (if pad \<noteq> 0 then h + (16 - pad) else h), nalloc = 0\<rparr>)\<rparr>))"

text \<open>The result of finalization, after the number of allocations was logged.\<close>

definition break_finalize :: "dthread_shmref_t \<Rightarrow> shmem \<Rightarrow> int" where
  "break_finalize arena m = 0"

definition wr_hdr :: "nat \<Rightarrow> u64 \<Rightarrow> bytes \<Rightarrow> bytes" where
  "wr_hdr a sz mem =
     wr32 (a + 12) BREAK_AFTER (wr32 (a + 8) (ucast (sz AND 0xffffffff))
       (wr32 (a + 4) (ucast (drop_bit 32 sz)) (wr32 a BREAK_BEFORE mem)))"

definition hdr_ok :: "bytes \<Rightarrow> nat \<Rightarrow> bool" where
  "hdr_ok mem a \<longleftrightarrow> rd32 mem a = BREAK_BEFORE \<and> rd32 mem (a + 12) = BREAK_AFTER"

definition hdr_size :: "bytes \<Rightarrow> nat \<Rightarrow> u64" where
  "hdr_size mem a = push_bit 32 (ucast (rd32 mem (a + 4))) OR ucast (rd32 mem (a + 8))"

definition upd_bytes :: "u64 \<Rightarrow> (bytes \<Rightarrow> bytes) \<Rightarrow> shmem \<Rightarrow> shmem" where
  "upd_bytes shmid f m = m\<lparr>shm_bytes := (shm_bytes m)(shmid := f (shm_bytes m shmid))\<rparr>"

definition break_malloc ::
    "shmrs \<Rightarrow> dthread_shmref_t \<Rightarrow> u64 \<Rightarrow> shmem \<Rightarrow> (u64 \<times> dthread_shmref_t) option \<times> shmem" where
  "break_malloc rs arena sz m =
     (let bmd = brk_mds m (arena_loc arena); amd = amds m (arena_loc arena);
          hlen = word_of_int (hdrlen bmd);
          total = sz + align_pad sz + hlen
      in if total \<le> dt_length (md_self amd) - brk_allocated bmd then
           (Some (mapping (shmmap rs ! unat (dt_shmid arena)) + dt_offset arena + brk_allocated bmd + hlen,
                  \<lparr>dt_shmid = dt_shmid arena, dt_offset = dt_offset arena + brk_allocated bmd + hlen, dt_length = sz\<rparr>),
            (upd_bytes (dt_shmid arena) (wr_hdr (unat (dt_offset arena + brk_allocated bmd)) sz) m)
              \<lparr>brk_mds := (brk_mds m)(arena_loc arena :=
                 bmd\<lparr>brk_allocated := brk_allocated bmd + total, nalloc := nalloc bmd + 1\<rparr>)\<rparr>)
         else (None, m))"

definition break_free :: "shmrs \<Rightarrow> dthread_shmref_t \<Rightarrow> dthread_shmref_t \<Rightarrow> shmem \<Rightarrow> shmem res" where
  "break_free rs arena ref m =
     (let bmd = brk_mds m (arena_loc arena); amd = amds m (arena_loc arena); hlen = word_of_int (hdrlen bmd)
      in if dt_offset ref < min_uoffset amd + hlen then Inr m
         else case dthread_shmref2ptr rs (Some ref) 0 of
                None \<Rightarrow> Inl Null_deref
              | Some ptr \<Rightarrow>
                  let h = unat (dt_offset ref - hlen)
                  in if \<not> hdr_ok (shm_bytes m (dt_shmid ref)) h then Inr m
                     else let n = (if nalloc bmd > 0 then nalloc bmd - 1 else nalloc bmd);
                              a = (if n = 0 then min_uoffset amd - dt_offset (md_self amd) else brk_allocated bmd)
                          in Inr ((upd_bytes (dt_shmid ref) (wr32 h 0xdeaddead) m)
                                    \<lparr>brk_mds := (brk_mds m)(arena_loc arena := bmd\<lparr>brk_allocated := a, nalloc := n\<rparr>)\<rparr>))"

definition break_realloc ::
    "shmrs \<Rightarrow> dthread_shmref_t \<Rightarrow> dthread_shmref_t \<Rightarrow> u64 \<Rightarrow> shmem \<Rightarrow>
     ((u64 \<times> dthread_shmref_t) option \<times> shmem) res" where
  "break_realloc rs arena inref new_size m =
     (let bmd = brk_mds m (arena_loc arena); amd = amds m (arena_loc arena); hlen = word_of_int (hdrlen bmd)
      in if dt_offset inref < min_uoffset amd + hlen then Inr (None, m)
         else case dthread_shmref2ptr rs (Some inref) 0 of
                None \<Rightarrow> Inl Null_deref
              | Some ptr \<Rightarrow>
                  let h = unat (dt_offset inref - hlen); mem = shm_bytes m (dt_shmid inref)
                  in if \<not> hdr_ok mem h then Inr (None, m)
                     else if new_size \<le> hdr_size mem h then
                       Inr (Some (ptr, \<lparr>dt_shmid = dt_shmid arena,
                              dt_offset = ptr - mapping (shmmap rs ! unat (dt_shmid arena)), dt_length = new_size\<rparr>), m)
                     else case break_malloc rs arena new_size m of
                            (None, m) \<Rightarrow> Inr (None, m)
                          | (Some (newptr, newref), m) \<Rightarrow>
                              let src = get_bytes (unat (dt_offset inref)) (unat (hdr_size mem h)) (shm_bytes m (dt_shmid inref));
                                  m = upd_bytes (dt_shmid newref) (put_bytes (unat (dt_offset newref)) src) m
                              in rbind (break_free rs arena inref m) (\<lambda>m. Inr (Some (newptr, newref), m)))"

subsection \<open>Headers\<close>

lemma get_wr_hdr_apart: "apart b n a 16 \<Longrightarrow> get_bytes b n (wr_hdr a sz mem) = get_bytes b n mem"
  unfolding wr_hdr_def
  by (subst get_wr_apart, rule apart_sub2 [of b n a 16], simp_all)+

lemma rd32_wr_hdr:
  "rd32 (wr_hdr a sz mem) a = BREAK_BEFORE" "rd32 (wr_hdr a sz mem) (a + 12) = BREAK_AFTER"
  "rd32 (wr_hdr a sz mem) (a + 4) = ucast (drop_bit 32 sz)"
  "rd32 (wr_hdr a sz mem) (a + 8) = ucast (sz AND 0xffffffff)"
  by (simp_all add: wr_hdr_def rd_wr_apart apart_def)

lemma hdr_wr_hdr [simp]: "hdr_ok (wr_hdr a sz mem) a" "hdr_size (wr_hdr a sz mem) a = sz"
proof -
  show "hdr_ok (wr_hdr a sz mem) a" by (simp add: hdr_ok_def rd32_wr_hdr)
  have low: "sz AND 0xffffffff = take_bit 32 sz" by (simp add: take_bit_eq_mask mask_eq_exp_minus_1)
  have hi: "bit (ucast (ucast (drop_bit 32 sz) :: u32) :: u64) k \<longleftrightarrow> k < 32 \<and> bit sz (32 + k)" for k
    by (auto simp: bit_ucast_iff bit_drop_bit_eq dest: bit_imp_le_length)
  have lo: "bit (ucast (ucast (take_bit 32 sz) :: u32) :: u64) k \<longleftrightarrow> k < 32 \<and> bit sz k" for k
    by (auto simp: bit_ucast_iff bit_take_bit_iff dest: bit_imp_le_length)
  show "hdr_size (wr_hdr a sz mem) a = sz"
    unfolding hdr_size_def rd32_wr_hdr low
  proof (rule bit_word_eqI)
    fix n assume "n < LENGTH(64)"
    then show "bit (push_bit 32 (ucast (ucast (drop_bit 32 sz) :: u32)) OR ucast (ucast (take_bit 32 sz) :: u32) :: u64) n = bit sz n"
      unfolding bit_or_iff bit_push_bit_iff hi lo by (cases "n < 32") auto
  qed
qed

lemma hdr_cong:
  assumes "get_bytes a 16 m = get_bytes a 16 m'"
  shows "hdr_ok m a = hdr_ok m' a" "hdr_size m a = hdr_size m' a"
proof -
  have "m i = m' i" if "a \<le> i" "i < a + 16" for i
    using assms that nth_map [of "i - a" "[a..<a + 16]"] unfolding get_bytes_def by (metis (no_types, lifting)
      atLeastLessThan_iff map_eq_conv set_upt)
  then have "rd32 m b = rd32 m' b" if "a \<le> b" "b + 4 \<le> a + 16" for b
    using that by (intro rd_get_bytes_cong(1)) (auto simp: get_bytes_def)
  then have "rd32 m a = rd32 m' a" "rd32 m (a + 4) = rd32 m' (a + 4)" "rd32 m (a + 8) = rd32 m' (a + 8)"
    "rd32 m (a + 12) = rd32 m' (a + 12)" by simp_all
  then show "hdr_ok m a = hdr_ok m' a" "hdr_size m a = hdr_size m' a" by (simp_all add: hdr_ok_def hdr_size_def)
qed

subsection \<open>The invariant of an arena\<close>

abbreviation arena_map :: "shmrs \<Rightarrow> dthread_shmref_t \<Rightarrow> dthread_shmmap_t" where
  "arena_map rs arena \<equiv> shmmap rs ! unat (dt_shmid arena)"

definition arena_ok :: "shmrs \<Rightarrow> dthread_shmref_t \<Rightarrow> dthread_shm_alloc_md_t \<Rightarrow> bool" where
  "arena_ok rs arena amd \<longleftrightarrow> unat (dt_shmid arena) < nshmsrc rs \<and> md_self amd = arena \<and>
     bstart arena + blen arena \<le> unat (map_size (arena_map rs arena)) \<and> bstart arena \<le> unat (min_uoffset amd)"

text \<open>A block with its header and its padding, as long as the header says it is.\<close>

definition brk_region :: "bytes \<Rightarrow> dthread_shmref_t \<Rightarrow> nat" where
  "brk_region mem r = 16 + align_up (unat (hdr_size mem (bstart r - 16)))"

definition brk_block :: "shmrs \<Rightarrow> dthread_shmref_t \<Rightarrow> dthread_shm_alloc_md_t \<Rightarrow> nat \<Rightarrow> bytes \<Rightarrow> dthread_shmref_t \<Rightarrow> bool" where
  "brk_block rs arena amd lim mem r \<longleftrightarrow>
     dt_shmid r = dt_shmid arena \<and> unat (min_uoffset amd) + 16 \<le> bstart r \<and>
     hdr_ok mem (bstart r - 16) \<and> 0 < unat (hdr_size mem (bstart r - 16)) \<and>
     blen r \<le> unat (hdr_size mem (bstart r - 16)) \<and> bstart r - 16 + brk_region mem r \<le> lim \<and>
     16 dvd unat (mapping (arena_map rs arena)) + bstart r"

definition brk_core ::
    "shmrs \<Rightarrow> dthread_shmref_t \<Rightarrow> dthread_shm_alloc_md_t \<Rightarrow> break_malloc_md \<Rightarrow> bytes \<Rightarrow> dthread_shmref_t set \<Rightarrow> bool" where
  "brk_core rs arena amd bmd mem L \<longleftrightarrow>
     arena_ok rs arena amd \<and> bstart arena + unat sizeof_break_md \<le> unat (min_uoffset amd) \<and> hdrlen bmd = 16 \<and> finite L \<and> nalloc bmd = int (card L) \<and>
     unat (min_uoffset amd) \<le> bstart arena + unat (brk_allocated bmd) \<and> unat (brk_allocated bmd) \<le> blen arena \<and>
     16 dvd unat (mapping (arena_map rs arena)) + unat (min_uoffset amd) \<and>
     16 dvd unat (mapping (arena_map rs arena)) + bstart arena + unat (brk_allocated bmd) \<and>
     (\<forall>r \<in> L. brk_block rs arena amd (bstart arena + unat (brk_allocated bmd)) mem r) \<and>
     (\<forall>q \<in> L. \<forall>r \<in> L. q \<noteq> r \<longrightarrow> apart (bstart q - 16) (brk_region mem q) (bstart r - 16) (brk_region mem r))"

definition brk_inv :: "shmrs \<Rightarrow> dthread_shmref_t \<Rightarrow> dthread_shmref_t set \<Rightarrow> shmem \<Rightarrow> bool" where
  "brk_inv rs arena L m =
     brk_core rs arena (amds m (arena_loc arena)) (brk_mds m (arena_loc arena)) (shm_bytes m (dt_shmid arena)) L"

text \<open>
  The sizes the driver is right for: not 0 (the header of an empty block fits into the last
  16 bytes of the arena; the block then begins at the end of the arena, where the interface refuses to
  free it and, at the end of the segment, the reference does not resolve), and not within 31
  bytes of \<open>2 ^ 64\<close>, where the size with padding and header wraps.
\<close>

definition brk_fits :: "u64 \<Rightarrow> bool" where
  "brk_fits n \<longleftrightarrow> 0 < unat n \<and> unat n + 31 < 2 ^ 64"

lemma brk_core_mem:
  assumes "\<And>r. r \<in> L \<Longrightarrow> get_bytes (bstart r - 16) 16 mem' = get_bytes (bstart r - 16) 16 mem"
  shows "brk_core rs arena amd bmd mem' L = brk_core rs arena amd bmd mem L"
proof -
  have h: "hdr_ok mem' (bstart r - 16) = hdr_ok mem (bstart r - 16)"
      "hdr_size mem' (bstart r - 16) = hdr_size mem (bstart r - 16)" if "r \<in> L" for r
    using hdr_cong assms [OF that] by blast+
  have "brk_region mem' r = brk_region mem r" if "r \<in> L" for r using h that by (simp add: brk_region_def)
  then show ?thesis using h by (auto simp: brk_core_def brk_block_def)
qed

lemma brk_region_apart:
  assumes "brk_core rs arena amd bmd mem L" "q \<in> L" "r \<in> L" "q \<noteq> r"
  shows "apart (bstart q - 16) (brk_region mem q) (bstart r - 16) (brk_region mem r)"
  using assms by (simp add: brk_core_def)

text \<open>The bytes of a block are in its region, behind the header.\<close>

lemma brk_block_in_region:
  assumes "brk_core rs arena amd bmd mem L" "r \<in> L"
  shows "16 \<le> bstart r" "bstart r + blen r \<le> bstart r - 16 + brk_region mem r" "16 \<le> brk_region mem r"
proof -
  have b: "brk_block rs arena amd (bstart arena + unat (brk_allocated bmd)) mem r"
    using assms by (simp add: brk_core_def)
  then show "16 \<le> bstart r" "16 \<le> brk_region mem r" by (simp_all add: brk_block_def brk_region_def)
  with b show "bstart r + blen r \<le> bstart r - 16 + brk_region mem r"
    using align_up_props(1) [of "unat (hdr_size mem (bstart r - 16))"]
    by (simp add: brk_block_def brk_region_def)
qed

lemma brk_block_bounds:
  assumes "brk_core rs arena amd bmd mem L" "r \<in> L"
  shows "bstart arena + unat sizeof_break_md \<le> bstart r" "bstart r + blen r \<le> bstart arena + blen arena"
    "16 dvd unat (mapping (arena_map rs arena)) + bstart r"
proof -
  have b: "brk_block rs arena amd (bstart arena + unat (brk_allocated bmd)) mem r"
    "bstart arena + unat sizeof_break_md \<le> unat (min_uoffset amd)" "unat (brk_allocated bmd) \<le> blen arena"
    using assms by (simp_all add: brk_core_def)
  then show "bstart arena + unat sizeof_break_md \<le> bstart r" "16 dvd unat (mapping (arena_map rs arena)) + bstart r"
    by (simp_all add: brk_block_def)
  have "bstart r - 16 + brk_region mem r \<le> bstart arena + unat (brk_allocated bmd)" using b(1) unfolding brk_block_def by blast
  with b(3) brk_block_in_region(2) [OF assms] show "bstart r + blen r \<le> bstart arena + blen arena" by linarith
qed

lemma brk_blocks_apart:
  assumes "brk_core rs arena amd bmd mem L" "q \<in> L" "r \<in> L" "q \<noteq> r"
  shows "blocks_apart q r" "apart (bstart q) (blen q) (bstart r - 16) 16" "apart (bstart q - 16) 16 (bstart r) (blen r)"
    "apart (bstart q - 16) 16 (bstart r - 16) 16"
  using brk_region_apart [OF assms] brk_block_in_region [OF assms(1,2)] brk_block_in_region [OF assms(1,3)]
  by (auto simp: apart_def blocks_apart_def)

text \<open>A block does not overlap its own header.\<close>

lemma brk_own_header:
  "brk_core rs arena amd bmd mem L \<Longrightarrow> r \<in> L \<Longrightarrow> apart (bstart r - 16) 16 (bstart r) (blen r)"
  using brk_block_in_region(1) [of rs arena amd bmd mem L r] by (simp add: apart_def)

subsection \<open>Allocation\<close>

lemma break_malloc_some:
  assumes "brk_inv rs arena L m" "brk_fits n" "break_malloc rs arena n m = (Some (p, r), m')"
  defines "bmd \<equiv> brk_mds m (arena_loc arena)" and "bmd' \<equiv> brk_mds m' (arena_loc arena)"
  shows "dt_shmid r = dt_shmid arena" "blen r = unat n" "bstart r = bstart arena + unat (brk_allocated bmd) + 16"
    "p = mapping (arena_map rs arena) + dt_offset r"
    "amds m' = amds m" "hdrlen bmd' = 16" "nalloc bmd' = nalloc bmd + 1"
    "unat (brk_allocated bmd') = unat (brk_allocated bmd) + align_up (unat n) + 16"
    "unat (brk_allocated bmd') \<le> blen arena"
    "shm_bytes m' = (shm_bytes m)(dt_shmid arena := wr_hdr (bstart r - 16) n (shm_bytes m (dt_shmid arena)))"
proof -
  let ?amd = "amds m (arena_loc arena)"
  define tot where "tot = n + align_pad n + 16"
  have core: "brk_core rs arena ?amd bmd (shm_bytes m (dt_shmid arena)) L"
    using assms(1) by (simp add: brk_inv_def bmd_def)
  then have self: "md_self ?amd = arena" and h: "hdrlen bmd = 16" and al: "unat (brk_allocated bmd) \<le> blen arena"
    by (simp_all add: brk_core_def arena_ok_def)
  have c: "tot \<le> dt_length arena - brk_allocated bmd"
      "r = \<lparr>dt_shmid = dt_shmid arena, dt_offset = dt_offset arena + brk_allocated bmd + 16, dt_length = n\<rparr>"
      "p = mapping (arena_map rs arena) + dt_offset arena + brk_allocated bmd + 16"
      "m' = (upd_bytes (dt_shmid arena) (wr_hdr (unat (dt_offset arena + brk_allocated bmd)) n) m)
              \<lparr>brk_mds := (brk_mds m)(arena_loc arena :=
                 bmd\<lparr>brk_allocated := brk_allocated bmd + tot, nalloc := nalloc bmd + 1\<rparr>)\<rparr>"
    using assms(3) self h by (auto simp: break_malloc_def Let_def bmd_def tot_def split: if_splits)
  have up: "unat (n + align_pad n) = align_up (unat n)" using unat_padded assms(2) by (simp add: brk_fits_def)
  have "align_up (unat n) + 16 < 2 ^ 64" using align_up_props(2) [of "unat n"] assms(2) by (simp add: brk_fits_def)
  then have t: "unat tot = align_up (unat n) + 16" unfolding tot_def using up by (simp add: unat_add_no_overflow)
  have fit: "unat (brk_allocated bmd) + unat tot \<le> blen arena"
    using c(1) al by (simp add: word_le_nat_alt unat_sub blen_def)
  have ar: "bstart arena + blen arena \<le> unat (map_size (arena_map rs arena))"
    using core by (simp add: brk_core_def arena_ok_def)
  have a1: "unat (dt_offset arena + brk_allocated bmd) = bstart arena + unat (brk_allocated bmd)"
    unfolding bstart_def
    by (rule unat_add_bounded [of _ _ "map_size (arena_map rs arena)"]) (use ar al in \<open>simp add: bstart_def\<close>)
  have a2: "unat (dt_offset arena + brk_allocated bmd + 16) = bstart arena + unat (brk_allocated bmd) + 16"
    using unat_add_bounded [of "dt_offset arena + brk_allocated bmd" 16 "map_size (arena_map rs arena)"] a1 ar fit t by simp
  have a3: "unat (brk_allocated bmd + tot) = unat (brk_allocated bmd) + unat tot"
    by (rule unat_add_bounded [of _ _ "dt_length arena"]) (use fit in \<open>simp add: blen_def\<close>)
  show "dt_shmid r = dt_shmid arena" "blen r = unat n" "bstart r = bstart arena + unat (brk_allocated bmd) + 16"
      "p = mapping (arena_map rs arena) + dt_offset r"
    using c(2,3) a2 by (simp_all add: blen_def bstart_def add.assoc)
  then have "bstart r - 16 = unat (dt_offset arena + brk_allocated bmd)" using a1 by simp
  then show "amds m' = amds m" "hdrlen bmd' = 16" "nalloc bmd' = nalloc bmd + 1"
      "unat (brk_allocated bmd') = unat (brk_allocated bmd) + align_up (unat n) + 16"
      "unat (brk_allocated bmd') \<le> blen arena"
      "shm_bytes m' = (shm_bytes m)(dt_shmid arena := wr_hdr (bstart r - 16) n (shm_bytes m (dt_shmid arena)))"
    using c(4) h a3 t fit by (simp_all add: bmd'_def upd_bytes_def)
qed

lemma break_malloc_none: "break_malloc rs arena n m = (None, m') \<Longrightarrow> m' = m"
  by (auto simp: break_malloc_def Let_def split: if_splits)

text \<open>A new block lies behind all others, so writing its header touches none of them.\<close>

lemma brk_block_below:
  assumes "brk_core rs arena amd bmd mem L" "q \<in> L" "bstart arena + unat (brk_allocated bmd) \<le> a"
  shows "apart (bstart q - 16) (brk_region mem q) a k"
  using assms by (auto simp: brk_core_def brk_block_def apart_def)

lemma break_malloc_inv:
  assumes "brk_inv rs arena L m" "brk_fits n" "break_malloc rs arena n m = (Some (p, r), m')"
  shows "brk_inv rs arena (insert r L) m' \<and> r \<notin> L \<and>
    (\<forall>q \<in> L. block_bytes q (shm_bytes m' (dt_shmid arena)) = block_bytes q (shm_bytes m (dt_shmid arena)))"
proof -
  let ?amd = "amds m (arena_loc arena)" and ?bmd = "brk_mds m (arena_loc arena)" and ?bmd' = "brk_mds m' (arena_loc arena)"
  let ?mem = "shm_bytes m (dt_shmid arena)" and ?mem' = "shm_bytes m' (dt_shmid arena)"
  note r = break_malloc_some [OF assms]
  have core: "brk_core rs arena ?amd ?bmd ?mem L" using assms(1) by (simp add: brk_inv_def)
  have mem': "?mem' = wr_hdr (bstart r - 16) n ?mem" using r(10) by simp
  have below: "apart (bstart q - 16) (brk_region ?mem q) (bstart r - 16) k" if "q \<in> L" for q k
    using brk_block_below [OF core that] r(3) by simp
  have keep: "get_bytes (bstart q - 16) 16 ?mem' = get_bytes (bstart q - 16) 16 ?mem"
      "block_bytes q ?mem' = block_bytes q ?mem" if "q \<in> L" for q
  proof -
    have a: "apart (bstart q - 16) 16 (bstart r - 16) 16" "apart (bstart q) (blen q) (bstart r - 16) 16"
      using apart_sub [OF below [OF that]] brk_block_in_region [OF core that] by simp_all
    then show "get_bytes (bstart q - 16) 16 ?mem' = get_bytes (bstart q - 16) 16 ?mem"
        "block_bytes q ?mem' = block_bytes q ?mem"
      unfolding mem' block_bytes_def by (simp_all add: get_wr_hdr_apart)
  qed
  have core': "brk_core rs arena ?amd ?bmd ?mem' L" using brk_core_mem [of L ?mem' ?mem] keep(1) core by simp
  have nl: "r \<notin> L"
  proof
    assume "r \<in> L"
    then show False using below [of r 1] by (simp add: apart_def brk_region_def)
  qed
  have reg: "brk_region ?mem' q = brk_region ?mem q" if "q \<in> L" for q
    using hdr_cong(2) [OF keep(1) [OF that]] by (simp add: brk_region_def)
  have rr: "brk_region ?mem' r = 16 + align_up (unat n)" "hdr_ok ?mem' (bstart r - 16)"
      "hdr_size ?mem' (bstart r - 16) = n"
    by (simp_all add: mem' brk_region_def)
  have dvd: "16 dvd unat (mapping (arena_map rs arena)) + bstart arena + unat (brk_allocated ?bmd)"
    using core by (simp add: brk_core_def)
  have blk: "brk_block rs arena ?amd (bstart arena + unat (brk_allocated ?bmd')) ?mem' r"
  proof -
    have "unat (mapping (arena_map rs arena)) + bstart r =
        unat (mapping (arena_map rs arena)) + bstart arena + unat (brk_allocated ?bmd) + 16" using r(3) by simp
    then have "16 dvd unat (mapping (arena_map rs arena)) + bstart r" using dvd by (metis dvd_add dvd_refl)
    moreover have "unat (min_uoffset ?amd) \<le> bstart arena + unat (brk_allocated ?bmd)" using core by (simp add: brk_core_def)
    ultimately show ?thesis using rr r(1,2,3,8) assms(2) by (simp add: brk_block_def brk_fits_def)
  qed
  have old: "brk_block rs arena ?amd (bstart arena + unat (brk_allocated ?bmd')) ?mem' q" if "q \<in> L" for q
    using core' that r(8) by (auto simp: brk_core_def brk_block_def)
  have "unat (mapping (arena_map rs arena)) + bstart arena + unat (brk_allocated ?bmd') =
      unat (mapping (arena_map rs arena)) + bstart arena + unat (brk_allocated ?bmd) + (align_up (unat n) + 16)"
    using r(8) by simp
  then have dvd': "16 dvd unat (mapping (arena_map rs arena)) + bstart arena + unat (brk_allocated ?bmd')"
    using dvd align_up_dvd by (metis dvd_add dvd_refl)
  have "apart (bstart q - 16) (brk_region ?mem' q) (bstart r - 16) (brk_region ?mem' r)" if "q \<in> L" for q
    using below [OF that] reg [OF that] by simp
  moreover have "apart (bstart r - 16) (brk_region ?mem' r) (bstart q - 16) (brk_region ?mem' q)" if "q \<in> L" for q
    using below [OF that] reg [OF that] apart_sym by simp
  ultimately have "brk_core rs arena ?amd ?bmd' ?mem' (insert r L)"
    using core' blk old dvd' nl r(6-9) by (auto simp: brk_core_def)
  then show ?thesis using nl keep(2) r(5) by (simp add: brk_inv_def)
qed

subsection \<open>Release\<close>

lemma brk_shmref2ptr:
  assumes "brk_core rs arena amd bmd mem L" "r \<in> L"
  shows "dthread_shmref2ptr rs (Some r) 0 = Some (mapping (arena_map rs arena) + dt_offset r)"
    "unat (dt_offset r - 16) = bstart r - 16" "\<not> dt_offset r < min_uoffset amd + 16"
proof -
  let ?sz = "unat (hdr_size mem (bstart r - 16))"
  have b: "brk_block rs arena amd (bstart arena + unat (brk_allocated bmd)) mem r" and ok: "arena_ok rs arena amd"
      and al: "unat (brk_allocated bmd) \<le> blen arena"
    using assms by (simp_all add: brk_core_def)
  have "0 < ?sz" "blen r \<le> ?sz" "?sz \<le> align_up ?sz" using b align_up_props(1) by (simp_all add: brk_block_def)
  then have e: "bstart r < unat (map_size (arena_map rs arena))" "bstart r + blen r \<le> unat (map_size (arena_map rs arena))"
    using b ok al brk_block_in_region(1) [OF assms] by (simp_all add: brk_block_def arena_ok_def brk_region_def)
  then have "dt_offset r < map_size (arena_map rs arena)" "dt_length r \<le> map_size (arena_map rs arena) - dt_offset r"
    by (simp_all add: word_less_nat_alt word_le_nat_alt unat_sub bstart_def blen_def)
  moreover have "dt_shmid r = dt_shmid arena" "unat (dt_shmid arena) < nshmsrc rs"
    using b ok by (simp_all add: brk_block_def arena_ok_def)
  ultimately show "dthread_shmref2ptr rs (Some r) 0 = Some (mapping (arena_map rs arena) + dt_offset r)"
    by (simp add: dthread_shmref2ptr_def Let_def not_less not_le)
  have lo: "unat (min_uoffset amd) + 16 \<le> bstart r" using b by (simp add: brk_block_def)
  then show "unat (dt_offset r - 16) = bstart r - 16" by (simp add: unat_sub bstart_def word_le_nat_alt)
  have "unat (min_uoffset amd + 16) = unat (min_uoffset amd) + 16"
    using unat_add_bounded [of "min_uoffset amd" 16 "dt_offset r"] lo by (simp add: bstart_def)
  then show "\<not> dt_offset r < min_uoffset amd + 16" using lo by (simp add: word_less_nat_alt bstart_def)
qed

lemma brk_core_remove:
  assumes "brk_core rs arena amd bmd mem L" "r \<in> L" "nalloc bmd' = nalloc bmd - 1" "hdrlen bmd' = 16"
    "brk_allocated bmd' = (if L = {r} then min_uoffset amd - dt_offset arena else brk_allocated bmd)"
  shows "brk_core rs arena amd bmd' mem (L - {r})"
proof (cases "L = {r}")
  case True
  have "dt_offset arena \<le> min_uoffset amd" using assms(1) by (simp add: brk_core_def arena_ok_def word_le_nat_alt bstart_def)
  then have "unat (brk_allocated bmd') = unat (min_uoffset amd) - bstart arena"
    using True assms(5) by (simp add: unat_sub bstart_def)
  moreover have "bstart arena \<le> unat (min_uoffset amd)" using assms(1) by (simp add: brk_core_def arena_ok_def)
  ultimately have "bstart arena + unat (brk_allocated bmd') = unat (min_uoffset amd)" by simp
  then show ?thesis using assms True by (simp add: brk_core_def add.assoc)
next
  case False
  have fin: "finite L" using assms(1) by (simp add: brk_core_def)
  note int_card_remove [OF fin assms(2)]
  moreover have "brk_allocated bmd' = brk_allocated bmd" using False assms(5) by simp
  ultimately show ?thesis using assms(1-4) unfolding brk_core_def by auto
qed

lemma break_free_inv:
  assumes "brk_inv rs arena L m" "r \<in> L"
  shows "\<exists>m'. break_free rs arena r m = Inr m' \<and> brk_inv rs arena (L - {r}) m' \<and>
    (\<forall>q \<in> L - {r}. block_bytes q (shm_bytes m' (dt_shmid arena)) = block_bytes q (shm_bytes m (dt_shmid arena))) \<and>
    (\<forall>q \<in> L - {r}. get_bytes (bstart q - 16) 16 (shm_bytes m' (dt_shmid arena)) =
       get_bytes (bstart q - 16) 16 (shm_bytes m (dt_shmid arena)))"
proof -
  let ?amd = "amds m (arena_loc arena)" and ?bmd = "brk_mds m (arena_loc arena)" and ?mem = "shm_bytes m (dt_shmid arena)"
  have core: "brk_core rs arena ?amd ?bmd ?mem L" using assms(1) by (simp add: brk_inv_def)
  note p = brk_shmref2ptr [OF core assms(2)]
  have b: "dt_shmid r = dt_shmid arena" "hdr_ok ?mem (bstart r - 16)" "md_self ?amd = arena" "hdrlen ?bmd = 16"
      "nalloc ?bmd = int (card L)" "finite L"
    using core assms(2) by (simp_all add: brk_core_def brk_block_def arena_ok_def)
  have c: "0 < card L" using assms(2) b(6) by (auto simp: card_gt_0_iff)
  have one: "int (card L) - 1 = 0 \<longleftrightarrow> L = {r}" using assms(2) by (auto simp: card_1_singleton_iff)
  define bmd' where "bmd' = ?bmd\<lparr>brk_allocated := (if int (card L) - 1 = 0 then min_uoffset ?amd - dt_offset arena else brk_allocated ?bmd),
      nalloc := int (card L) - 1\<rparr>"
  define m' where "m' = (upd_bytes (dt_shmid arena) (wr32 (bstart r - 16) 0xdeaddead) m)\<lparr>brk_mds := (brk_mds m)(arena_loc arena := bmd')\<rparr>"
  have run: "break_free rs arena r m = Inr m'"
    using p b c by (simp add: break_free_def Let_def m'_def bmd'_def)
  have mem': "shm_bytes m' (dt_shmid arena) = wr32 (bstart r - 16) 0xdeaddead ?mem" by (simp add: m'_def upd_bytes_def)
  have ap: "apart (bstart q) (blen q) (bstart r - 16) 4" "apart (bstart q - 16) 16 (bstart r - 16) 4" if "q \<in> L - {r}" for q
    using apart_sub2 [OF brk_blocks_apart(2) [OF core]] apart_sub2 [OF brk_blocks_apart(4) [OF core]] that assms(2) by auto
  have keep: "block_bytes q (shm_bytes m' (dt_shmid arena)) = block_bytes q ?mem"
      "get_bytes (bstart q - 16) 16 (shm_bytes m' (dt_shmid arena)) = get_bytes (bstart q - 16) 16 ?mem" if "q \<in> L - {r}" for q
    using ap [OF that] unfolding mem' block_bytes_def by (simp_all add: get_wr_apart)
  have "brk_core rs arena ?amd bmd' ?mem (L - {r})"
    by (rule brk_core_remove [OF core assms(2)]) (use b one in \<open>simp_all add: bmd'_def\<close>)
  then have "brk_core rs arena ?amd bmd' (shm_bytes m' (dt_shmid arena)) (L - {r})"
    using brk_core_mem [of "L - {r}" "shm_bytes m' (dt_shmid arena)" ?mem] keep(2) by simp
  then have "brk_inv rs arena (L - {r}) m'" by (simp add: brk_inv_def m'_def upd_bytes_def)
  then show ?thesis using run keep by blast
qed

subsection \<open>The driver as a store of blocks\<close>

definition brk_alloc :: "shmrs \<Rightarrow> dthread_shmref_t \<Rightarrow> u64 \<Rightarrow> shmem \<Rightarrow> dthread_shmref_t option \<times> shmem" where
  "brk_alloc rs arena n m = (let (p, m') = break_malloc rs arena n m in (map_option snd p, m'))"

definition brk_release :: "shmrs \<Rightarrow> dthread_shmref_t \<Rightarrow> dthread_shmref_t \<Rightarrow> shmem \<Rightarrow> shmem" where
  "brk_release rs arena r m = (case break_free rs arena r m of Inl _ \<Rightarrow> m | Inr m' \<Rightarrow> m')"

definition arena_bytes :: "dthread_shmref_t \<Rightarrow> shmem \<Rightarrow> bytes" where
  "arena_bytes arena m = shm_bytes m (dt_shmid arena)"

definition arena_put :: "dthread_shmref_t \<Rightarrow> nat \<Rightarrow> u8 list \<Rightarrow> shmem \<Rightarrow> shmem" where
  "arena_put arena a xs m = upd_bytes (dt_shmid arena) (put_bytes a xs) m"

lemma brk_put_inv:
  assumes "brk_inv rs arena L m" "r \<in> L" "length xs \<le> blen r"
  shows "brk_inv rs arena L (arena_put arena (bstart r) xs m)"
proof -
  let ?mem = "shm_bytes m (dt_shmid arena)"
  have core: "brk_core rs arena (amds m (arena_loc arena)) (brk_mds m (arena_loc arena)) ?mem L"
    using assms(1) by (simp add: brk_inv_def)
  have ap: "apart (bstart q - 16) 16 (bstart r) (blen r)" if "q \<in> L" for q
    using brk_blocks_apart(3) [OF core that assms(2)] brk_own_header [OF core assms(2)] by (cases "q = r") auto
  have "get_bytes (bstart q - 16) 16 (put_bytes (bstart r) xs ?mem) = get_bytes (bstart q - 16) 16 ?mem" if "q \<in> L" for q
    using apart_sub2 [OF ap [OF that], of "bstart r" "length xs"] assms(3) by (simp add: get_put_bytes_apart)
  then show ?thesis using brk_core_mem [of L "put_bytes (bstart r) xs ?mem" ?mem] core
    by (simp add: brk_inv_def arena_put_def upd_bytes_def)
qed

interpretation brk: block_store "brk_inv rs arena" "brk_alloc rs arena" brk_fits "brk_release rs arena"
  "arena_bytes arena" "arena_put arena"
  for rs arena
proof (unfold_locales, goal_cases)
  case (1 L m)
  then show ?case using brk_blocks_apart(1) unfolding all_apart_def brk_inv_def by blast
next
  case (2 L m n r m')
  then obtain p where a: "break_malloc rs arena n m = (Some (p, r), m')" by (auto simp: brk_alloc_def split: prod.splits)
  then show ?case using break_malloc_inv [OF 2(1,2) a] break_malloc_some(2) [OF 2(1,2) a] by simp
next
  case (3 L m n m')
  then have "break_malloc rs arena n m = (None, m')" by (auto simp: brk_alloc_def split: prod.splits)
  then show ?case using 3(1) break_malloc_none by blast
next
  case (4 L m n r m')
  then obtain p where a: "break_malloc rs arena n m = (Some (p, r), m')" by (auto simp: brk_alloc_def split: prod.splits)
  then show ?case using break_malloc_some(2) [OF 4(1,2) a] by simp
next
  case (5 L m n q)
  obtain a m' where r: "break_malloc rs arena n m = (a, m')" by fastforce
  show ?case
  proof (cases a)
    case None
    then have "m' = m" using break_malloc_none r by simp
    then show ?thesis using r by (simp add: brk_alloc_def)
  next
    case (Some pr)
    then obtain p r' where "break_malloc rs arena n m = (Some (p, r'), m')" using r by (cases pr) auto
    then show ?thesis using break_malloc_inv [OF 5(1,2)] 5(3) r by (simp add: brk_alloc_def arena_bytes_def)
  qed
next
  case (6 L m r)
  then show ?case using break_free_inv [OF 6] by (auto simp: brk_release_def)
next
  case (7 L m r q)
  then show ?case using break_free_inv [OF 7(1,2)] by (auto simp: brk_release_def arena_bytes_def)
next
  case (8 a xs m)
  then show ?case by (simp add: arena_bytes_def arena_put_def upd_bytes_def)
next
  case (9 L m r xs)
  then show ?case using brk_put_inv [OF 9(1,2)] by simp
qed

subsection \<open>Initialization\<close>

lemma mdalign_size_props:
  assumes "dthread_shmref2ptr rs (Some arena) mdsize = Some p" "maps_ok rs" "mdsize = mdalign_size rs arena base"
    "unat base + 16 < 2 ^ 63" "base \<noteq> 0"
  shows "unat base \<le> unat mdsize" "unat mdsize \<le> blen arena"
    "16 dvd unat (mapping (arena_map rs arena)) + bstart arena + unat mdsize"
proof -
  note a = shmref2ptr_SomeD [OF assms(1)]
  have p0: "dthread_shmref2ptr rs (Some arena) 0 = Some p"
    using assms(1) by (auto simp: dthread_shmref2ptr_def Let_def split: if_splits)
  then have md: "mdsize = base + align_pad (p + base)" using assms(3) by (simp add: mdalign_size_def)
  have "unat mdsize = unat base + unat (align_pad (p + base))"
    unfolding md using assms(4) unat_align_pad(2) [of "p + base"] by (intro unat_add_no_overflow) simp
  then show lo: "unat base \<le> unat mdsize" by simp
  have nz: "mdsize \<noteq> 0" using lo assms(5) by (auto simp: word_le_nat_alt [symmetric] unat_eq_zero)
  then show len: "unat mdsize \<le> blen arena" using a(4) by (auto simp: blen_def)
  have pu: "unat p = unat (mapping (arena_map rs arena)) + bstart arena" using a(6) [OF assms(2)] by (simp add: bstart_def)
  have "unat (mapping (arena_map rs arena)) + unat (map_size (arena_map rs arena)) < 2 ^ 64"
    using assms(2) a(1) by (simp add: maps_ok_def)
  then have lim: "unat p + unat mdsize < 2 ^ 64" using pu len a(3) by (simp add: bstart_def blen_def)
  have "unat (p + base) = unat p + unat base" using lim lo by (intro unat_add_no_overflow) simp
  then have "unat p + unat mdsize = align_up (unat (p + base))"
    using \<open>unat mdsize = unat base + unat (align_pad (p + base))\<close> unat_align_pad(1) [of "p + base"]
      align_up_props(1) [of "unat (p + base)"] by simp
  then show "16 dvd unat (mapping (arena_map rs arena)) + bstart arena + unat mdsize"
    using align_up_dvd [of "unat (p + base)"] pu by simp
qed

lemma break_init_inv:
  assumes "break_init rs arena m = (0, m')" "md_self (amds m (arena_loc arena)) = arena" "maps_ok rs"
  shows "brk_inv rs arena {} m'"
proof -
  define mdsize where "mdsize = mdalign_size rs arena sizeof_break_md"
  obtain p where p: "dthread_shmref2ptr rs (Some arena) mdsize = Some p"
    using assms(1) by (auto simp: break_init_def mdsize_def Let_def split: option.splits)
  note a = shmref2ptr_SomeD [OF p] and d = mdalign_size_props [OF p assms(3) mdsize_def]
  have m': "amds m' (arena_loc arena) = (amds m (arena_loc arena))\<lparr>min_uoffset := dt_offset arena + mdsize, badalign_bits := 15\<rparr>"
      "brk_mds m' (arena_loc arena) = \<lparr>brk_allocated = mdsize, hdrlen = 16, nalloc = 0\<rparr>"
    using assms(1,2) p by (auto simp: break_init_def mdsize_def [symmetric] Let_def)
  have u: "unat (dt_offset arena + mdsize) = bstart arena + unat mdsize"
    unfolding bstart_def
    by (rule unat_add_bounded [of _ _ "map_size (arena_map rs arena)"]) (use d(2) a(3) in \<open>simp add: blen_def\<close>)
  show ?thesis unfolding brk_inv_def brk_core_def m'
    using a(1,3) d u assms(2) by (simp add: arena_ok_def bstart_def blen_def add.assoc)
qed

subsection \<open>Reallocation\<close>

text \<open>A block that keeps its place and its header, with another length.\<close>

lemma brk_core_resize:
  assumes "brk_core rs arena amd bmd mem L" "r \<in> L" "dt_shmid r' = dt_shmid arena" "dt_offset r' = dt_offset r"
    "blen r' \<le> unat (hdr_size mem (bstart r - 16))"
  shows "brk_core rs arena amd bmd mem (insert r' (L - {r}))"
proof -
  have st: "bstart r' = bstart r" using assms(4) by (simp add: bstart_def)
  then have reg: "brk_region mem r' = brk_region mem r" by (simp add: brk_region_def)
  have new: "r' \<notin> L - {r}"
  proof
    assume "r' \<in> L - {r}"
    then have "apart (bstart r' - 16) (brk_region mem r') (bstart r - 16) (brk_region mem r)"
      using brk_region_apart [OF assms(1)] assms(2) by blast
    then show False using st reg by (simp add: apart_def brk_region_def)
  qed
  have fin: "finite L" using assms(1) by (simp add: brk_core_def)
  then have "card (insert r' (L - {r})) = card L" using new card_Suc_Diff1 [OF fin assms(2)] by simp
  moreover have "brk_block rs arena amd (bstart arena + unat (brk_allocated bmd)) mem r'"
    using assms st reg by (auto simp: brk_core_def brk_block_def)
  moreover have "apart (bstart q - 16) (brk_region mem q) (bstart r' - 16) (brk_region mem r')"
      "apart (bstart r' - 16) (brk_region mem r') (bstart q - 16) (brk_region mem q)" if "q \<in> L - {r}" for q
    using brk_region_apart [OF assms(1), of q r] brk_region_apart [OF assms(1), of r q] that assms(2) st reg by auto
  ultimately show ?thesis using assms(1) unfolding brk_core_def by auto
qed

lemma break_realloc_grow:
  assumes "brk_inv rs arena L m" "r \<in> L" "brk_fits n" "break_malloc rs arena n m = (Some (p, r'), m\<^sub>1)"
    and "k = unat (hdr_size (shm_bytes m (dt_shmid arena)) (bstart r - 16))" "k < unat n"
  defines "m\<^sub>2 \<equiv> upd_bytes (dt_shmid arena) (put_bytes (bstart r') (get_bytes (bstart r) k (shm_bytes m\<^sub>1 (dt_shmid arena)))) m\<^sub>1"
  shows "\<exists>m'. break_free rs arena r m\<^sub>2 = Inr m' \<and> brk_inv rs arena (insert r' (L - {r})) m' \<and>
    take (blen r) (block_bytes r' (shm_bytes m' (dt_shmid arena))) = block_bytes r (shm_bytes m (dt_shmid arena)) \<and>
    (\<forall>q \<in> L - {r}. block_bytes q (shm_bytes m' (dt_shmid arena)) = block_bytes q (shm_bytes m (dt_shmid arena)))"
proof -
  let ?b = "\<lambda>t. shm_bytes t (dt_shmid arena)"
  let ?src = "get_bytes (bstart r) k (?b m\<^sub>1)"
  note al = break_malloc_inv [OF assms(1,3,4)] and new = break_malloc_some [OF assms(1,3,4)]
  have len: "length ?src \<le> blen r'" using new(2) assms(6) by simp
  have m2: "m\<^sub>2 = arena_put arena (bstart r') ?src m\<^sub>1" by (simp add: m\<^sub>2_def arena_put_def)
  have i2: "brk_inv rs arena (insert r' L) m\<^sub>2" unfolding m2 using al len by (intro brk_put_inv) simp_all
  obtain m' where f: "break_free rs arena r m\<^sub>2 = Inr m'" "brk_inv rs arena (insert r' L - {r}) m'"
      "\<forall>q \<in> insert r' L - {r}. block_bytes q (?b m') = block_bytes q (?b m\<^sub>2)"
    using break_free_inv [OF i2, of r] assms(2) by blast
  have ne: "r' \<noteq> r" using al assms(2) by blast
  then have set: "insert r' L - {r} = insert r' (L - {r})" by blast
  have b2: "?b m\<^sub>2 = put_bytes (bstart r') ?src (?b m\<^sub>1)" by (simp add: m\<^sub>2_def upd_bytes_def)
  have core: "brk_core rs arena (amds m (arena_loc arena)) (brk_mds m (arena_loc arena)) (?b m) L"
    using assms(1) by (simp add: brk_inv_def)
  then have "brk_block rs arena (amds m (arena_loc arena)) (bstart arena + unat (brk_allocated (brk_mds m (arena_loc arena)))) (?b m) r"
    using assms(2) by (simp add: brk_core_def)
  then have lr: "blen r \<le> k" using assms(5) by (simp add: brk_block_def)
  have "block_bytes q (?b m\<^sub>2) = block_bytes q (?b m)" if "q \<in> L - {r}" for q
  proof -
    have "blocks_apart q r'"
      using al that brk_blocks_apart(1) unfolding brk_inv_def by (metis Diff_iff insert_iff)
    then have "apart (bstart q) (blen q) (bstart r') (length ?src)"
      using len apart_sub2 [of "bstart q" "blen q" "bstart r'" "blen r'" "bstart r'" "length ?src"]
      by (simp add: blocks_apart_def)
    then show ?thesis using al that unfolding b2 block_bytes_def by (simp add: get_put_bytes_apart)
  qed
  then have others: "block_bytes q (?b m') = block_bytes q (?b m)" if "q \<in> L - {r}" for q using f(3) set that by simp
  have "take (blen r) (block_bytes r' (?b m')) = take (blen r) (block_bytes r' (?b m\<^sub>2))" using f(3) ne by simp
  also have "\<dots> = get_bytes (bstart r') (blen r) (?b m\<^sub>2)" using lr new(2) assms(6) by (simp add: block_bytes_def)
  also have "\<dots> = get_bytes (bstart r) (blen r) (?b m\<^sub>1)" unfolding b2 using lr by (simp add: take_get_put_bytes)
  also have "\<dots> = block_bytes r (?b m)" using al assms(2) by (simp add: block_bytes_def)
  finally show ?thesis using f(1,2) set others by auto
qed

lemma break_realloc_inv:
  assumes "brk_inv rs arena L m" and "r \<in> L" and "brk_fits n"
  shows "\<exists>res m'. break_realloc rs arena r n m = Inr (res, m') \<and>
    (case res of
       None \<Rightarrow> m' = m
     | Some (p, r') \<Rightarrow>
         p = mapping (arena_map rs arena) + dt_offset r' \<and> blen r' = unat n \<and> brk_inv rs arena (insert r' (L - {r})) m' \<and>
         take (blen r) (block_bytes r' (shm_bytes m' (dt_shmid arena))) =
           take (unat n) (block_bytes r (shm_bytes m (dt_shmid arena))) \<and>
         (\<forall>q \<in> L - {r}. block_bytes q (shm_bytes m' (dt_shmid arena)) = block_bytes q (shm_bytes m (dt_shmid arena))))"
proof -
  let ?mem = "shm_bytes m (dt_shmid arena)"
  let ?k = "hdr_size ?mem (bstart r - 16)"
  have core: "brk_core rs arena (amds m (arena_loc arena)) (brk_mds m (arena_loc arena)) ?mem L"
    using assms(1) by (simp add: brk_inv_def)
  note ptr = brk_shmref2ptr [OF core assms(2)]
  have b: "dt_shmid r = dt_shmid arena" "hdr_ok ?mem (bstart r - 16)" "hdrlen (brk_mds m (arena_loc arena)) = 16"
      "blen r \<le> unat ?k"
    using core assms(2) by (simp_all add: brk_core_def brk_block_def)
  note step = break_realloc_def Let_def b ptr
  show ?thesis
  proof (cases "n \<le> ?k")
    case True
    let ?r' = "\<lparr>dt_shmid = dt_shmid arena, dt_offset = dt_offset r, dt_length = n\<rparr>"
    have run: "break_realloc rs arena r n m = Inr (Some (mapping (arena_map rs arena) + dt_offset r, ?r'), m)"
      using True by (simp add: step)
    have "brk_core rs arena (amds m (arena_loc arena)) (brk_mds m (arena_loc arena)) ?mem (insert ?r' (L - {r}))"
      by (rule brk_core_resize [OF core assms(2)]) (use True in \<open>simp_all add: blen_def word_le_nat_alt\<close>)
    then show ?thesis unfolding run
      by (simp add: brk_inv_def blen_def block_bytes_def bstart_def min.commute)
  next
    case grow: False
    obtain res m\<^sub>1 where al: "break_malloc rs arena n m = (res, m\<^sub>1)" by fastforce
    show ?thesis
    proof (cases res)
      case None
      then show ?thesis using al grow break_malloc_none [of rs arena n m m\<^sub>1] by (simp add: step)
    next
      case (Some pr)
      then obtain p r' where al: "break_malloc rs arena n m = (Some (p, r'), m\<^sub>1)" using al by (cases pr) auto
      note new = break_malloc_some [OF assms(1,3) al]
      obtain m' where g: "break_free rs arena r (upd_bytes (dt_shmid arena) (put_bytes (bstart r')
          (get_bytes (bstart r) (unat ?k) (shm_bytes m\<^sub>1 (dt_shmid arena)))) m\<^sub>1) = Inr m'"
          "brk_inv rs arena (insert r' (L - {r})) m'"
          "take (blen r) (block_bytes r' (shm_bytes m' (dt_shmid arena))) = block_bytes r ?mem"
          "\<forall>q \<in> L - {r}. block_bytes q (shm_bytes m' (dt_shmid arena)) = block_bytes q ?mem"
        using break_realloc_grow [OF assms al refl] grow by (auto simp: word_le_nat_alt)
      have "break_realloc rs arena r n m = Inr (Some (p, r'), m')"
        using grow al g(1) new(1) by (simp add: step bstart_def [symmetric])
      moreover have "take (unat n) (block_bytes r ?mem) = block_bytes r ?mem"
        using grow b(4) by (simp add: block_bytes_def word_le_nat_alt)
      ultimately show ?thesis using g new(2,4) by simp
    qed
  qed
qed

subsection \<open>Properties\<close>

text \<open>
  C32. The break driver implements a store of blocks for requests of \<open>n\<close> bytes with
  \<open>0 < n < 2 ^ 64 - 31\<close>: after any sequence of allocations, writes and releases by its clients
  in a freshly initialized arena, the blocks in use do not overlap, are exactly as long as
  requested and hold exactly what was last written to them; each lies in the arena,
  behind the metadata, at an aligned address; and freeing it does not fault.
\<close>

theorem break_client_safe:
  assumes "break_init rs arena m = (0, s\<^sub>0)" and "md_self (amds m (arena_loc arena)) = arena" and "maps_ok rs"
    and "(client_step (brk_alloc rs arena) (brk_release rs arena) (arena_bytes arena) (arena_put arena) brk_fits)\<^sup>*\<^sup>*
           (Map.empty, s\<^sub>0) (A, s)"
  shows "all_apart (dom A) \<and>
    (\<forall>r xs. A r = Some xs \<longrightarrow> block_bytes r (shm_bytes s (dt_shmid arena)) = xs \<and> blen r = length xs \<and>
       bstart arena + unat sizeof_break_md \<le> bstart r \<and> bstart r + blen r \<le> bstart arena + blen arena \<and>
       16 dvd unat (mapping (arena_map rs arena)) + bstart r \<and> (\<exists>s'. break_free rs arena r s = Inr s'))"
proof -
  have i0: "brk_inv rs arena {} s\<^sub>0" by (rule break_init_inv [OF assms(1-3)])
  note v = brk.client_view [OF assms(4) i0]
  have core: "brk_core rs arena (amds s (arena_loc arena)) (brk_mds s (arena_loc arena)) (shm_bytes s (dt_shmid arena)) (dom A)"
    using v by (simp add: brk_inv_def)
  note brk_block_bounds [OF core]
  moreover have "\<exists>s'. break_free rs arena r s = Inr s'" if "r \<in> dom A" for r
    using break_free_inv [of rs arena "dom A" s r] v that by blast
  moreover have "block_bytes r (shm_bytes s (dt_shmid arena)) = xs \<and> blen r = length xs" if "A r = Some xs" for r xs
    using v that by (simp add: arena_bytes_def)
  ultimately show ?thesis using v by blast
qed

text \<open>
  C34. Growing or shrinking a block keeps its contents: \<^verbatim>\<open>break_realloc\<close> of a block in use to
  \<open>n\<close> bytes, \<open>0 < n < 2 ^ 64 - 31\<close>, never faults; if it succeeds, the new block has the requested length and begins with the old
  contents, the old block is no longer in use, and no other block changes.  If it fails,
  nothing changes at all.
\<close>

theorem break_realloc_keeps:
  assumes "brk_inv rs arena L m" and "r \<in> L" and "brk_fits n"
  shows "\<exists>res m'. break_realloc rs arena r n m = Inr (res, m') \<and>
    (case res of
       None \<Rightarrow> m' = m
     | Some (p, r') \<Rightarrow>
         p = mapping (arena_map rs arena) + dt_offset r' \<and> blen r' = unat n \<and> brk_inv rs arena (insert r' (L - {r})) m' \<and>
         take (blen r) (block_bytes r' (shm_bytes m' (dt_shmid arena))) =
           take (unat n) (block_bytes r (shm_bytes m (dt_shmid arena))) \<and>
         (\<forall>q \<in> L - {r}. block_bytes q (shm_bytes m' (dt_shmid arena)) = block_bytes q (shm_bytes m (dt_shmid arena))))"
  by (rule break_realloc_inv [OF assms])

text \<open>
  C40. A request within 31 bytes of \<open>2 ^ 64\<close> is not refused: the size with padding and header
  wraps to 0 or 16, so any arena with 16 bytes left "allocates" it.  The reference that is
  returned claims more bytes than the arena has.
\<close>

theorem break_malloc_wraps:
  assumes "brk_inv rs arena L m" and "2 ^ 64 \<le> unat n + 31"
    and "unat (brk_allocated (brk_mds m (arena_loc arena))) + 16 \<le> blen arena" and "blen arena + 31 < 2 ^ 64"
  shows "\<exists>p r m'. break_malloc rs arena n m = (Some (p, r), m') \<and> blen r = unat n \<and> blen arena < blen r"
proof -
  let ?bmd = "brk_mds m (arena_loc arena)"
  have c: "hdrlen ?bmd = 16" "md_self (amds m (arena_loc arena)) = arena" "unat (brk_allocated ?bmd) \<le> blen arena"
    using assms(1) by (simp_all add: brk_inv_def brk_core_def arena_ok_def)
  have "unat (n + align_pad n + 16) \<le> 16"
  proof -
    obtain q k where nq: "unat n + 15 = 16 * q + k" "k < 16"
      using mult_div_mod_eq [of 16 "unat n + 15"] mod_less_divisor [of 16 "unat n + 15"] by (metis zero_less_numeral)
    have "align_up (unat n) = 16 * q" using nq by (simp add: align_up_def)
    moreover have "q = 1152921504606846975 \<or> q = 1152921504606846976"
    proof -
      have "18446744073709551616 \<le> unat n + 31" using assms(2) by simp
      then show ?thesis using nq unat64_less(2) [of n] by linarith
    qed
    ultimately have up: "align_up (unat n) = 18446744073709551600 \<or> align_up (unat n) = 18446744073709551616" by auto
    have "unat n + unat (align_pad n) = align_up (unat n)"
      using unat_align_pad(1) [of n] align_up_props(1) [of "unat n"] by simp
    then have "unat (n + align_pad n + 16) = (align_up (unat n) + 16) mod 18446744073709551616"
      by (simp add: unat_word_ariths mod_add_left_eq)
    then show ?thesis using up by auto
  qed
  then have "n + align_pad n + 16 \<le> dt_length arena - brk_allocated ?bmd"
    using assms(3) c(3) by (simp add: word_le_nat_alt unat_sub blen_def)
  then show ?thesis using assms(2,4) c by (simp add: break_malloc_def Let_def blen_def)
qed

subsection \<open>An arena\<close>

definition arena_ex :: dthread_shmref_t where
  "arena_ex = \<lparr>dt_shmid = 0, dt_offset = 0x1000, dt_length = 0x1000\<rparr>"

definition shmem_ex :: shmem where
  "shmem_ex = seg_ex\<lparr>amds := (\<lambda>_. \<lparr>mdmagic = DTHREAD_SHM_MD_MAGIC, md_self = arena_ex, min_uoffset = 0x1040,
     max_uoffset = 0x2000, badalign_bits = 0, mopid = 0\<rparr>)\<rparr>"

definition brk_ex :: shmem where
  "brk_ex = snd (break_init shm_ex arena_ex shmem_ex)"

lemma break_init_ex: "break_init shm_ex arena_ex shmem_ex = (0, brk_ex)"
  by (simp add: brk_ex_def break_init_def mdalign_size_def dthread_shmref2ptr_def shm_ex_def arena_ex_def align_pad_def Let_def)

lemma brk_ex_inv: "brk_inv shm_ex arena_ex {} brk_ex"
  by (rule break_init_inv [OF break_init_ex _ shm_ex_maps_ok]) (simp add: shmem_ex_def)

lemma brk_ex_mds:
  "brk_mds brk_ex (arena_loc arena_ex) = \<lparr>brk_allocated = 80, hdrlen = 16, nalloc = 0\<rparr>"
  "md_self (amds brk_ex (arena_loc arena_ex)) = arena_ex"
  by (simp_all add: brk_ex_def break_init_def mdalign_size_def dthread_shmref2ptr_def shm_ex_def arena_ex_def align_pad_def
      Let_def shmem_ex_def)

lemma arena_ex_simps: "dt_shmid arena_ex = 0" "dt_offset arena_ex = 0x1000" "dt_length arena_ex = 0x1000"
    "bstart arena_ex = 0x1000" "blen arena_ex = 0x1000"
  by (simp_all add: arena_ex_def bstart_def blen_def)

lemma brk_ex_alloc:
  obtains p r m where "break_malloc shm_ex arena_ex 100 brk_ex = (Some (p, r), m)"
  using that by (simp add: break_malloc_def brk_ex_mds Let_def arena_ex_simps align_pad_def)

theorem break_client_safe_witness:
  "\<exists>A s. (client_step (brk_alloc shm_ex arena_ex) (brk_release shm_ex arena_ex) (arena_bytes arena_ex)
     (arena_put arena_ex) brk_fits)\<^sup>*\<^sup>* (Map.empty, brk_ex) (A, s) \<and> dom A \<noteq> {} \<and>
     (\<forall>r \<in> dom A. blen r = 100 \<and> bstart r + blen r \<le> 0x2000)"
proof -
  obtain p r m where a: "break_malloc shm_ex arena_ex 100 brk_ex = (Some (p, r), m)" by (rule brk_ex_alloc)
  let ?A = "Map.empty(r \<mapsto> get_bytes (bstart r) (unat (100 :: u64)) (arena_bytes arena_ex m))"
  have run: "(client_step (brk_alloc shm_ex arena_ex) (brk_release shm_ex arena_ex) (arena_bytes arena_ex)
     (arena_put arena_ex) brk_fits)\<^sup>*\<^sup>* (Map.empty, brk_ex) (?A, m)"
    by (rule r_into_rtranclp, rule client_alloc [of _ 100]) (simp_all add: brk_fits_def brk_alloc_def a)
  have "md_self (amds shmem_ex (arena_loc arena_ex)) = arena_ex" by (simp add: shmem_ex_def)
  from break_client_safe [OF break_init_ex this shm_ex_maps_ok run]
  have "\<forall>q \<in> dom ?A. blen q = 100 \<and> bstart q + blen q \<le> 0x2000" by (auto simp: arena_ex_def bstart_def blen_def dest!: spec [of _ r])
  moreover have "dom ?A \<noteq> {}" by simp
  ultimately show ?thesis using run by blast
qed

theorem break_realloc_keeps_witness:
  "\<exists>p r m res m'. break_malloc shm_ex arena_ex 100 brk_ex = (Some (p, r), m) \<and>
     break_realloc shm_ex arena_ex r 200 m = Inr (res, m')"
proof -
  obtain p r m where a: "break_malloc shm_ex arena_ex 100 brk_ex = (Some (p, r), m)" by (rule brk_ex_alloc)
  then have "brk_inv shm_ex arena_ex {r} m" using break_malloc_inv [OF brk_ex_inv _ a] by (simp add: brk_fits_def)
  from break_realloc_keeps [OF this, of r 200] show ?thesis using a by (fastforce simp: brk_fits_def)
qed

theorem break_malloc_wraps_witness:
  "\<exists>p r m'. break_malloc shm_ex arena_ex 0xffffffffffffffff brk_ex = (Some (p, r), m') \<and> blen arena_ex < blen r"
proof -
  obtain p r m' where "break_malloc shm_ex arena_ex 0xffffffffffffffff brk_ex = (Some (p, r), m')" "blen arena_ex < blen r"
    using break_malloc_wraps [OF brk_ex_inv, of "0xffffffffffffffff"] by (auto simp: brk_ex_mds arena_ex_simps)
  then show ?thesis by blast
qed

end
