(* ===== verification/Dt_Bsd.thy ===== *)
theory Dt_Bsd
  imports Dt_Break
begin

text \<open>
  The "bsd" malloc driver of \<^verbatim>\<open>dt_shmops.c\<close>: blocks of a fixed size per bucket, free lists
  that are linked through the blocks, and a break line from which \<^verbatim>\<open>bsd_morecore\<close> takes pages.
  A block starts with 16 bytes of overhead: the offset of the next free block, or a magic
  number with the bucket of an allocated one.  The driver implements the interface
  \<open>block_store\<close> for requests of up to \<open>2 ^ 30\<close> bytes.

  The arguments of the debug log are not evaluated (logging is off); the page size is
  that of the rank.  The caller always wants the reference of the new block (\<^verbatim>\<open>newref\<close> is not
  NULL).
\<close>

subsection \<open>Buckets\<close>

abbreviation "NBUCKETS \<equiv> (60 :: nat)"
abbreviation "BSD_MAGIC \<equiv> (0x5555 :: u64)"

text \<open>\<^verbatim>\<open>1 << (X + 4)\<close> is defined as long as the result fits an \<^verbatim>\<open>int\<close>.\<close>

definition BUCKSIZE :: "int \<Rightarrow> int res" where
  "BUCKSIZE x = (if 0 \<le> x + 4 \<and> x + 4 < 31 then Inr (2 ^ nat (x + 4)) else Inl Bad_shift)"

definition OV_MAGIC :: "u64 \<Rightarrow> u64" where
  "OV_MAGIC x = x AND 0xffff"

definition OV_INDEX :: "u64 \<Rightarrow> int" where
  "OV_INDEX x = uint (drop_bit 16 x AND 0xff)"

definition OV_MAGIDX :: "int \<Rightarrow> u64" where
  "OV_MAGIDX i = push_bit 16 (word_of_int i AND 0xff) OR BSD_MAGIC"

definition upd_bsd :: "dthread_shmref_t \<Rightarrow> (bsd_malloc_md \<Rightarrow> bsd_malloc_md) \<Rightarrow> shmem \<Rightarrow> shmem" where
  "upd_bsd arena f m = m\<lparr>bsd_mds := (bsd_mds m)(arena_loc arena := f (bsd_mds m (arena_loc arena)))\<rparr>"

subsection \<open>Statistics\<close>

text \<open>The walk over a free list: the bytes counted, or \<open>None\<close> inside if an offset is not in the segment.\<close>

partial_function (option) bsd_count_free ::
    "shmrs \<Rightarrow> u64 \<Rightarrow> u64 \<Rightarrow> u64 \<Rightarrow> bytes \<Rightarrow> u64 \<Rightarrow> u64 \<Rightarrow> u64 option option" where
  "bsd_count_free rs shmid osz sz mem fp bfree =
     (if fp = 0 then Some (Some bfree)
      else if dthread_shmref2ptr rs (Some \<lparr>dt_shmid = shmid, dt_offset = fp, dt_length = osz\<rparr>) osz = None then Some None
      else bsd_count_free rs shmid osz sz mem (rd64 mem (unat fp)) (bfree + sz))"

text \<open>The buckets from \<open>i\<close> on; the result holds the totals, or is \<open>None\<close> after an early return.\<close>

function bsd_mstats_from :: "shmrs \<Rightarrow> bsd_malloc_md \<Rightarrow> u64 \<Rightarrow> bytes \<Rightarrow> nat \<Rightarrow> u64 \<Rightarrow> u64 \<Rightarrow> (u64 \<times> u64) option res" where
  "bsd_mstats_from rs md shmid mem i totused totfree =
     (if i \<ge> NBUCKETS then Inr (Some (totused, totfree))
      else case BUCKSIZE (int i) of
             Inl e \<Rightarrow> Inl e
           | Inr sz \<Rightarrow>
               (case bsd_count_free rs shmid (word_of_int (oversize md)) (word_of_int sz) mem (nextf md ! i) 0 of
                  None \<Rightarrow> Inl Diverges
                | Some None \<Rightarrow> Inr None
                | Some (Some bfree) \<Rightarrow>
                    bsd_mstats_from rs md shmid mem (i + 1) (totused + nmalloc md ! i * word_of_int sz) (totfree + bfree)))"
  by pat_completeness auto
termination by (relation "measure (\<lambda>(_, _, _, _, i, _, _). NBUCKETS - i)") auto

definition bsd_mstats :: "shmrs \<Rightarrow> dthread_shmref_t \<Rightarrow> shmem \<Rightarrow> (u64 \<times> u64) option res" where
  "bsd_mstats rs arena m =
     (let shmid = dt_shmid (md_self (amds m (arena_loc arena)))
      in bsd_mstats_from rs (bsd_mds m (arena_loc arena)) shmid (shm_bytes m shmid) 0 0 0)"

subsection \<open>More memory for a bucket\<close>

text \<open>
  The loop that links \<open>n + 1\<close> new blocks of size \<open>sz\<close> from offset \<open>off\<close> on.
\<close>

fun link_blocks :: "u64 \<Rightarrow> u64 \<Rightarrow> nat \<Rightarrow> bytes \<Rightarrow> bytes" where
  "link_blocks off sz 0 mem = wr64 (unat off) 0 mem"
| "link_blocks off sz (Suc n) mem = link_blocks (off + sz) sz n (wr64 (unat off) (off + sz) mem)"

definition bsd_morecore :: "shmrs \<Rightarrow> dthread_shmref_t \<Rightarrow> int \<Rightarrow> shmem \<Rightarrow> shmem res" where
  "bsd_morecore rs arena bucket m =
     (let md = bsd_mds m (arena_loc arena); shmid = dt_shmid (md_self (amds m (arena_loc arena)));
          psz = word_of_int (pagesz md)
      in if bucket < minbucket md \<or> bucket \<ge> int NBUCKETS then Inr m
         else rbind (BUCKSIZE bucket) (\<lambda>s.
           let sz = word_of_int s;
               (amt, nblks) = (if sz < psz then (psz, psz div sz) else (sz + psz, 1))
           in if core_resid md < amt then Inr m
              else if dthread_shmref2ptr rs (Some \<lparr>dt_shmid = shmid, dt_offset = mycore md, dt_length = amt\<rparr>) amt = None
              then Inr m
              else Inr (upd_bsd arena (\<lambda>md. md\<lparr>mycore := mycore md + amt, core_resid := core_resid md - amt,
                                                nextf := (nextf md)[nat bucket := mycore md]\<rparr>)
                     (upd_bytes shmid (link_blocks (mycore md) sz (unat nblks - 1)) m))))"

subsection \<open>The driver\<close>

function bsd_oversize :: "int \<Rightarrow> int" where
  "bsd_oversize ov = (if ov < 8 then bsd_oversize (ov + 16) else ov)"
  by pat_completeness auto
termination by (relation "measure (\<lambda>ov. nat (8 - ov))") auto

text \<open>The loops that look for the first bucket of at least \<open>bound\<close> bytes.\<close>

function bsd_first_bucket :: "int \<Rightarrow> int \<Rightarrow> int res" where
  "bsd_first_bucket b bound =
     (case BUCKSIZE b of
        Inl e \<Rightarrow> Inl e
      | Inr s \<Rightarrow> if s < bound then bsd_first_bucket (b + 1) bound else Inr b)"
  by pat_completeness auto
termination
  by (relation "measure (\<lambda>(b, _). nat (27 - b))") (auto simp: BUCKSIZE_def split: if_splits)

definition bsd_init :: "shmrs \<Rightarrow> dthread_shmref_t \<Rightarrow> shmem \<Rightarrow> (int \<times> shmem) res" where
  "bsd_init rs arena m =
     (let mdsize = mdalign_size rs arena sizeof_bsd_md
      in case dthread_shmref2ptr rs (Some arena) mdsize of
           None \<Rightarrow> Inr (ENOMEM, m)
         | Some _ \<Rightarrow>
             let amd = amds m (arena_loc arena); ov = bsd_oversize 0
             in rbind (bsd_first_bucket 0 (1 + ov)) (\<lambda>minb.
                rbind (bsd_first_bucket 0 (pagesize rs)) (\<lambda>pageb.
                  Inr (0, m\<lparr>amds := (amds m)(arena_loc arena :=
                          amd\<lparr>min_uoffset := dt_offset (md_self amd) + mdsize, badalign_bits := alignsz - 1\<rparr>),
                        bsd_mds := (bsd_mds m)(arena_loc arena :=
                          \<lparr>oversize = ov, minbucket = minb, pagesz = pagesize rs, pagebucket = pageb,
                           nextf = replicate NBUCKETS 0, nmalloc = replicate NBUCKETS 0,
                           mycore = dt_offset arena + mdsize, core_resid = dt_length arena - mdsize\<rparr>)\<rparr>))))"

definition bsd_finalize :: "shmrs \<Rightarrow> dthread_shmref_t \<Rightarrow> shmem \<Rightarrow> int res" where
  "bsd_finalize rs arena m = rbind (bsd_mstats rs arena m) (\<lambda>_. Inr 0)"

text \<open>The loop that chooses the bucket: \<open>None\<close> when the block size has wrapped to 0.\<close>

definition shifts_left :: "u64 \<Rightarrow> nat" where
  "shifts_left amt = (LEAST k. push_bit k amt = 0)"

lemma shifts_left_push: "amt \<noteq> 0 \<Longrightarrow> shifts_left amt = Suc (shifts_left (push_bit 1 amt))"
proof -
  assume "amt \<noteq> 0"
  moreover have "push_bit 64 amt = 0" by (rule bit_word_eqI) (simp add: bit_push_bit_iff)
  ultimately have "shifts_left amt = Suc (LEAST k. push_bit (Suc k) amt = 0)"
    unfolding shifts_left_def by (intro Least_Suc [of _ 64]) simp_all
  then show ?thesis by (simp add: shifts_left_def)
qed

function bsd_pick :: "u64 \<Rightarrow> u64 \<Rightarrow> u64 \<Rightarrow> int \<Rightarrow> int option" where
  "bsd_pick sz n amt bucket =
     (if sz > amt + n then
        if push_bit 1 amt = 0 then None else bsd_pick sz n (push_bit 1 amt) (bucket + 1)
      else Some bucket)"
  by pat_completeness auto
termination
proof (relation "measure (\<lambda>(_, _, amt, _). shifts_left amt)", goal_cases)
  case (2 sz n amt bucket)
  then have "amt \<noteq> 0" by auto
  then show ?case using shifts_left_push by simp
qed simp

declare bsd_pick.simps [simp del] bsd_first_bucket.simps [simp del] bsd_oversize.simps [simp del] bsd_mstats_from.simps [simp del]

definition bsd_bucket :: "bsd_malloc_md \<Rightarrow> u64 \<Rightarrow> int option res" where
  "bsd_bucket md sz =
     (if sz \<le> word_of_int (pagesz md div 2 - oversize md) then
        rbind (BUCKSIZE (minbucket md)) (\<lambda>amt.
          Inr (bsd_pick sz (word_of_int (- oversize md)) (word_of_int amt) (minbucket md)))
      else Inr (bsd_pick sz (word_of_int (pagesz md - oversize md)) (word_of_int (pagesz md)) (pagebucket md)))"

text \<open>Taking the first block off the free list of a bucket, in the state after \<^verbatim>\<open>bsd_morecore\<close>.\<close>

definition bsd_take :: "shmrs \<Rightarrow> dthread_shmref_t \<Rightarrow> u64 \<Rightarrow> nat \<Rightarrow> shmem \<Rightarrow> (u64 \<times> dthread_shmref_t) option \<times> shmem" where
  "bsd_take rs arena sz bucket m =
     (let md = bsd_mds m (arena_loc arena); shmid = dt_shmid (md_self (amds m (arena_loc arena)));
          ovoff = nextf md ! bucket; osz = word_of_int (oversize md)
      in case dthread_shmref2ptr rs (Some \<lparr>dt_shmid = shmid, dt_offset = ovoff, dt_length = osz\<rparr>) osz of
           None \<Rightarrow> (None, m)
         | Some ovp \<Rightarrow>
             (Some (ovp + osz, \<lparr>dt_shmid = shmid, dt_offset = ovoff + osz, dt_length = sz\<rparr>),
              upd_bsd arena (\<lambda>md. md\<lparr>nextf := (nextf md)[bucket := rd64 (shm_bytes m shmid) (unat ovoff)],
                                      nmalloc := (nmalloc md)[bucket := nmalloc md ! bucket + 1]\<rparr>)
                (upd_bytes shmid (wr64 (unat ovoff) (OV_MAGIDX (int bucket))) m)))"

definition bsd_malloc ::
    "shmrs \<Rightarrow> dthread_shmref_t \<Rightarrow> u64 \<Rightarrow> shmem \<Rightarrow> ((u64 \<times> dthread_shmref_t) option \<times> shmem) res" where
  "bsd_malloc rs arena sz m =
     rbind (bsd_bucket (bsd_mds m (arena_loc arena)) sz) (\<lambda>b.
       case b of
         None \<Rightarrow> Inr (None, m)
       | Some bucket \<Rightarrow>
           if bucket < 0 \<or> bucket \<ge> int NBUCKETS then Inl Out_of_bounds
           else if nextf (bsd_mds m (arena_loc arena)) ! nat bucket \<noteq> 0 then Inr (bsd_take rs arena sz (nat bucket) m)
           else rbind (bsd_morecore rs arena bucket m) (\<lambda>m.
             if nextf (bsd_mds m (arena_loc arena)) ! nat bucket = 0 then Inr (None, m)
             else Inr (bsd_take rs arena sz (nat bucket) m)))"

definition bsd_free :: "shmrs \<Rightarrow> dthread_shmref_t \<Rightarrow> dthread_shmref_t \<Rightarrow> shmem \<Rightarrow> shmem res" where
  "bsd_free rs arena ref m =
     (let md = bsd_mds m (arena_loc arena); osz = word_of_int (oversize md)
      in if dt_offset ref < min_uoffset (amds m (arena_loc arena)) + osz then Inr m
         else case dthread_shmref2ptr rs (Some ref) 0 of
                None \<Rightarrow> Inl Null_deref
              | Some ptr \<Rightarrow>
                  let curoff = dt_offset ref - osz; mag = rd64 (shm_bytes m (dt_shmid ref)) (unat curoff);
                      bucket = nat (OV_INDEX mag)
                  in if OV_MAGIC mag \<noteq> BSD_MAGIC then Inr m
                     else if bucket \<ge> NBUCKETS then Inr m
                     else Inr (upd_bsd arena (\<lambda>md. md\<lparr>nextf := (nextf md)[bucket := curoff],
                                   nmalloc := (nmalloc md)[bucket := nmalloc md ! bucket - 1]\<rparr>)
                            (upd_bytes (dt_shmid ref) (wr64 (unat curoff) (nextf md ! bucket)) m)))"

text \<open>The bytes a user gets from a block of a bucket.\<close>

definition bsd_usable :: "bsd_malloc_md \<Rightarrow> int \<Rightarrow> u64" where
  "bsd_usable md s =
     (if (word_of_int s :: u64) < word_of_int (pagesz md) then word_of_int s - word_of_int (oversize md)
      else word_of_int s + word_of_int (pagesz md - oversize md))"

text \<open>The end of \<^verbatim>\<open>bsd_realloc\<close>: a new block, a copy of \<open>n\<close> bytes, and the release of the old block.\<close>

definition bsd_move ::
    "shmrs \<Rightarrow> dthread_shmref_t \<Rightarrow> dthread_shmref_t \<Rightarrow> u64 \<Rightarrow> u64 \<Rightarrow> shmem \<Rightarrow>
     ((u64 \<times> dthread_shmref_t) option \<times> shmem) res" where
  "bsd_move rs arena inref new_size n m =
     rbind (bsd_malloc rs arena new_size m) (\<lambda>(a, m).
       case a of
         None \<Rightarrow> Inr (None, m)
       | Some (newptr, newref) \<Rightarrow>
           let src = get_bytes (unat (dt_offset inref)) (unat n) (shm_bytes m (dt_shmid inref));
               m = upd_bytes (dt_shmid newref) (put_bytes (unat (dt_offset newref)) src) m
           in rbind (bsd_free rs arena inref m) (\<lambda>m. Inr (Some (newptr, newref), m)))"

definition bsd_realloc ::
    "shmrs \<Rightarrow> dthread_shmref_t \<Rightarrow> dthread_shmref_t \<Rightarrow> u64 \<Rightarrow> shmem \<Rightarrow>
     ((u64 \<times> dthread_shmref_t) option \<times> shmem) res" where
  "bsd_realloc rs arena inref new_size m =
     (let md = bsd_mds m (arena_loc arena); osz = word_of_int (oversize md)
      in if dt_offset inref < min_uoffset (amds m (arena_loc arena)) + osz then Inr (None, m)
         else case dthread_shmref2ptr rs (Some inref) 0 of
                None \<Rightarrow> Inl Null_deref
              | Some ptr \<Rightarrow>
                  let mag = rd64 (shm_bytes m (dt_shmid inref)) (unat (dt_offset inref - osz)); bucket = OV_INDEX mag
                  in if OV_MAGIC mag \<noteq> BSD_MAGIC then Inr (None, m)
                     else if bucket < minbucket md \<or> bucket \<ge> int NBUCKETS then Inr (None, m)
                     else rbind (BUCKSIZE bucket) (\<lambda>s.
                       rbind (if bucket \<le> minbucket md then Inr 0
                              else rbind (BUCKSIZE (bucket - 1)) (\<lambda>ps. Inr (bsd_usable md ps))) (\<lambda>prevbucksize.
                         let bucksize = bsd_usable md s
                         in if new_size \<le> bucksize \<and> (prevbucksize = 0 \<or> new_size > prevbucksize) then
                              Inr (Some (ptr, \<lparr>dt_shmid = dt_shmid inref, dt_offset = dt_offset inref, dt_length = new_size\<rparr>), m)
                            else bsd_move rs arena inref new_size (if new_size < bucksize then new_size else bucksize) m)))"

subsection \<open>The invariant of an arena\<close>

text \<open>The size of a block of a bucket, and the offsets of a linked list of blocks.\<close>

definition bsd_blk :: "bsd_malloc_md \<Rightarrow> nat \<Rightarrow> nat" where
  "bsd_blk md b = (if 2 ^ (b + 4) < nat (pagesz md) then 2 ^ (b + 4) else 2 ^ (b + 4) + nat (pagesz md))"

fun bsd_chain :: "bytes \<Rightarrow> u64 \<Rightarrow> nat list \<Rightarrow> bool" where
  "bsd_chain mem w [] \<longleftrightarrow> w = 0"
| "bsd_chain mem w (a # as) \<longleftrightarrow> w \<noteq> 0 \<and> unat w = a \<and> bsd_chain mem (rd64 mem a) as"

definition bsd_md_ok :: "bsd_malloc_md \<Rightarrow> bool" where
  "bsd_md_ok md \<longleftrightarrow> oversize md = 16 \<and> minbucket md = 1 \<and> length (nextf md) = NBUCKETS \<and> length (nmalloc md) = NBUCKETS \<and>
     (\<exists>k. 6 \<le> k \<and> k \<le> 30 \<and> pagesz md = 2 ^ k \<and> pagebucket md = int k - 4)"

text \<open>
  The blocks carved out of the arena so far: \<open>T a = Some b\<close> for a block of bucket \<open>b\<close> at \<open>a\<close>,
  all between \<open>lo\<close> and \<open>hi\<close>, none overlapping another.
\<close>

definition bsd_carved :: "bsd_malloc_md \<Rightarrow> nat \<Rightarrow> nat \<Rightarrow> nat \<Rightarrow> (nat \<Rightarrow> nat option) \<Rightarrow> bool" where
  "bsd_carved md base lo hi T \<longleftrightarrow>
     (\<forall>a b. T a = Some b \<longrightarrow> 1 \<le> b \<and> b \<le> 26 \<and> lo \<le> a \<and> a + bsd_blk md b \<le> hi \<and> 16 dvd base + a) \<and>
     (\<forall>a b a' b'. T a = Some b \<longrightarrow> T a' = Some b' \<longrightarrow> a \<noteq> a' \<longrightarrow> apart a (bsd_blk md b) a' (bsd_blk md b'))"

definition bsd_live :: "dthread_shmref_t \<Rightarrow> bsd_malloc_md \<Rightarrow> bytes \<Rightarrow> (nat \<Rightarrow> nat option) \<Rightarrow> (nat \<Rightarrow> nat list) \<Rightarrow>
    dthread_shmref_t \<Rightarrow> nat \<Rightarrow> bool" where
  "bsd_live arena md mem T F r b \<longleftrightarrow>
     dt_shmid r = dt_shmid arena \<and> 16 \<le> bstart r \<and> T (bstart r - 16) = Some b \<and>
     rd64 mem (bstart r - 16) = OV_MAGIDX (int b) \<and> blen r + 16 \<le> bsd_blk md b \<and> (\<forall>c < NBUCKETS. bstart r - 16 \<notin> set (F c))"

definition bsd_core :: "shmrs \<Rightarrow> dthread_shmref_t \<Rightarrow> dthread_shm_alloc_md_t \<Rightarrow> bsd_malloc_md \<Rightarrow> bytes \<Rightarrow>
    (nat \<Rightarrow> nat option) \<Rightarrow> (nat \<Rightarrow> nat list) \<Rightarrow> dthread_shmref_t set \<Rightarrow> bool" where
  "bsd_core rs arena amd md mem T F L \<longleftrightarrow>
     arena_ok rs arena amd \<and> bstart arena + unat sizeof_bsd_md \<le> unat (min_uoffset amd) \<and> bsd_md_ok md \<and>
     unat (min_uoffset amd) \<le> unat (mycore md) \<and> unat (mycore md) + unat (core_resid md) = bstart arena + blen arena \<and>
     16 dvd unat (mapping (arena_map rs arena)) + unat (mycore md) \<and>
     bsd_carved md (unat (mapping (arena_map rs arena))) (unat (min_uoffset amd)) (unat (mycore md)) T \<and>
     (\<forall>b < NBUCKETS. bsd_chain mem (nextf md ! b) (F b) \<and> distinct (F b) \<and> (\<forall>a \<in> set (F b). T a = Some b)) \<and>
     (\<forall>r \<in> L. \<exists>b. bsd_live arena md mem T F r b) \<and> inj_on bstart L"

definition bsd_inv :: "shmrs \<Rightarrow> dthread_shmref_t \<Rightarrow> dthread_shmref_t set \<Rightarrow> shmem \<Rightarrow> bool" where
  "bsd_inv rs arena L m \<longleftrightarrow>
     (\<exists>T F. bsd_core rs arena (amds m (arena_loc arena)) (bsd_mds m (arena_loc arena)) (shm_bytes m (dt_shmid arena)) T F L)"

definition bsd_fits :: "u64 \<Rightarrow> bool" where
  "bsd_fits n \<longleftrightarrow> unat n \<le> 2 ^ 30"

subsection \<open>Facts on the invariant\<close>

lemma bsd_magidx: "b \<le> 26 \<Longrightarrow> OV_INDEX (OV_MAGIDX (int b)) = int b \<and> OV_MAGIC (OV_MAGIDX (int b)) = BSD_MAGIC"
proof -
  assume "b \<le> 26"
  then have "b \<in> set [0..<27]" by simp
  moreover have "\<forall>b \<in> set [0..<27]. OV_INDEX (OV_MAGIDX (int b)) = int b \<and> OV_MAGIC (OV_MAGIDX (int b)) = BSD_MAGIC"
    by code_simp
  ultimately show ?thesis by blast
qed

lemma bsd_blk_ge: "1 \<le> b \<Longrightarrow> 32 \<le> bsd_blk md b"
proof -
  assume "1 \<le> b"
  then have "(2 :: nat) ^ 5 \<le> 2 ^ (b + 4)" by (intro power_increasing) simp_all
  then show ?thesis by (simp add: bsd_blk_def)
qed

lemma bsd_chain_cong: "bsd_chain mem w as \<Longrightarrow> \<forall>a \<in> set as. rd64 mem' a = rd64 mem a \<Longrightarrow> bsd_chain mem' w as"
  by (induction as arbitrary: w) auto

lemma bsd_carvedD:
  assumes "bsd_core rs arena amd md mem T F L" "T a = Some b"
  shows "1 \<le> b" "b \<le> 26" "unat (min_uoffset amd) \<le> a" "a + bsd_blk md b \<le> unat (mycore md)"
    "16 dvd unat (mapping (arena_map rs arena)) + a" "32 \<le> bsd_blk md b"
  using assms bsd_blk_ge unfolding bsd_core_def bsd_carved_def by blast+

lemma bsd_carved_apart:
  assumes "bsd_core rs arena amd md mem T F L" "T a = Some b" "T a' = Some b'" "a \<noteq> a'"
  shows "apart a (bsd_blk md b) a' (bsd_blk md b')" "apart a 8 a' 8" "apart a 8 a' (bsd_blk md b')"
proof -
  show d: "apart a (bsd_blk md b) a' (bsd_blk md b')"
    using assms unfolding bsd_core_def bsd_carved_def by blast
  have k: "32 \<le> bsd_blk md b" "32 \<le> bsd_blk md b'" using bsd_carvedD(6) assms by blast+
  show "apart a 8 a' 8" "apart a 8 a' (bsd_blk md b')" using d k by (auto simp: apart_def)
qed

lemma bsd_liveE:
  assumes "bsd_core rs arena amd md mem T F L" "r \<in> L"
  obtains b where "bsd_live arena md mem T F r b"
  using assms unfolding bsd_core_def by blast

text \<open>No block in use overlaps the overhead of any block.\<close>

lemma bsd_live_header_apart:
  assumes "bsd_core rs arena amd md mem T F L" "r \<in> L" "T a = Some b"
  shows "apart (bstart r) (blen r) a 8"
proof -
  obtain c where c: "bsd_live arena md mem T F r c" using assms by (auto simp: bsd_core_def)
  show ?thesis
  proof (cases "a = bstart r - 16")
    case True
    then show ?thesis using c by (auto simp: bsd_live_def apart_def)
  next
    case False
    then have "apart a 8 (bstart r - 16) (bsd_blk md c)"
      using bsd_carved_apart(3) [OF assms(1,3)] c by (auto simp: bsd_live_def)
    then show ?thesis using c by (auto simp: bsd_live_def apart_def)
  qed
qed

lemma bsd_live_apart:
  assumes "bsd_core rs arena amd md mem T F L" "q \<in> L" "r \<in> L" "q \<noteq> r"
  shows "blocks_apart q r"
proof -
  obtain b c where b: "bsd_live arena md mem T F q b" and c: "bsd_live arena md mem T F r c"
    using bsd_liveE [OF assms(1,2)] bsd_liveE [OF assms(1,3)] by metis
  have "bstart q \<noteq> bstart r" using assms by (auto simp: bsd_core_def inj_on_def)
  then have "bstart q - 16 \<noteq> bstart r - 16" using b c by (auto simp: bsd_live_def)
  then have "apart (bstart q - 16) (bsd_blk md b) (bstart r - 16) (bsd_blk md c)"
    using bsd_carved_apart(1) [OF assms(1)] b c by (auto simp: bsd_live_def)
  then show ?thesis using b c by (auto simp: bsd_live_def blocks_apart_def apart_def)
qed

lemma bsd_core_mem:
  assumes "bsd_core rs arena amd md mem T F L" "\<And>a b. T a = Some b \<Longrightarrow> rd64 mem' a = rd64 mem a"
  shows "bsd_core rs arena amd md mem' T F L"
proof -
  have "bsd_chain mem' (nextf md ! b) (F b)" if "b < NBUCKETS" for b
    using assms that bsd_chain_cong [of mem "nextf md ! b" "F b" mem'] by (auto simp: bsd_core_def)
  moreover have "\<exists>b. bsd_live arena md mem' T F r b" if "r \<in> L" for r
    using assms that by (fastforce simp: bsd_core_def bsd_live_def)
  ultimately show ?thesis using assms(1) unfolding bsd_core_def by blast
qed

subsection \<open>Taking and giving back a block\<close>

lemma bsd_core_pop:
  assumes "bsd_core rs arena amd md mem T F L" "b < NBUCKETS" "F b = a # as"
    and "dt_shmid r = dt_shmid arena" "bstart r = a + 16" "blen r + 16 \<le> bsd_blk md b"
  shows "bsd_core rs arena amd (md\<lparr>nextf := (nextf md)[b := rd64 mem a], nmalloc := (nmalloc md)[b := x]\<rparr>)
      (wr64 a (OV_MAGIDX (int b)) mem) T (F(b := as)) (insert r L)" (is "bsd_core _ _ _ ?md ?mem _ ?F _") and "r \<notin> L"
proof -
  have T: "T a = Some b" "a \<notin> set as" "distinct as" "\<forall>a' \<in> set as. T a' = Some b" "bsd_chain mem (rd64 mem a) as"
    using assms(1-3) by (auto simp: bsd_core_def dest!: spec [of _ b])
  have other: "rd64 ?mem a' = rd64 mem a'" if "T a' = Some c" "a' \<noteq> a" for a' c
    using bsd_carved_apart(2) [OF assms(1) that(1) T(1) that(2)] by (simp add: rd_wr_apart)
  have not_a: "bstart q - 16 \<noteq> a" if qL: "q \<in> L" for q
  proof -
    obtain c where "bsd_live arena md mem T F q c" by (rule bsd_liveE [OF assms(1) qL])
    then show ?thesis using assms(2,3) by (auto simp: bsd_live_def)
  qed
  have chains: "bsd_chain ?mem (nextf ?md ! c) (?F c) \<and> distinct (?F c) \<and> (\<forall>a' \<in> set (?F c). T a' = Some c)" if "c < NBUCKETS" for c
  proof (cases "c = b")
    case True
    have "bsd_chain ?mem (rd64 mem a) as"
      using bsd_chain_cong [OF T(5), of ?mem] other T(2,4) by blast
    then show ?thesis using True that T assms(1) by (simp add: bsd_core_def bsd_md_ok_def)
  next
    case False
    have f: "bsd_chain mem (nextf md ! c) (F c)" "distinct (F c)" "\<forall>a' \<in> set (F c). T a' = Some c"
      using assms(1) that by (simp_all add: bsd_core_def)
    then have "\<forall>a' \<in> set (F c). rd64 ?mem a' = rd64 mem a'" using other T(1) False by fastforce
    then show ?thesis using f False bsd_chain_cong by simp
  qed
  have blk: "bsd_blk ?md = bsd_blk md" by (simp add: bsd_blk_def fun_eq_iff)
  have live: "\<exists>c. bsd_live arena ?md ?mem T ?F q c" if qL: "q \<in> L" for q
  proof -
    obtain c where c: "bsd_live arena md mem T F q c" by (rule bsd_liveE [OF assms(1) qL])
    then have "rd64 ?mem (bstart q - 16) = rd64 mem (bstart q - 16)"
      using other not_a [OF qL] by (auto simp: bsd_live_def)
    moreover have "bstart q - 16 \<notin> set (?F d)" if "d < NBUCKETS" for d
      using c that assms(2,3) by (auto simp: bsd_live_def)
    ultimately show ?thesis using c blk unfolding bsd_live_def by auto
  qed
  have "bsd_live arena ?md ?mem T ?F r b"
  proof -
    have "a \<notin> set (F d)" if "d < NBUCKETS" "d \<noteq> b" for d
      using assms(1) that T(1) by (auto simp: bsd_core_def)
    then show ?thesis using assms(4-6) T blk by (simp add: bsd_live_def)
  qed
  moreover have ninj: "bstart r \<notin> bstart ` L" using not_a assms(5) by force
  moreover have "inj_on bstart L" using assms(1) by (simp add: bsd_core_def)
  moreover have "bsd_md_ok ?md" "bsd_carved ?md = bsd_carved md"
    using assms(1) blk by (auto simp: bsd_core_def bsd_md_ok_def bsd_carved_def fun_eq_iff)
  ultimately show "bsd_core rs arena amd ?md ?mem T ?F (insert r L)"
    using assms(1) chains live unfolding bsd_core_def by (simp del: One_nat_def) blast
  show "r \<notin> L" using ninj by blast
qed

lemma bsd_core_push:
  assumes "bsd_core rs arena amd md mem T F L" "r \<in> L" "bsd_live arena md mem T F r b" "unat w = bstart r - 16" "w \<noteq> 0"
  shows "bsd_core rs arena amd (md\<lparr>nextf := (nextf md)[b := w], nmalloc := (nmalloc md)[b := x]\<rparr>)
      (wr64 (bstart r - 16) (nextf md ! b) mem) T (F(b := (bstart r - 16) # F b)) (L - {r})"
    (is "bsd_core _ _ _ ?md ?mem _ ?F _")
proof -
  let ?a = "bstart r - 16"
  have T: "T ?a = Some b" "\<forall>c < NBUCKETS. ?a \<notin> set (F c)" and b: "b < NBUCKETS"
    using assms(3) bsd_carvedD(2) [OF assms(1), of ?a b] by (auto simp: bsd_live_def)
  have other: "rd64 ?mem a' = rd64 mem a'" if "T a' = Some c" "a' \<noteq> ?a" for a' c
    using bsd_carved_apart(2) [OF assms(1) that(1) T(1) that(2)] by (simp add: rd_wr_apart)
  have keep: "bsd_chain ?mem (nextf md ! c) (F c)" if "c < NBUCKETS" for c
  proof -
    have f: "bsd_chain mem (nextf md ! c) (F c)" "\<forall>a' \<in> set (F c). T a' = Some c"
      using assms(1) that by (simp_all add: bsd_core_def)
    have "\<forall>a' \<in> set (F c). rd64 ?mem a' = rd64 mem a'" using other f(2) T(2) that by fastforce
    then show ?thesis using f(1) bsd_chain_cong by blast
  qed
  have chains: "bsd_chain ?mem (nextf ?md ! c) (?F c) \<and> distinct (?F c) \<and> (\<forall>a' \<in> set (?F c). T a' = Some c)" if "c < NBUCKETS" for c
    using keep [OF that] that assms T b by (cases "c = b") (auto simp: bsd_core_def bsd_md_ok_def)
  have blk: "bsd_blk ?md = bsd_blk md" by (simp add: bsd_blk_def fun_eq_iff)
  have live: "\<exists>c. bsd_live arena ?md ?mem T ?F q c" if qL: "q \<in> L - {r}" for q
  proof -
    from qL have "q \<in> L" by simp
    then obtain c where c: "bsd_live arena md mem T F q c" by (rule bsd_liveE [OF assms(1)])
    have "bstart q \<noteq> bstart r" using assms(1,2) qL by (auto simp: bsd_core_def inj_on_def)
    then have ne: "bstart q - 16 \<noteq> ?a" using c assms(3) by (auto simp: bsd_live_def)
    then have "rd64 ?mem (bstart q - 16) = rd64 mem (bstart q - 16)" using other c by (auto simp: bsd_live_def)
    then show ?thesis using c ne blk unfolding bsd_live_def by auto
  qed
  have "inj_on bstart (L - {r})" using assms(1) by (auto simp: bsd_core_def inj_on_def)
  moreover have "bsd_md_ok ?md" "bsd_carved ?md = bsd_carved md"
    using assms(1) blk by (auto simp: bsd_core_def bsd_md_ok_def bsd_carved_def fun_eq_iff)
  ultimately show ?thesis using assms(1) chains live unfolding bsd_core_def by (simp del: One_nat_def)
qed

subsection \<open>New blocks\<close>

lemma link_blocks_apart:
  assumes "apart a k (unat off) (Suc n * unat sz)" "unat off + Suc n * unat sz < 2 ^ 64" "8 \<le> unat sz"
  shows "get_bytes a k (link_blocks off sz n mem) = get_bytes a k mem"
  using assms
proof (induction n arbitrary: off mem)
  case 0
  then have "apart a k (unat off) 8" using apart_sub2 [of a k "unat off" "unat sz" "unat off" 8] by simp
  then show ?case by (simp add: get_wr_apart)
next
  case (Suc n)
  have off: "unat (off + sz) = unat off + unat sz" using Suc.prems(2) by (intro unat_add_no_overflow) simp
  have "apart a k (unat off) 8"
    using apart_sub2 [OF Suc.prems(1), of "unat off" 8] Suc.prems(3) by simp
  moreover have "apart a k (unat (off + sz)) (Suc n * unat sz)"
    using apart_sub2 [OF Suc.prems(1), of "unat off + unat sz" "Suc n * unat sz"] off by simp
  ultimately show ?case using Suc.IH [of "off + sz"] Suc.prems(2,3) off by (simp add: get_wr_apart)
qed

lemma link_blocks_chain:
  assumes "unat off + Suc n * unat sz < 2 ^ 64" "8 \<le> unat sz" "off \<noteq> 0"
  shows "bsd_chain (link_blocks off sz n mem) off (map (\<lambda>i. unat off + i * unat sz) [0..<Suc n])"
  using assms
proof (induction n arbitrary: off mem)
  case 0
  then show ?case by simp
next
  case (Suc n)
  have off: "unat (off + sz) = unat off + unat sz" using Suc.prems(1) by (intro unat_add_no_overflow) simp
  then have nz: "off + sz \<noteq> 0" using Suc.prems(2) by (metis add_is_0 not_numeral_le_zero unsigned_0)
  let ?mem = "link_blocks (off + sz) sz n (wr64 (unat off) (off + sz) mem)"
  have "apart (unat off) 8 (unat (off + sz)) (Suc n * unat sz)" using off Suc.prems(2) by (simp add: apart_def)
  then have "get_bytes (unat off) 8 ?mem = get_bytes (unat off) 8 (wr64 (unat off) (off + sz) mem)"
    using Suc.prems(1,2) off by (intro link_blocks_apart) simp_all
  then have "rd64 ?mem (unat off) = off + sz" using rd_get_bytes_cong(2) rd64_wr64_same by metis
  moreover have "bsd_chain ?mem (off + sz) (map (\<lambda>i. unat (off + sz) + i * unat sz) [0..<Suc n])"
    using Suc.IH [of "off + sz"] Suc.prems(1,2) off nz by simp
  moreover have "map (\<lambda>i. unat (off + sz) + i * unat sz) [0..<Suc n] = map (\<lambda>i. unat off + i * unat sz) [Suc 0..<Suc (Suc n)]"
    by (rule nth_equalityI) (simp_all add: off del: upt_Suc)
  moreover have "[0..<Suc (Suc n)] = 0 # [Suc 0..<Suc (Suc n)]" by (rule upt_conv_Cons) simp
  ultimately show ?case using Suc.prems(3) by (simp del: upt_Suc)
qed

lemma bsd_core_carve:
  assumes core: "bsd_core rs arena amd md mem T F L" and b: "1 \<le> b" "b \<le> 26" and e: "F b = []"
    and new: "news = map (\<lambda>i. unat (mycore md) + i * bsd_blk md b) [0..<N]" "0 < N"
    and room: "N * bsd_blk md b \<le> unat (core_resid md)" "unat c' = unat (mycore md) + N * bsd_blk md b"
      "unat d' = unat (core_resid md) - N * bsd_blk md b"
    and dvd: "16 dvd bsd_blk md b"
    and chain: "bsd_chain mem' (mycore md) news" and same: "\<And>a c. T a = Some c \<Longrightarrow> rd64 mem' a = rd64 mem a"
  shows "bsd_core rs arena amd (md\<lparr>mycore := c', core_resid := d', nextf := (nextf md)[b := mycore md]\<rparr>) mem'
     (\<lambda>a. if a \<in> set news then Some b else T a) (F(b := news)) L"
    (is "bsd_core _ _ _ ?md _ ?T ?F _")
proof -
  let ?B = "unat (mapping (arena_map rs arena))"
  have blk: "bsd_blk ?md = bsd_blk md" by (simp add: bsd_blk_def fun_eq_iff)
  have pos: "32 \<le> bsd_blk md b" using bsd_blk_ge [OF b(1)] .
  have nb: "b < NBUCKETS" using b by simp
  have old: "a + bsd_blk md c \<le> unat (mycore md)" "1 \<le> c" if "T a = Some c" for a c
    using bsd_carvedD [OF core that] by simp_all
  have fresh: "T a = None" if "a \<in> set news" for a
  proof (cases "T a")
    case (Some c)
    then have "a + 32 \<le> unat (mycore md)" using bsd_carvedD(4,6) [OF core Some] by simp
    then show ?thesis using that new(1) by auto
  qed simp
  have at: "\<exists>i < N. a = unat (mycore md) + i * bsd_blk md b" if "a \<in> set news" for a using that new(1) by auto
  have range: "unat (min_uoffset amd) \<le> a \<and> a + bsd_blk md b \<le> unat c' \<and> 16 dvd ?B + a \<and> unat (mycore md) \<le> a" if "a \<in> set news" for a
  proof -
    obtain i where i: "i < N" "a = unat (mycore md) + i * bsd_blk md b" using at [OF \<open>a \<in> set news\<close>] by blast
    have "Suc i * bsd_blk md b \<le> N * bsd_blk md b" using i(1) by (intro mult_le_mono) simp_all
    moreover have "16 dvd (?B + unat (mycore md)) + i * bsd_blk md b" "unat (min_uoffset amd) \<le> unat (mycore md)"
      using core dvd by (simp_all add: bsd_core_def)
    ultimately show ?thesis using i(2) room(2) by (simp add: add.assoc)
  qed
  have ap_new: "apart a (bsd_blk md b) a' (bsd_blk md b)" if in2: "a \<in> set news" "a' \<in> set news" "a \<noteq> a'" for a a'
  proof -
    obtain i j where ij: "a = unat (mycore md) + i * bsd_blk md b" "a' = unat (mycore md) + j * bsd_blk md b"
      using at [OF in2(1)] at [OF in2(2)] by blast
    then have "Suc i \<le> j \<or> Suc j \<le> i" using in2(3) by (metis Suc_leI nat_neq_iff)
    then have "Suc i * bsd_blk md b \<le> j * bsd_blk md b \<or> Suc j * bsd_blk md b \<le> i * bsd_blk md b"
      by (meson le_refl mult_le_mono)
    then show ?thesis using ij by (auto simp: apart_def)
  qed
  have "bsd_carved ?md ?B (unat (min_uoffset amd)) (unat c') ?T"
    unfolding bsd_carved_def blk
  proof (intro conjI allI impI, goal_cases)
    case (1 a c) then show ?case using b bsd_carvedD [OF core] by (auto split: if_splits)
  next
    case (2 a c) then show ?case using b bsd_carvedD [OF core] by (auto split: if_splits)
  next
    case (3 a c) then show ?case using range bsd_carvedD [OF core] by (auto split: if_splits)
  next
    case (4 a c) then show ?case using range old room(2) by (force split: if_splits)
  next
    case (5 a c) then show ?case using range bsd_carvedD [OF core] by (auto split: if_splits)
  next
    case (6 a c a' c')
    consider "a \<in> set news" "a' \<in> set news" | "a \<in> set news" "a' \<notin> set news" | "a \<notin> set news" "a' \<in> set news"
      | "a \<notin> set news" "a' \<notin> set news" by blast
    then show ?case
    proof cases
      case 1
      then show ?thesis using 6 ap_new by simp
    next
      case 2
      then have "a' + bsd_blk md c' \<le> a" using old(1) [of a' c'] range 6(2) by force
      then show ?thesis by (simp add: apart_def)
    next
      case 3
      then have "a + bsd_blk md c \<le> a'" using old(1) [of a c] range 6(1) by force
      then show ?thesis by (simp add: apart_def)
    next
      case 4
      then show ?thesis using 6 bsd_carved_apart(1) [OF core] by simp
    qed
  qed
  moreover have "distinct news"
    using pos unfolding new(1) by (auto simp: distinct_map inj_on_def)
  moreover have "bsd_chain mem' (nextf ?md ! c) (?F c) \<and> distinct (?F c) \<and> (\<forall>a \<in> set (?F c). ?T a = Some c)" if "c < NBUCKETS" for c
  proof (cases "c = b")
    case True
    then show ?thesis using chain \<open>distinct news\<close> that core by (simp add: bsd_core_def bsd_md_ok_def)
  next
    case False
    have f: "bsd_chain mem (nextf md ! c) (F c)" "distinct (F c)" "\<forall>a \<in> set (F c). T a = Some c"
      using core that by (simp_all add: bsd_core_def)
    moreover have "\<forall>a \<in> set (F c). rd64 mem' a = rd64 mem a" using f(3) same by blast
    moreover have "\<forall>a \<in> set (F c). a \<notin> set news" using f(3) fresh by fastforce
    ultimately show ?thesis using False bsd_chain_cong by simp
  qed
  moreover have "\<exists>c. bsd_live arena ?md mem' ?T ?F r c" if rL: "r \<in> L" for r
  proof -
    obtain c where c: "bsd_live arena md mem T F r c" by (rule bsd_liveE [OF core rL])
    then have t: "T (bstart r - 16) = Some c" by (simp add: bsd_live_def)
    then have "bstart r - 16 \<notin> set news" using fresh by fastforce
    then show ?thesis using c same [OF t] blk unfolding bsd_live_def by auto
  qed
  moreover have "bsd_md_ok ?md" using core by (simp add: bsd_core_def bsd_md_ok_def)
  moreover have "16 dvd ?B + unat c'"
  proof -
    have "16 dvd ?B + unat (mycore md)" using core by (simp add: bsd_core_def)
    then have "16 dvd ?B + unat (mycore md) + N * bsd_blk md b" using dvd by simp
    then show ?thesis using room(2) by (simp add: add.assoc)
  qed
  moreover have "unat c' + unat d' = bstart arena + blen arena" "unat (min_uoffset amd) \<le> unat c'"
    using core room by (auto simp: bsd_core_def)
  ultimately show ?thesis using core unfolding bsd_core_def by simp
qed

lemma unat_pow: "j \<le> 63 \<Longrightarrow> unat (word_of_int (2 ^ j) :: u64) = 2 ^ j"
proof -
  assume "j \<le> 63"
  then have "(2 :: nat) ^ j < 2 ^ 64" by (intro power_strict_increasing) simp_all
  then have "unat (word_of_nat (2 ^ j) :: u64) = 2 ^ j" by (subst unat_of_nat) simp
  then show ?thesis by simp
qed

text \<open>How \<^verbatim>\<open>bsd_morecore\<close> splits the memory it takes: \<open>N\<close> blocks of the size of the bucket.\<close>

lemma bsd_split:
  assumes "bsd_md_ok md" "1 \<le> b" "b \<le> 26" and sz: "sz = (word_of_int (2 ^ (b + 4)) :: u64)" and psz: "psz = (word_of_int (pagesz md) :: u64)"
  obtains N where "0 < N" "16 dvd bsd_blk md b" "N * bsd_blk md b < 2 ^ 32"
    "unat (if sz < psz then psz else sz + psz) = N * bsd_blk md b"
    "\<And>off mem. link_blocks off sz (unat (if sz < psz then psz div sz else 1) - 1) mem =
       link_blocks off (word_of_nat (bsd_blk md b)) (N - 1) mem"
proof -
  obtain k where k: "6 \<le> k" "k \<le> 30" "pagesz md = 2 ^ k" using assms(1) by (auto simp: bsd_md_ok_def)
  have u: "unat sz = 2 ^ (b + 4)" "unat psz = 2 ^ k" using unat_pow assms(3) k by (simp_all add: sz psz)
  have lt: "sz < psz \<longleftrightarrow> b + 4 < k" using u by (simp add: word_less_nat_alt)
  have le: "(2 :: nat) ^ k \<le> 2 ^ 30" "(2 :: nat) ^ (b + 4) \<le> 2 ^ 30" using k assms(3) by (intro power_increasing; simp)+
  have d16: "(16 :: nat) dvd 2 ^ (b + 4)" "(16 :: nat) dvd 2 ^ k"
    using le_imp_power_dvd [of 4 "b + 4" "2 :: nat"] le_imp_power_dvd [of 4 k "2 :: nat"] k by simp_all
  show thesis
  proof (cases "b + 4 < k")
    case True
    let ?N = "2 ^ (k - (b + 4)) :: nat"
    have blk: "bsd_blk md b = 2 ^ (b + 4)" using True k by (simp add: bsd_blk_def nat_power_eq)
    have n: "?N * 2 ^ (b + 4) = 2 ^ k" using True by (simp add: power_add [symmetric])
    have "unat (psz div sz) = ?N"
      using u True by (simp add: unat_div power_diff)
    moreover have "word_of_nat (bsd_blk md b) = sz" by (simp add: blk sz)
    ultimately show thesis
      using that [of ?N] True lt blk n u d16 le by simp
  next
    case False
    have blk: "bsd_blk md b = 2 ^ (b + 4) + 2 ^ k" using False k by (simp add: bsd_blk_def nat_power_eq)
    have "unat (sz + psz) = unat sz + unat psz"
      using u le by (intro unat_add_no_overflow) simp
    then show thesis using that [of 1] False lt blk u d16 le by simp
  qed
qed

text \<open>The outcomes of \<^verbatim>\<open>bsd_morecore\<close>: nothing, or the next \<open>N\<close> blocks are linked and become the free list.\<close>

definition bsd_grown :: "dthread_shmref_t \<Rightarrow> nat \<Rightarrow> u64 \<Rightarrow> nat \<Rightarrow> shmem \<Rightarrow> shmem" where
  "bsd_grown arena b amt N m =
     (let md = bsd_mds m (arena_loc arena)
      in upd_bsd arena (\<lambda>md. md\<lparr>mycore := mycore md + amt, core_resid := core_resid md - amt, nextf := (nextf md)[b := mycore md]\<rparr>)
           (upd_bytes (dt_shmid arena) (link_blocks (mycore md) (word_of_nat (bsd_blk md b)) (N - 1)) m))"

lemma bsd_morecore_run:
  assumes "bsd_md_ok (bsd_mds m (arena_loc arena))" "md_self (amds m (arena_loc arena)) = arena" "1 \<le> b" "b \<le> 26"
  defines "blk \<equiv> bsd_blk (bsd_mds m (arena_loc arena)) b"
  obtains "bsd_morecore rs arena (int b) m = Inr m"
  | N amt where "bsd_morecore rs arena (int b) m = Inr (bsd_grown arena b amt N m)" "0 < N" "unat amt = N * blk"
      "amt \<le> core_resid (bsd_mds m (arena_loc arena))" "16 dvd blk" "N * blk < 2 ^ 32"
proof -
  let ?md = "bsd_mds m (arena_loc arena)"
  define sz psz where "sz = (word_of_int (2 ^ (b + 4)) :: u64)" and "psz = (word_of_int (pagesz ?md) :: u64)"
  define amt where "amt = (if sz < psz then psz else sz + psz)"
  define nb where "nb = (if sz < psz then psz div sz else 1)"
  obtain N where N: "0 < N" "16 dvd blk" "unat amt = N * blk"
      "\<And>off mem. link_blocks off sz (unat nb - 1) mem = link_blocks off (word_of_nat blk) (N - 1) mem" "N * blk < 2 ^ 32"
    using bsd_split [OF assms(1,3,4) sz_def psz_def] unfolding amt_def nb_def blk_def by metis
  have "nat (int b + 4) = b + 4" by simp
  then have bs: "BUCKSIZE (int b) = Inr (2 ^ (b + 4))" using assms(4) by (simp add: BUCKSIZE_def)
  have nb0: "\<not> (int b < minbucket ?md \<or> int b \<ge> int NBUCKETS)" using assms(1,3,4) by (simp add: bsd_md_ok_def)
  have "bsd_grown arena b amt N m = upd_bsd arena (\<lambda>md. md\<lparr>mycore := mycore md + amt, core_resid := core_resid md - amt,
      nextf := (nextf md)[b := mycore md]\<rparr>) (upd_bytes (dt_shmid arena) (link_blocks (mycore ?md) sz (unat nb - 1)) m)"
    unfolding bsd_grown_def Let_def upd_bytes_def N(4) blk_def by (rule refl)
  then have "bsd_morecore rs arena (int b) m =
      (if core_resid ?md < amt then Inr m
       else if dthread_shmref2ptr rs (Some \<lparr>dt_shmid = dt_shmid arena, dt_offset = mycore ?md, dt_length = amt\<rparr>) amt = None
       then Inr m else Inr (bsd_grown arena b amt N m))"
    unfolding bsd_morecore_def Let_def bs rbind.simps sz_def [symmetric] psz_def [symmetric] assms(2) if_not_P [OF nb0]
    by (cases "sz < psz") (simp_all add: amt_def nb_def)
  then show thesis using that N(1-3,5) by (auto simp: not_less split: if_splits)
qed

lemma bsd_grown_core:
  assumes "bsd_core rs arena (amds m (arena_loc arena)) (bsd_mds m (arena_loc arena)) (shm_bytes m (dt_shmid arena)) T F L"
    and "1 \<le> b" "b \<le> 26" "F b = []"
    and N: "0 < N" "unat amt = N * bsd_blk (bsd_mds m (arena_loc arena)) b" "amt \<le> core_resid (bsd_mds m (arena_loc arena))"
      "16 dvd bsd_blk (bsd_mds m (arena_loc arena)) b" "N * bsd_blk (bsd_mds m (arena_loc arena)) b < 2 ^ 32"
  shows "bsd_inv rs arena L (bsd_grown arena b amt N m)"
    "\<forall>q \<in> L. block_bytes q (shm_bytes (bsd_grown arena b amt N m) (dt_shmid arena)) = block_bytes q (shm_bytes m (dt_shmid arena))"
proof -
  let ?md = "bsd_mds m (arena_loc arena)" and ?mem = "shm_bytes m (dt_shmid arena)" and ?amd = "amds m (arena_loc arena)"
  define m1 where "m1 = bsd_grown arena b amt N m"
  let ?off = "mycore ?md" and ?blk = "bsd_blk ?md b"
  let ?mem' = "link_blocks ?off (word_of_nat ?blk) (N - 1) ?mem"
  let ?news = "map (\<lambda>i. unat ?off + i * ?blk) [0..<N]"
  have room: "N * ?blk \<le> unat (core_resid ?md)" using N(2,3) by (simp add: word_le_nat_alt)
  have top: "unat ?off + unat (core_resid ?md) \<le> unat (map_size (arena_map rs arena))"
    using assms(1) by (auto simp: bsd_core_def arena_ok_def)
  then have c': "unat (?off + amt) = unat ?off + N * ?blk"
    using unat_add_bounded [of ?off amt "map_size (arena_map rs arena)"] room N(2) by simp
  have d': "unat (core_resid ?md - amt) = unat (core_resid ?md) - N * ?blk" using N(2,3) by (simp add: unat_sub)
  have "?blk \<le> N * ?blk" using N(1) by simp
  then have "?blk < 2 ^ 32" using N(5) by (rule le_less_trans)
  then have "?blk < 2 ^ 64" by (rule less_trans) simp
  then have ublk: "unat (word_of_nat ?blk :: u64) = ?blk" by (simp add: unat_of_nat)
  have "bstart arena + 1056 \<le> unat ?off" using assms(1) unfolding bsd_core_def by simp
  then have nz: "?off \<noteq> 0" by auto
  have lim: "unat ?off + Suc (N - 1) * unat (word_of_nat ?blk :: u64) < 2 ^ 64"
  proof -
    have "unat ?off + N * ?blk < 2 ^ 64" using top room unat64_less(1) [of "map_size (arena_map rs arena)"] by linarith
    then show ?thesis using N(1) ublk by simp
  qed
  have chain: "bsd_chain ?mem' ?off ?news"
    using link_blocks_chain [OF lim _ nz] bsd_blk_ge [OF assms(2), of ?md] ublk N(1) by simp
  have keep: "get_bytes a n ?mem' = get_bytes a n ?mem" if "a + n \<le> unat ?off" for a n
    using link_blocks_apart [OF _ lim, of a n] bsd_blk_ge [OF assms(2), of ?md] ublk that by (simp add: apart_def)
  have same: "rd64 ?mem' a = rd64 ?mem a" if "T a = Some c" for a c
    using bsd_carvedD(4,6) [OF assms(1) that] by (intro rd_get_bytes_cong keep) simp
  have "bsd_core rs arena ?amd (?md\<lparr>mycore := ?off + amt, core_resid := core_resid ?md - amt, nextf := (nextf ?md)[b := ?off]\<rparr>)
      ?mem' (\<lambda>a. if a \<in> set ?news then Some b else T a) (F(b := ?news)) L"
    by (rule bsd_core_carve [OF assms(1-4) refl N(1) room c' d' N(4) chain same])
  moreover have b1: "shm_bytes m1 (dt_shmid arena) = ?mem'"
    by (simp add: m1_def bsd_grown_def Let_def upd_bsd_def upd_bytes_def)
  moreover have "bsd_mds m1 (arena_loc arena) =
      ?md\<lparr>mycore := ?off + amt, core_resid := core_resid ?md - amt, nextf := (nextf ?md)[b := ?off]\<rparr>" "amds m1 = amds m"
    by (simp_all add: m1_def bsd_grown_def Let_def upd_bsd_def upd_bytes_def)
  ultimately have "bsd_inv rs arena L m1" unfolding bsd_inv_def by metis
  moreover have "block_bytes q (shm_bytes m1 (dt_shmid arena)) = block_bytes q ?mem" if qL: "q \<in> L" for q
  proof -
    obtain c where c: "bsd_live arena ?md ?mem T F q c" by (rule bsd_liveE [OF assms(1) qL])
    then have "bstart q + blen q \<le> unat ?off" using bsd_carvedD(4) [OF assms(1), of "bstart q - 16" c] by (auto simp: bsd_live_def)
    then show ?thesis using keep by (simp add: b1 block_bytes_def)
  qed
  ultimately show "bsd_inv rs arena L (bsd_grown arena b amt N m)"
      "\<forall>q \<in> L. block_bytes q (shm_bytes (bsd_grown arena b amt N m) (dt_shmid arena)) = block_bytes q (shm_bytes m (dt_shmid arena))"
    by (simp_all add: m1_def)
qed

lemma bsd_morecore_core:
  assumes "bsd_core rs arena (amds m (arena_loc arena)) (bsd_mds m (arena_loc arena)) (shm_bytes m (dt_shmid arena)) T F L"
    and "1 \<le> b" "b \<le> 26" "F b = []"
  shows "\<exists>m'. bsd_morecore rs arena (int b) m = Inr m' \<and> amds m' = amds m \<and> bsd_inv rs arena L m' \<and>
    pagesz (bsd_mds m' (arena_loc arena)) = pagesz (bsd_mds m (arena_loc arena)) \<and>
    (\<forall>q \<in> L. block_bytes q (shm_bytes m' (dt_shmid arena)) = block_bytes q (shm_bytes m (dt_shmid arena)))"
proof -
  have ok: "bsd_md_ok (bsd_mds m (arena_loc arena))" "md_self (amds m (arena_loc arena)) = arena"
    using assms(1) by (simp_all add: bsd_core_def arena_ok_def)
  have inv0: "bsd_inv rs arena L m" using assms(1) by (auto simp: bsd_inv_def)
  show ?thesis
  proof (cases rule: bsd_morecore_run [OF ok assms(2,3), of rs])
    case 1
    then show ?thesis using inv0 by simp
  next
    case (2 N amt)
    have "amds (bsd_grown arena b amt N m) = amds m" "pagesz (bsd_mds (bsd_grown arena b amt N m) (arena_loc arena)) = pagesz (bsd_mds m (arena_loc arena))"
      by (simp_all add: bsd_grown_def Let_def upd_bsd_def upd_bytes_def)
    then show ?thesis using 2(1) bsd_grown_core [OF assms 2(2-6)] by simp
  qed
qed

subsection \<open>The choice of the bucket\<close>

lemma unat_of_int: "0 \<le> x \<Longrightarrow> x < 2 ^ 64 \<Longrightarrow> unat (word_of_int x :: u64) = nat x"
  by (simp add: unat_eq_nat_uint uint_word_of_int)

lemma bsd_pick_run:
  assumes "b \<le> u" "u \<le> 59" "unat sz \<le> cap u"
    and cap: "\<And>c. b \<le> c \<Longrightarrow> c \<le> u \<Longrightarrow> unat (word_of_int (2 ^ (c + 4)) + n :: u64) = cap c"
  shows "\<exists>c. b \<le> c \<and> c \<le> u \<and> bsd_pick sz n (word_of_int (2 ^ (b + 4))) (int b) = Some (int c) \<and>
    unat sz \<le> cap c \<and> (c = b \<or> cap (c - 1) < unat sz)"
  using assms
proof (induction "u - b" arbitrary: b)
  case 0
  then have "\<not> sz > word_of_int (2 ^ (b + 4)) + n" by (simp add: word_less_nat_alt)
  then show ?case using 0 by (subst bsd_pick.simps) (auto intro!: exI [of _ b])
next
  case (Suc d)
  let ?amt = "word_of_int (2 ^ (b + 4)) :: u64"
  have c: "unat (?amt + n) = cap b" using Suc.prems(1,4) by simp
  show ?case
  proof (cases "sz > ?amt + n")
    case False
    then have "bsd_pick sz n ?amt (int b) = Some (int b)" by (subst bsd_pick.simps) simp
    moreover have "unat sz \<le> cap b" using False c by (simp add: word_less_nat_alt)
    ultimately show ?thesis using Suc.prems(1) by blast
  next
    case True
    have nxt: "push_bit 1 ?amt = word_of_int (2 ^ (Suc b + 4))" by (simp add: push_bit_eq_mult power_add)
    have lt: "b < u" using Suc.hyps(2) by simp
    have "unat (word_of_int (2 ^ (Suc b + 4)) :: u64) = 2 ^ (Suc b + 4)" using lt Suc.prems(2) by (intro unat_pow) simp
    then have "(word_of_int (2 ^ (Suc b + 4)) :: u64) \<noteq> 0" by (metis power_not_zero unsigned_0 zero_neq_numeral)
    then have step: "bsd_pick sz n ?amt (int b) = bsd_pick sz n (word_of_int (2 ^ (Suc b + 4))) (int (Suc b))"
      unfolding nxt [symmetric] using True by (subst bsd_pick.simps) (simp add: add.commute)
    have "\<exists>c. Suc b \<le> c \<and> c \<le> u \<and> bsd_pick sz n (word_of_int (2 ^ (Suc b + 4))) (int (Suc b)) = Some (int c) \<and>
        unat sz \<le> cap c \<and> (c = Suc b \<or> cap (c - 1) < unat sz)"
      by (rule Suc.hyps(1)) (use Suc.hyps(2) Suc.prems lt in simp_all)
    moreover have "cap b < unat sz" using True c by (simp add: word_less_nat_alt)
    ultimately show ?thesis unfolding step by force
  qed
qed

lemma bsd_blk_mono: "d \<le> e \<Longrightarrow> bsd_blk md d \<le> bsd_blk md e"
proof -
  assume "d \<le> e"
  then have le: "(2 :: nat) ^ (d + 4) \<le> 2 ^ (e + 4)" by (intro power_increasing) simp_all
  have "(if x < p then x else x + p) \<le> (if y < p then y else y + p)" if "x \<le> y" for x y p :: nat using that by auto
  from this [OF le] show ?thesis unfolding bsd_blk_def .
qed

text \<open>The bucket chosen for a request is the smallest one whose blocks are large enough.\<close>

lemma unat_pow_sub: "c \<le> 26 \<Longrightarrow> unat (word_of_int (2 ^ (c + 4) - 16) :: u64) = 2 ^ (c + 4) - 16"
proof -
  assume "c \<le> 26"
  then have pw: "(16 :: nat) \<le> 2 ^ (c + 4)" "(2 :: nat) ^ (c + 4) \<le> 2 ^ 30"
    using power_increasing [of 4 "c + 4" "2 :: nat"] power_increasing [of "c + 4" 30 "2 :: nat"] by simp_all
  have i: "(2 :: int) ^ (c + 4) - 16 = int (2 ^ (c + 4) - 16)" using pw(1) by (simp add: of_nat_diff)
  have "2 ^ (c + 4) - 16 < (2 :: nat) ^ 64" using pw(2) by simp
  then have "unat (word_of_nat (2 ^ (c + 4) - 16) :: u64) = 2 ^ (c + 4) - 16" by (subst unat_of_nat) simp
  then show ?thesis unfolding i by simp
qed

lemma bsd_bucket_small:
  assumes "bsd_md_ok md" "pagesz md = 2 ^ (j + 5)" "1 \<le> j" "j \<le> 25" "unat sz + 16 \<le> 2 ^ (j + 4)"
  shows "\<exists>c. 1 \<le> c \<and> c \<le> 26 \<and> bsd_bucket md sz = Inr (Some (int c)) \<and> unat sz + 16 \<le> bsd_blk md c \<and>
    (c = 1 \<or> bsd_blk md (c - 1) < unat sz + 16)"
proof -
  have md: "oversize md = 16" "minbucket md = 1" using assms(1) by (simp_all add: bsd_md_ok_def)
  have blk: "bsd_blk md c = 2 ^ (c + 4)" if "c \<le> j" for c
    using that assms(2) by (simp add: bsd_blk_def nat_power_eq)
  have cap: "unat (word_of_int (2 ^ (c + 4)) + word_of_int (- 16) :: u64) = 2 ^ (c + 4) - 16" if "c \<le> j" for c
    using unat_pow_sub [of c] that assms(4) by simp
  have half: "pagesz md div 2 - oversize md = 2 ^ (j + 4) - 16" using assms(2) md by (simp add: power_add)
  have h: "unat (word_of_int (2 ^ (j + 4) - 16) :: u64) = 2 ^ (j + 4) - 16" using assms(4) by (intro unat_pow_sub) simp
  have branch: "sz \<le> word_of_int (pagesz md div 2 - oversize md)"
    unfolding half word_le_nat_alt h using assms(5) by linarith
  have "\<exists>c. 1 \<le> c \<and> c \<le> j \<and> bsd_pick sz (word_of_int (- 16)) (word_of_int (2 ^ (1 + 4))) (int 1) = Some (int c) \<and>
      unat sz \<le> 2 ^ (c + 4) - 16 \<and> (c = 1 \<or> 2 ^ (c - 1 + 4) - 16 < unat sz)"
    using assms(3-5) by (intro bsd_pick_run cap) simp_all
  then obtain c where c: "1 \<le> c" "c \<le> j" "bsd_pick sz (word_of_int (- 16)) (word_of_int (2 ^ (1 + 4))) (int 1) = Some (int c)"
      "unat sz \<le> 2 ^ (c + 4) - 16" "c = 1 \<or> 2 ^ (c - 1 + 4) - 16 < unat sz" by blast
  have "bsd_bucket md sz = Inr (Some (int c))"
    using branch md c(3) by (simp add: bsd_bucket_def BUCKSIZE_def)
  moreover have "(16 :: nat) \<le> 2 ^ (c + 4)" using power_increasing [of 4 "c + 4" "2 :: nat"] by simp
  then have "unat sz + 16 \<le> bsd_blk md c" using c(2,4) blk by simp
  moreover have "c = 1 \<or> bsd_blk md (c - 1) < unat sz + 16" using c(2,5) blk [of "c - 1"] by auto
  ultimately show ?thesis using c(1,2) assms(4) by (intro exI [of _ c]) simp
qed

lemma bsd_bucket_large:
  assumes "bsd_md_ok md" "pagesz md = 2 ^ (j + 5)" "1 \<le> j" "j \<le> 25" "2 ^ (j + 4) < unat sz + 16" "unat sz \<le> 2 ^ (u + 4)" "26 \<le> u" "u \<le> 59"
  shows "\<exists>c. 1 \<le> c \<and> c \<le> u \<and> bsd_bucket md sz = Inr (Some (int c)) \<and> unat sz + 16 \<le> bsd_blk md c \<and>
    (c = 1 \<or> bsd_blk md (c - 1) < unat sz + 16)"
proof -
  have md: "oversize md = 16" "minbucket md = 1" using assms(1) by (simp_all add: bsd_md_ok_def)
  have pb: "pagebucket md = int (j + 1)"
  proof -
    obtain k where k: "pagesz md = 2 ^ k" "pagebucket md = int k - 4" using assms(1) by (auto simp: bsd_md_ok_def)
    then have "k = j + 5" using assms(2) power_inject_exp [of "2 :: int" k "j + 5"] by simp
    then show ?thesis using k(2) by simp
  qed
  have blk: "bsd_blk md c = 2 ^ (c + 4) + 2 ^ (j + 5)" if "j + 1 \<le> c" for c
    using that assms(2) by (simp add: bsd_blk_def nat_power_eq)
  have page: "(32 :: nat) \<le> 2 ^ (j + 5)" "(2 :: nat) ^ (j + 5) \<le> 2 ^ 30"
    using power_increasing [of 5 "j + 5" "2 :: nat"] power_increasing [of "j + 5" 30 "2 :: nat"] assms(4) by simp_all
  have p16: "unat (word_of_int (2 ^ (j + 5) - 16) :: u64) = 2 ^ (j + 5) - 16"
    using unat_pow_sub [of "j + 1"] assms(4) by (simp add: add.commute)
  have cap: "unat (word_of_int (2 ^ (c + 4)) + word_of_int (2 ^ (j + 5) - 16) :: u64) = 2 ^ (c + 4) + (2 ^ (j + 5) - 16)"
    if "c \<le> 59" for c
  proof -
    have "unat (word_of_int (2 ^ (c + 4)) :: u64) = 2 ^ (c + 4)" using that by (intro unat_pow) simp
    moreover have "(2 :: nat) ^ (c + 4) \<le> 2 ^ 63" using that by (intro power_increasing) simp_all
    ultimately show ?thesis using p16 page by (subst unat_add_no_overflow) simp_all
  qed
  have half: "pagesz md div 2 - oversize md = 2 ^ (j + 4) - 16" using assms(2) md by (simp add: power_add)
  have h: "unat (word_of_int (2 ^ (j + 4) - 16) :: u64) = 2 ^ (j + 4) - 16" using assms(4) by (intro unat_pow_sub) simp
  have "(16 :: nat) \<le> 2 ^ (j + 4)" using power_increasing [of 4 "j + 4" "2 :: nat"] by simp
  then have branch: "\<not> sz \<le> word_of_int (pagesz md div 2 - oversize md)"
    unfolding half word_le_nat_alt h using assms(5) by linarith
  have "\<exists>c. j + 1 \<le> c \<and> c \<le> u \<and>
      bsd_pick sz (word_of_int (2 ^ (j + 5) - 16)) (word_of_int (2 ^ ((j + 1) + 4))) (int (j + 1)) = Some (int c) \<and>
      unat sz \<le> 2 ^ (c + 4) + (2 ^ (j + 5) - 16) \<and> (c = j + 1 \<or> 2 ^ (c - 1 + 4) + (2 ^ (j + 5) - 16) < unat sz)"
    using assms(4,6-8) by (intro bsd_pick_run cap) simp_all
  then obtain c where c: "j + 1 \<le> c" "c \<le> u"
      "bsd_pick sz (word_of_int (2 ^ (j + 5) - 16)) (word_of_int (2 ^ ((j + 1) + 4))) (int (j + 1)) = Some (int c)"
      "unat sz \<le> 2 ^ (c + 4) + (2 ^ (j + 5) - 16)" "c = j + 1 \<or> 2 ^ (c - 1 + 4) + (2 ^ (j + 5) - 16) < unat sz" by blast
  have five: "(j + 1) + 4 = j + 5" by simp
  have "bsd_bucket md sz = Inr (Some (int c))"
    unfolding bsd_bucket_def if_not_P [OF branch] unfolding assms(2) md pb c(3) [unfolded five] by (rule refl)
  moreover have "unat sz + 16 \<le> bsd_blk md c" using c(1,4) blk page(1) by simp
  moreover have "c = 1 \<or> bsd_blk md (c - 1) < unat sz + 16"
  proof (cases "c = j + 1")
    case True
    then have "bsd_blk md (c - 1) = 2 ^ (j + 4)" using assms(2) by (simp add: bsd_blk_def nat_power_eq)
    then show ?thesis using assms(5) by simp
  next
    case False
    then show ?thesis using c(1,5) blk [of "c - 1"] page(1) by simp
  qed
  ultimately show ?thesis using c(1,2) by (intro exI [of _ c]) simp
qed

lemma bsd_bucket_picks:
  assumes "bsd_md_ok md" "unat sz \<le> 2 ^ (u + 4)" "26 \<le> u" "u \<le> 59"
  shows "\<exists>c. 1 \<le> c \<and> c \<le> u \<and> bsd_bucket md sz = Inr (Some (int c)) \<and> unat sz + 16 \<le> bsd_blk md c \<and>
    (\<forall>d. 1 \<le> d \<and> d < c \<longrightarrow> bsd_blk md d < unat sz + 16)"
proof -
  obtain k where k: "6 \<le> k" "k \<le> 30" "pagesz md = 2 ^ k" using assms(1) by (auto simp: bsd_md_ok_def)
  define j where "j = k - 5"
  have j: "pagesz md = 2 ^ (j + 5)" "1 \<le> j" "j \<le> 25" using k by (simp_all add: j_def)
  have "\<exists>c. 1 \<le> c \<and> c \<le> u \<and> bsd_bucket md sz = Inr (Some (int c)) \<and> unat sz + 16 \<le> bsd_blk md c \<and>
    (c = 1 \<or> bsd_blk md (c - 1) < unat sz + 16)"
  proof (cases "unat sz + 16 \<le> 2 ^ (j + 4)")
    case True
    then show ?thesis using bsd_bucket_small [OF assms(1) j, of sz] assms(3) by (meson order_trans)
  next
    case False
    then show ?thesis using bsd_bucket_large [OF assms(1) j, of sz u] assms(2-4) by simp
  qed
  then obtain c where c: "1 \<le> c" "c \<le> u" "bsd_bucket md sz = Inr (Some (int c))" "unat sz + 16 \<le> bsd_blk md c"
      "c = 1 \<or> bsd_blk md (c - 1) < unat sz + 16"
    by blast
  have "bsd_blk md d < unat sz + 16" if "1 \<le> d" "d < c" for d
  proof -
    have "bsd_blk md d \<le> bsd_blk md (c - 1)" using that by (intro bsd_blk_mono) simp
    then show ?thesis using c(5) that by auto
  qed
  then show ?thesis using c(1-4) by (intro exI [of _ c]) simp
qed

lemma bsd_bucket_fits:
  assumes "bsd_md_ok md" "unat sz \<le> 2 ^ 30"
  shows "\<exists>c. 1 \<le> c \<and> c \<le> 26 \<and> bsd_bucket md sz = Inr (Some (int c)) \<and> unat sz + 16 \<le> bsd_blk md c \<and>
    (\<forall>d. 1 \<le> d \<and> d < c \<longrightarrow> bsd_blk md d < unat sz + 16)"
  using bsd_bucket_picks [OF assms(1), of sz 26] assms(2) by simp

end
