(* ===== verification/Dt_Bsd_Store.thy ===== *)
theory Dt_Bsd_Store
  imports Dt_Bsd
begin

text \<open>
  The "bsd" driver as a store of blocks: its operations keep the invariant of the arena,
  so that it implements the interface \<open>block_store\<close>; reallocation; and what the shift in
  \<^verbatim>\<open>BUCKSIZE\<close> does to large requests and to finalization.
\<close>

subsection \<open>Allocation and release\<close>

text \<open>The state of an arena, and what an operation must leave as it was.\<close>

abbreviation bsd_state :: "shmrs \<Rightarrow> dthread_shmref_t \<Rightarrow> shmem \<Rightarrow> (nat \<Rightarrow> nat option) \<Rightarrow> (nat \<Rightarrow> nat list) \<Rightarrow> dthread_shmref_t set \<Rightarrow> bool" where
  "bsd_state rs arena m T F L \<equiv>
     bsd_core rs arena (amds m (arena_loc arena)) (bsd_mds m (arena_loc arena)) (shm_bytes m (dt_shmid arena)) T F L"

definition blocks_kept :: "dthread_shmref_t \<Rightarrow> dthread_shmref_t set \<Rightarrow> shmem \<Rightarrow> shmem \<Rightarrow> bool" where
  "blocks_kept arena L m m' \<longleftrightarrow>
     (\<forall>q \<in> L. block_bytes q (shm_bytes m' (dt_shmid arena)) = block_bytes q (shm_bytes m (dt_shmid arena)))"

lemma blocks_kept_trans: "blocks_kept arena L m m' \<Longrightarrow> blocks_kept arena L m' m'' \<Longrightarrow> blocks_kept arena L m m''"
  by (simp add: blocks_kept_def)

lemma bsd_block_ptr:
  fixes w :: u64
  assumes "bsd_state rs arena m T F L" "T a = Some b" "unat w = a" "dt_shmid q = dt_shmid arena"
    "bstart q = a \<or> bstart q = a + 16 \<and> blen q + 16 \<le> bsd_blk (bsd_mds m (arena_loc arena)) b" "bstart q = a \<Longrightarrow> blen q = 16"
    "len = 0 \<or> len = dt_length q"
  shows "dthread_shmref2ptr rs (Some q) len = Some (mapping (arena_map rs arena) + dt_offset q)"
    "unat (w + 16) = a + 16"
proof -
  let ?md = "bsd_mds m (arena_loc arena)"
  note c = bsd_carvedD [OF assms(1,2)]
  have ok: "unat (dt_shmid arena) < nshmsrc rs" "unat (mycore ?md) \<le> unat (map_size (arena_map rs arena))"
    using assms(1) by (auto simp: bsd_core_def arena_ok_def)
  show "unat (w + 16) = a + 16"
    using unat_add_bounded [of w 16 "mycore ?md"] c(4,6) assms(3) by simp
  have "bstart q < unat (map_size (arena_map rs arena))" "bstart q + blen q \<le> unat (map_size (arena_map rs arena))"
    using assms(5,6) c(4,6) ok(2) by auto
  then have "dt_offset q < map_size (arena_map rs arena)" "dt_length q \<le> map_size (arena_map rs arena) - dt_offset q"
    by (simp_all add: word_less_nat_alt word_le_nat_alt unat_sub bstart_def blen_def)
  then show "dthread_shmref2ptr rs (Some q) len = Some (mapping (arena_map rs arena) + dt_offset q)"
    using ok(1) assms(4,7) by (auto simp: dthread_shmref2ptr_def Let_def not_less not_le)
qed

lemma bsd_header_write_keeps:
  assumes "bsd_state rs arena m T F L" "T a = Some b"
    "shm_bytes m' (dt_shmid arena) = wr64 a v (shm_bytes m (dt_shmid arena))"
  shows "blocks_kept arena L m m'"
  unfolding blocks_kept_def block_bytes_def assms(3)
  using bsd_live_header_apart [OF assms(1) _ assms(2)] by (simp add: get_wr_apart)

lemma bsd_take_inv:
  assumes "bsd_inv rs arena L m" "b < NBUCKETS" "nextf (bsd_mds m (arena_loc arena)) ! b \<noteq> 0"
    "unat n + 16 \<le> bsd_blk (bsd_mds m (arena_loc arena)) b"
  shows "\<exists>p r m'. bsd_take rs arena n b m = (Some (p, r), m') \<and> r \<notin> L \<and> dt_shmid r = dt_shmid arena \<and> blen r = unat n \<and>
    p = mapping (arena_map rs arena) + dt_offset r \<and> bsd_inv rs arena (insert r L) m' \<and> blocks_kept arena L m m' \<and> amds m' = amds m"
proof -
  let ?md = "bsd_mds m (arena_loc arena)" and ?amd = "amds m (arena_loc arena)" and ?mem = "shm_bytes m (dt_shmid arena)"
  obtain T F where core: "bsd_state rs arena m T F L" using assms(1) by (auto simp: bsd_inv_def)
  define w where "w = nextf ?md ! b"
  have f: "bsd_chain ?mem w (F b)" "\<forall>a \<in> set (F b). T a = Some b" using core assms(2) by (simp_all add: bsd_core_def w_def)
  then obtain as where F: "F b = unat w # as" using assms(3) by (cases "F b") (auto simp: w_def)
  have T: "T (unat w) = Some b" using f(2) F by simp
  let ?r = "\<lparr>dt_shmid = dt_shmid arena, dt_offset = w + 16, dt_length = n\<rparr>"
  have ptr: "dthread_shmref2ptr rs (Some \<lparr>dt_shmid = dt_shmid arena, dt_offset = w, dt_length = 16\<rparr>) 16 =
      Some (mapping (arena_map rs arena) + w)" and off: "unat (w + 16) = unat w + 16"
    using bsd_block_ptr [OF core T refl, of "\<lparr>dt_shmid = dt_shmid arena, dt_offset = w, dt_length = 16\<rparr>" 16]
    by (simp_all add: bstart_def blen_def)
  define m' where "m' = upd_bsd arena (\<lambda>md. md\<lparr>nextf := (nextf md)[b := rd64 ?mem (unat w)],
      nmalloc := (nmalloc md)[b := nmalloc md ! b + 1]\<rparr>) (upd_bytes (dt_shmid arena) (wr64 (unat w) (OV_MAGIDX (int b))) m)"
  have ok: "oversize ?md = 16" "md_self ?amd = arena" using core by (simp_all add: bsd_core_def bsd_md_ok_def arena_ok_def)
  have run: "bsd_take rs arena n b m = (Some (mapping (arena_map rs arena) + w + 16, ?r), m')"
    using ok ptr by (simp add: bsd_take_def Let_def w_def [symmetric] m'_def)
  have r: "bstart ?r = unat w + 16" "blen ?r = unat n" using off by (simp_all add: bstart_def blen_def)
  note pop = bsd_core_pop(1) [OF core assms(2) F, where r = ?r and x = "nmalloc ?md ! b + 1"]
    bsd_core_pop(2) [OF core assms(2) F, where r = ?r]
  have "bsd_inv rs arena (insert ?r L) m'"
    unfolding bsd_inv_def using pop(1) r assms(4) by (auto simp: m'_def upd_bsd_def upd_bytes_def)
  moreover have "?r \<notin> L" using pop(2) r assms(4) by simp
  moreover have "blocks_kept arena L m m'"
    by (rule bsd_header_write_keeps [OF core T]) (simp add: m'_def upd_bsd_def upd_bytes_def)
  moreover have "amds m' = amds m" by (simp add: m'_def upd_bsd_def upd_bytes_def)
  ultimately show ?thesis using run r by (simp add: add.assoc)
qed

lemma bsd_malloc_inv:
  assumes "bsd_inv rs arena L m" "bsd_fits n"
  shows "\<exists>res m'. bsd_malloc rs arena n m = Inr (res, m') \<and> amds m' = amds m \<and> blocks_kept arena L m m' \<and>
    (case res of
       None \<Rightarrow> bsd_inv rs arena L m'
     | Some (p, r) \<Rightarrow> r \<notin> L \<and> dt_shmid r = dt_shmid arena \<and> blen r = unat n \<and> p = mapping (arena_map rs arena) + dt_offset r \<and>
         bsd_inv rs arena (insert r L) m')"
proof -
  let ?md = "bsd_mds m (arena_loc arena)"
  obtain T F where core: "bsd_state rs arena m T F L" using assms(1) by (auto simp: bsd_inv_def)
  then have md: "bsd_md_ok ?md" by (simp add: bsd_core_def)
  obtain b where b: "1 \<le> b" "b \<le> 26" "bsd_bucket ?md n = Inr (Some (int b))" "unat n + 16 \<le> bsd_blk ?md b"
    using bsd_bucket_fits [OF md] assms(2) unfolding bsd_fits_def by blast
  have nb: "b < NBUCKETS" using b by simp
  show ?thesis
  proof (cases "nextf ?md ! b = 0")
    case False
    then have "bsd_malloc rs arena n m = Inr (bsd_take rs arena n b m)" using b by (simp add: bsd_malloc_def)
    then show ?thesis using bsd_take_inv [OF assms(1) nb False b(4)] by fastforce
  next
    case True
    have "bsd_chain (shm_bytes m (dt_shmid arena)) (nextf ?md ! b) (F b)" using core nb by (simp add: bsd_core_def)
    then have "F b = []" using True by (cases "F b") auto
    then obtain m1 where m1: "bsd_morecore rs arena (int b) m = Inr m1" "amds m1 = amds m" "bsd_inv rs arena L m1" "blocks_kept arena L m m1"
        "pagesz (bsd_mds m1 (arena_loc arena)) = pagesz ?md"
      using bsd_morecore_core [OF core b(1,2)] unfolding blocks_kept_def by blast
    have run: "bsd_malloc rs arena n m =
        Inr (if nextf (bsd_mds m1 (arena_loc arena)) ! b = 0 then (None, m1) else bsd_take rs arena n b m1)"
      using b True m1(1) by (simp add: bsd_malloc_def)
    have blk: "bsd_blk (bsd_mds m1 (arena_loc arena)) = bsd_blk ?md" using m1(5) by (simp add: bsd_blk_def fun_eq_iff)
    show ?thesis
    proof (cases "nextf (bsd_mds m1 (arena_loc arena)) ! b = 0")
      case True
      then show ?thesis using run m1 by simp
    next
      case False
      obtain p r m' where t: "bsd_take rs arena n b m1 = (Some (p, r), m')" "r \<notin> L" "dt_shmid r = dt_shmid arena" "blen r = unat n"
          "p = mapping (arena_map rs arena) + dt_offset r" "bsd_inv rs arena (insert r L) m'" "blocks_kept arena L m1 m'" "amds m' = amds m1"
        using bsd_take_inv [OF m1(3) nb False b(4) [folded blk]] by blast
      then show ?thesis using run False m1 blocks_kept_trans [OF m1(4) t(7)] by simp
    qed
  qed
qed

text \<open>A block in use passes the checks of \<^verbatim>\<open>bsd_free\<close> and \<^verbatim>\<open>bsd_realloc\<close>.\<close>

lemma bsd_block_checked:
  assumes "bsd_state rs arena m T F L" "r \<in> L"
    "bsd_live arena (bsd_mds m (arena_loc arena)) (shm_bytes m (dt_shmid arena)) T F r b"
  shows "dthread_shmref2ptr rs (Some r) 0 = Some (mapping (arena_map rs arena) + dt_offset r)"
    "\<not> dt_offset r < min_uoffset (amds m (arena_loc arena)) + 16" "unat (dt_offset r - 16) = bstart r - 16" "1 \<le> b" "b \<le> 26"
    "OV_INDEX (rd64 (shm_bytes m (dt_shmid arena)) (bstart r - 16)) = int b"
    "OV_MAGIC (rd64 (shm_bytes m (dt_shmid arena)) (bstart r - 16)) = BSD_MAGIC" "dt_shmid r = dt_shmid arena"
proof -
  let ?amd = "amds m (arena_loc arena)" and ?a = "bstart r - 16"
  have l: "T ?a = Some b" "bstart r = ?a + 16" using assms(3) by (simp_all add: bsd_live_def)
  note c = bsd_carvedD [OF assms(1) l(1)]
  show uw: "unat (dt_offset r - 16) = ?a" using l(2) by (simp add: unat_sub word_le_nat_alt bstart_def)
  show "dthread_shmref2ptr rs (Some r) 0 = Some (mapping (arena_map rs arena) + dt_offset r)"
    using bsd_block_ptr(1) [OF assms(1) l(1) uw, of r 0] assms(3) l(2) by (auto simp: bsd_live_def)
  have "unat (min_uoffset ?amd + 16) = unat (min_uoffset ?amd) + 16"
    using unat_add_bounded [of "min_uoffset ?amd" 16 "dt_offset r"] c(3) l(2) by (simp add: bstart_def)
  then show "\<not> dt_offset r < min_uoffset ?amd + 16" using c(3) l(2) by (simp add: word_less_nat_alt bstart_def)
  show "1 \<le> b" "b \<le> 26" by (rule c)+
  show "OV_INDEX (rd64 (shm_bytes m (dt_shmid arena)) ?a) = int b" "OV_MAGIC (rd64 (shm_bytes m (dt_shmid arena)) ?a) = BSD_MAGIC"
      "dt_shmid r = dt_shmid arena"
    using assms(3) bsd_magidx [OF c(2)] by (simp_all add: bsd_live_def)
qed

lemma bsd_free_inv:
  assumes "bsd_inv rs arena L m" "r \<in> L"
  shows "\<exists>m'. bsd_free rs arena r m = Inr m' \<and> bsd_inv rs arena (L - {r}) m' \<and> blocks_kept arena L m m' \<and> amds m' = amds m"
proof -
  let ?md = "bsd_mds m (arena_loc arena)" and ?amd = "amds m (arena_loc arena)" and ?mem = "shm_bytes m (dt_shmid arena)"
  obtain T F where core: "bsd_state rs arena m T F L" using assms(1) by (auto simp: bsd_inv_def)
  obtain b where b: "bsd_live arena ?md ?mem T F r b" by (rule bsd_liveE [OF core assms(2)])
  let ?a = "bstart r - 16"
  note ck = bsd_block_checked [OF core assms(2) b]
  have T: "T ?a = Some b" using b by (simp add: bsd_live_def)
  note c = bsd_carvedD [OF core T]
  define w where "w = dt_offset r - 16"
  have uw: "unat w = ?a" using ck(3) by (simp add: w_def)
  have ok: "oversize ?md = 16" "length (nextf ?md) = NBUCKETS" using core by (simp_all add: bsd_core_def bsd_md_ok_def)
  have nb: "\<not> b \<ge> NBUCKETS" using c(2) by simp
  define m' where "m' = upd_bsd arena (\<lambda>md. md\<lparr>nextf := (nextf md)[b := w], nmalloc := (nmalloc md)[b := nmalloc md ! b - 1]\<rparr>)
      (upd_bytes (dt_shmid arena) (wr64 ?a (nextf ?md ! b)) m)"
  have run: "bsd_free rs arena r m = Inr m'"
    using ck ok nb by (simp add: bsd_free_def Let_def w_def m'_def)
  have nz: "w \<noteq> 0" using uw c(3) core by (auto simp: bsd_core_def)
  have "bsd_inv rs arena (L - {r}) m'"
    unfolding bsd_inv_def using bsd_core_push [OF core assms(2) b uw nz, of "nmalloc ?md ! b - 1"]
    by (auto simp: m'_def upd_bsd_def upd_bytes_def)
  moreover have "blocks_kept arena L m m'"
    by (rule bsd_header_write_keeps [OF core T]) (simp add: m'_def upd_bsd_def upd_bytes_def)
  ultimately show ?thesis using run by (simp add: m'_def upd_bsd_def upd_bytes_def)
qed

subsection \<open>The driver as a store of blocks\<close>

definition bsd_alloc :: "shmrs \<Rightarrow> dthread_shmref_t \<Rightarrow> u64 \<Rightarrow> shmem \<Rightarrow> dthread_shmref_t option \<times> shmem" where
  "bsd_alloc rs arena n m = (case bsd_malloc rs arena n m of Inl _ \<Rightarrow> (None, m) | Inr (p, m') \<Rightarrow> (map_option snd p, m'))"

definition bsd_release :: "shmrs \<Rightarrow> dthread_shmref_t \<Rightarrow> dthread_shmref_t \<Rightarrow> shmem \<Rightarrow> shmem" where
  "bsd_release rs arena r m = (case bsd_free rs arena r m of Inl _ \<Rightarrow> m | Inr m' \<Rightarrow> m')"

lemma bsd_put_inv:
  assumes "bsd_inv rs arena L m" "r \<in> L" "length xs \<le> blen r"
  shows "bsd_inv rs arena L (arena_put arena (bstart r) xs m)"
proof -
  let ?mem = "shm_bytes m (dt_shmid arena)"
  obtain T F where core: "bsd_state rs arena m T F L" using assms(1) by (auto simp: bsd_inv_def)
  have "rd64 (put_bytes (bstart r) xs ?mem) a = rd64 ?mem a" if "T a = Some b" for a b
  proof -
    have "apart a 8 (bstart r) (blen r)" using bsd_live_header_apart [OF core assms(2) that] apart_sym by simp
    then have "apart a 8 (bstart r) (length xs)" using assms(3) by (auto simp: apart_def)
    then show ?thesis by (simp add: rd_put_apart)
  qed
  then have "bsd_core rs arena (amds m (arena_loc arena)) (bsd_mds m (arena_loc arena)) (put_bytes (bstart r) xs ?mem) T F L"
    using bsd_core_mem [OF core] by blast
  then show ?thesis unfolding bsd_inv_def by (auto simp: arena_put_def upd_bytes_def)
qed

lemma bsd_alloc_cases:
  assumes "bsd_inv rs arena L m" "bsd_fits n" "bsd_alloc rs arena n m = (res, m')"
  shows "blocks_kept arena L m m' \<and>
    (case res of None \<Rightarrow> bsd_inv rs arena L m' | Some r \<Rightarrow> r \<notin> L \<and> blen r = unat n \<and> bsd_inv rs arena (insert r L) m')"
proof -
  obtain p m1 where r: "bsd_malloc rs arena n m = Inr (p, m1)" "blocks_kept arena L m m1"
      "case p of None \<Rightarrow> bsd_inv rs arena L m1
       | Some (p, r) \<Rightarrow> r \<notin> L \<and> dt_shmid r = dt_shmid arena \<and> blen r = unat n \<and> p = mapping (arena_map rs arena) + dt_offset r \<and>
           bsd_inv rs arena (insert r L) m1"
    using bsd_malloc_inv [OF assms(1,2)] by blast
  then have "res = map_option snd p" "m' = m1" using assms(3) by (simp_all add: bsd_alloc_def)
  then show ?thesis using r(2,3) by (cases p) auto
qed

interpretation bsd: block_store "bsd_inv rs arena" "bsd_alloc rs arena" bsd_fits "bsd_release rs arena"
  "arena_bytes arena" "arena_put arena"
  for rs arena
proof (unfold_locales, goal_cases)
  case (1 L m)
  then show ?case using bsd_live_apart unfolding all_apart_def bsd_inv_def by blast
next
  case (2 L m n r m')
  then show ?case using bsd_alloc_cases [OF 2] by simp
next
  case (3 L m n m')
  then show ?case using bsd_alloc_cases [OF 3] by simp
next
  case (4 L m n r m')
  then show ?case using bsd_alloc_cases [OF 4] by simp
next
  case (5 L m n q)
  then show ?case using bsd_alloc_cases [OF 5(1,2), of "fst (bsd_alloc rs arena n m)" "snd (bsd_alloc rs arena n m)"]
    by (simp add: blocks_kept_def arena_bytes_def)
next
  case (6 L m r)
  then show ?case using bsd_free_inv [OF 6] by (auto simp: bsd_release_def)
next
  case (7 L m r q)
  then show ?case using bsd_free_inv [OF 7(1,2)] by (auto simp: bsd_release_def arena_bytes_def blocks_kept_def)
next
  case (8 a xs m)
  then show ?case by (simp add: arena_bytes_def arena_put_def upd_bytes_def)
next
  case (9 L m r xs)
  then show ?case using bsd_put_inv [OF 9(1,2)] by simp
qed

end
