(* ===== verification/Dt_Shmops.thy ===== *)
theory Dt_Shmops
  imports Dt_Bsd_Store
begin

text \<open>
  The malloc interface of \<^verbatim>\<open>dt_shmops.c\<close>: the table of drivers, the default arena of a rank,
  the creation of an arena from segment memory, and \<^verbatim>\<open>malloc\<close>, \<^verbatim>\<open>free\<close> and \<^verbatim>\<open>realloc\<close> by pointer
  and by reference, which check their arguments and call the driver of the arena.

  A driver of the application is an entry of \<open>usrmops\<close>.  The operations return the state of
  the rank, because looking for the default arena caches it.
\<close>

subsection \<open>Drivers\<close>

definition break_mops :: "shmrs \<Rightarrow> dthread_shm_alloc_ops_t" where
  "break_mops rs =
     \<lparr>op_name = ''break'', op_init = (\<lambda>a m. Inr (break_init rs a m)),
      op_finalize = (\<lambda>a m. Inr (break_finalize a m, m)), op_malloc = (\<lambda>a n m. Inr (break_malloc rs a n m)),
      op_free = break_free rs, op_realloc = break_realloc rs\<rparr>"

definition bsd_mops :: "shmrs \<Rightarrow> dthread_shm_alloc_ops_t" where
  "bsd_mops rs =
     \<lparr>op_name = ''bsd'', op_init = bsd_init rs,
      op_finalize = (\<lambda>a m. rbind (bsd_finalize rs a m) (\<lambda>rv. Inr (rv, m))), op_malloc = bsd_malloc rs,
      op_free = bsd_free rs, op_realloc = bsd_realloc rs\<rparr>"

definition internal_mops :: "shmrs \<Rightarrow> dthread_shm_alloc_ops_t list" where
  "internal_mops rs = [break_mops rs, bsd_mops rs]"

abbreviation (input) "NINT_MOPS \<equiv> (2 :: int)"

text \<open>The position of the first driver of a name.\<close>

primrec mop_index :: "string \<Rightarrow> dthread_shm_alloc_ops_t list \<Rightarrow> int option" where
  "mop_index name [] = None"
| "mop_index name (p # ps) = (if op_name p = name then Some 0 else map_option (\<lambda>k. k + 1) (mop_index name ps))"

definition dthread_get_mopid :: "shmrs \<Rightarrow> string \<Rightarrow> int" where
  "dthread_get_mopid rs name =
     (case mop_index name (usrmops rs) of
        Some lcv \<Rightarrow> NINT_MOPS + lcv
      | None \<Rightarrow> (case mop_index name (internal_mops rs) of Some lcv \<Rightarrow> lcv | None \<Rightarrow> -1))"

definition mopid2ops :: "shmrs \<Rightarrow> int \<Rightarrow> dthread_shm_alloc_ops_t option" where
  "mopid2ops rs mid =
     (if mid < 0 then None
      else if mid < NINT_MOPS then Some (internal_mops rs ! nat mid)
      else if mid < NINT_MOPS + int (length (usrmops rs)) then Some (usrmops rs ! nat (mid - NINT_MOPS))
      else None)"

subsection \<open>The default arena\<close>

definition dthread_shm_set_defaultarena :: "dthread_shmref_t \<Rightarrow> shmrs \<Rightarrow> shmem \<Rightarrow> int \<times> shmrs \<times> shmem" where
  "dthread_shm_set_defaultarena dflt rs m =
     (if shm_rank rs \<noteq> 0 then (EPERM, rs, m)
      else if defarena rs = None then (0, rs\<lparr>defarena := Some dflt\<rparr>, m\<lparr>da_src := dflt\<rparr>)
      else (EEXIST, rs, m))"

definition dthread_shm_get_defaultarena :: "shmrs \<Rightarrow> shmem \<Rightarrow> dthread_shmref_t option \<times> shmrs" where
  "dthread_shm_get_defaultarena rs m =
     (case defarena rs of
        Some a \<Rightarrow> (Some a, rs)
      | None \<Rightarrow>
          if dt_length (da_src m) = 0 then (None, rs)
          else (Some (da_src m), rs\<lparr>defarena := Some (da_src m)\<rparr>))"

subsection \<open>Arenas\<close>

text \<open>
  \<open>spin\<close> is the result of the lock of the segment, as for \<^verbatim>\<open>dthread_shmseg_alloc\<close>.  The metadata is
  written at the beginning of the new block without a check of its length: with size 0 the
  block is what is left of the segment, which may be less than the metadata.
\<close>

definition dthread_shm_new_arena ::
    "shmrs \<Rightarrow> int \<Rightarrow> u64 \<Rightarrow> string \<Rightarrow> u64 \<Rightarrow> shmem \<Rightarrow> (int \<times> dthread_shmref_t option \<times> shmem) res" where
  "dthread_shm_new_arena rs spin shmid name sz m =
     (if sz \<noteq> 0 \<and> sz < word_of_int (pagesize rs) then Inr (EINVAL, None, m)
      else let mid = dthread_get_mopid rs name
           in if mid < 0 then Inr (ENOENT, None, m)
              else case mopid2ops rs mid of
                     None \<Rightarrow> Inr (ENOENT, None, m)
                   | Some mops \<Rightarrow>
                       (case dthread_shmseg_alloc rs spin shmid sz m of
                          (None, m) \<Rightarrow> Inr (ENOMEM, None, m)
                        | (Some (_, a), m) \<Rightarrow>
                            if dt_length a < sizeof_alloc_md then Inl Out_of_bounds
                            else let md = \<lparr>mdmagic = DTHREAD_SHM_MD_MAGIC, md_self = a,
                                      min_uoffset = dt_offset a + sizeof_alloc_md,
                                      max_uoffset = dt_offset a + dt_length a, badalign_bits = 0, mopid = mid\<rparr>
                            in rbind (op_init mops a (m\<lparr>amds := (amds m)(arena_loc a := md)\<rparr>))
                                 (\<lambda>(rv, m). Inr (rv, Some a, m))))"

text \<open>
  The checks of the arguments: the result holds the driver, the arena that is used and, for
  a pointer, its reference.
\<close>

definition dthread_shm_validate_args ::
    "shmrs \<Rightarrow> dthread_shmref_t option \<Rightarrow> u64 option \<Rightarrow> dthread_shmref_t option \<Rightarrow> shmem \<Rightarrow>
     (dthread_shm_alloc_ops_t \<times> dthread_shmref_t \<times> dthread_shmref_t option) option \<times> shmrs" where
  "dthread_shm_validate_args rs arenap ptr inref m =
     (let (arena, rs) = (case arenap of Some a \<Rightarrow> (Some a, rs) | None \<Rightarrow> dthread_shm_get_defaultarena rs m)
      in case arena of
           None \<Rightarrow> (None, rs)
         | Some arena \<Rightarrow>
             let md = amds m (arena_loc arena);
                 bad = (\<lambda>r. dt_shmid r \<noteq> dt_shmid arena \<or> dt_offset r < min_uoffset md \<or> dt_offset r \<ge> max_uoffset md)
             in if dthread_shmref2ptr rs (Some arena) sizeof_alloc_md = None \<or> mdmagic md \<noteq> DTHREAD_SHM_MD_MAGIC \<or>
                   arena \<noteq> md_self md
                then (None, rs)
                else case mopid2ops rs (mopid md) of
                       None \<Rightarrow> (None, rs)
                     | Some mops \<Rightarrow>
                         (case (case ptr of None \<Rightarrow> Inr None | Some p \<Rightarrow>
                                  (case dthread_ptr2shmref rs p 0 of
                                     Inl e \<Rightarrow> Inl e
                                   | Inr r \<Rightarrow> if bad r \<or> p AND badalign_bits md \<noteq> 0 then Inl EINVAL else Inr (Some r))) of
                            Inl _ \<Rightarrow> (None, rs)
                          | Inr outptref \<Rightarrow>
                              (case inref of
                                 Some r \<Rightarrow>
                                   if bad r \<or> dt_offset r AND badalign_bits md \<noteq> 0 then (None, rs)
                                   else (Some (mops, arena, outptref), rs)
                               | None \<Rightarrow> (Some (mops, arena, outptref), rs))))"

definition dthread_shm_finalize_arena :: "shmrs \<Rightarrow> dthread_shmref_t option \<Rightarrow> shmem \<Rightarrow> (int \<times> shmrs \<times> shmem) res" where
  "dthread_shm_finalize_arena rs arena m =
     (case dthread_shm_validate_args rs arena None None m of
        (None, rs) \<Rightarrow> Inr (EINVAL, rs, m)
      | (Some (mops, arena, _), rs) \<Rightarrow> rbind (op_finalize mops arena m) (\<lambda>(rv, m). Inr (rv, rs, m)))"

definition dthread_shm_malloc ::
    "shmrs \<Rightarrow> dthread_shmref_t option \<Rightarrow> u64 \<Rightarrow> shmem \<Rightarrow> (mallocret \<times> shmrs \<times> shmem) res" where
  "dthread_shm_malloc rs arena len m =
     (case dthread_shm_validate_args rs arena None None m of
        (None, rs) \<Rightarrow> Inr (None, rs, m)
      | (Some (mops, arena, _), rs) \<Rightarrow> rbind (op_malloc mops arena len m) (\<lambda>(p, m). Inr (p, rs, m)))"

definition dthread_shm_free :: "shmrs \<Rightarrow> dthread_shmref_t option \<Rightarrow> u64 option \<Rightarrow> shmem \<Rightarrow> (shmrs \<times> shmem) res" where
  "dthread_shm_free rs arena ptr m =
     (if ptr = None then Inr (rs, m)
      else case dthread_shm_validate_args rs arena ptr None m of
             (Some (mops, arena, Some ref), rs) \<Rightarrow> rbind (op_free mops arena ref m) (\<lambda>m. Inr (rs, m))
           | (_, rs) \<Rightarrow> Inr (rs, m))"

definition dthread_shm_free_ref ::
    "shmrs \<Rightarrow> dthread_shmref_t option \<Rightarrow> dthread_shmref_t option \<Rightarrow> shmem \<Rightarrow> (shmrs \<times> shmem) res" where
  "dthread_shm_free_ref rs arena refp m =
     (case refp of
        None \<Rightarrow> Inr (rs, m)
      | Some ref \<Rightarrow>
          if dt_length ref = 0 then Inr (rs, m)
          else case dthread_shm_validate_args rs arena None (Some ref) m of
                 (None, rs) \<Rightarrow> Inr (rs, m)
               | (Some (mops, arena, _), rs) \<Rightarrow> rbind (op_free mops arena ref m) (\<lambda>m. Inr (rs, m)))"

definition dthread_shm_realloc ::
    "shmrs \<Rightarrow> dthread_shmref_t option \<Rightarrow> u64 option \<Rightarrow> u64 \<Rightarrow> shmem \<Rightarrow> (mallocret \<times> shmrs \<times> shmem) res" where
  "dthread_shm_realloc rs arena ptr len m =
     (if ptr = None then dthread_shm_malloc rs arena len m
      else case dthread_shm_validate_args rs arena ptr None m of
             (Some (mops, arena, Some ref), rs) \<Rightarrow> rbind (op_realloc mops arena ref len m) (\<lambda>(p, m). Inr (p, rs, m))
           | (_, rs) \<Rightarrow> Inr (None, rs, m))"

definition dthread_shm_realloc_ref ::
    "shmrs \<Rightarrow> dthread_shmref_t option \<Rightarrow> dthread_shmref_t option \<Rightarrow> u64 \<Rightarrow> shmem \<Rightarrow>
     (mallocret \<times> shmrs \<times> shmem) res" where
  "dthread_shm_realloc_ref rs arena refp len m =
     (case refp of
        None \<Rightarrow> dthread_shm_malloc rs arena len m
      | Some inref \<Rightarrow>
          if dt_length inref = 0 then dthread_shm_malloc rs arena len m
          else case dthread_shm_validate_args rs arena None (Some inref) m of
                 (None, rs) \<Rightarrow> Inr (None, rs, m)
               | (Some (mops, arena, _), rs) \<Rightarrow> rbind (op_realloc mops arena inref len m) (\<lambda>(p, m). Inr (p, rs, m)))"

end
