(* ===== verification/Dt_Bsd_Props.thy ===== *)
theory Dt_Bsd_Props
  imports Dt_Bsd_Store
begin

text \<open>
  Properties of the "bsd" driver: a freshly initialized arena serves its clients as a
  store of blocks, reallocation keeps the contents of a block, and the shift in
  \<^verbatim>\<open>BUCKSIZE\<close> is undefined for large requests and in every finalization.
\<close>

subsection \<open>Initialization\<close>

lemma BUCKSIZE_nat: "b \<le> 26 \<Longrightarrow> BUCKSIZE (int b) = Inr (2 ^ (b + 4))"
proof -
  assume "b \<le> 26"
  moreover have "nat (int b + 4) = b + 4" by simp
  ultimately show ?thesis by (simp add: BUCKSIZE_def)
qed

lemma bsd_first_bucket_run:
  assumes "b \<le> c" "c \<le> 26" "bound \<le> 2 ^ (c + 4)" "\<And>d. b \<le> d \<Longrightarrow> d < c \<Longrightarrow> 2 ^ (d + 4) < bound"
  shows "bsd_first_bucket (int b) bound = Inr (int c)"
  using assms
proof (induction "c - b" arbitrary: b)
  case 0
  then show ?case by (subst bsd_first_bucket.simps) (simp add: BUCKSIZE_nat)
next
  case (Suc n)
  have "bsd_first_bucket (int (Suc b)) bound = Inr (int c)" using Suc.hyps(2) Suc.prems by (intro Suc.hyps(1)) simp_all
  moreover have "2 ^ (b + 4) < bound" using Suc.hyps(2) Suc.prems(4) by simp
  ultimately show ?case using Suc.hyps(2) Suc.prems(2) by (subst bsd_first_bucket.simps) (simp add: BUCKSIZE_nat add.commute)
qed

lemma bsd_oversize_0: "bsd_oversize 0 = 16"
  by (subst bsd_oversize.simps, simp, subst bsd_oversize.simps, simp)

lemma bsd_init_inv:
  assumes "bsd_init rs arena m = Inr (0, m')" "md_self (amds m (arena_loc arena)) = arena" "maps_ok rs"
    and "pagesize rs = 2 ^ k" "6 \<le> k" "k \<le> 30"
  shows "bsd_inv rs arena {} m'"
proof -
  define mdsize where "mdsize = mdalign_size rs arena sizeof_bsd_md"
  obtain p where p: "dthread_shmref2ptr rs (Some arena) mdsize = Some p"
    using assms(1) by (auto simp: bsd_init_def mdsize_def Let_def split: option.splits)
  note a = shmref2ptr_SomeD [OF p] and d = mdalign_size_props [OF p assms(3) mdsize_def]
  have minb: "bsd_first_bucket 0 17 = Inr 1" using bsd_first_bucket_run [of 0 1 17] by simp
  have pageb: "bsd_first_bucket 0 (2 ^ k) = Inr (int k - 4)"
    using bsd_first_bucket_run [of 0 "k - 4" "2 ^ k"] assms(5,6) by (simp add: of_nat_diff)
  have m': "amds m' (arena_loc arena) = (amds m (arena_loc arena))\<lparr>min_uoffset := dt_offset arena + mdsize, badalign_bits := 15\<rparr>"
      "bsd_mds m' (arena_loc arena) = \<lparr>oversize = 16, minbucket = 1, pagesz = 2 ^ k, pagebucket = int k - 4,
         nextf = replicate NBUCKETS 0, nmalloc = replicate NBUCKETS 0, mycore = dt_offset arena + mdsize,
         core_resid = dt_length arena - mdsize\<rparr>"
    using assms(1,2,4) p by (auto simp: bsd_init_def mdsize_def [symmetric] Let_def bsd_oversize_0 minb pageb)
  have u: "unat (dt_offset arena + mdsize) = bstart arena + unat mdsize"
    unfolding bstart_def
    by (rule unat_add_bounded [of _ _ "map_size (arena_map rs arena)"]) (use d(2) a(3) in \<open>simp add: blen_def\<close>)
  have v: "unat (dt_length arena - mdsize) = blen arena - unat mdsize"
    using d(2) by (simp add: unat_sub word_le_nat_alt blen_def)
  have "bsd_core rs arena (amds m' (arena_loc arena)) (bsd_mds m' (arena_loc arena)) (shm_bytes m' (dt_shmid arena))
      (\<lambda>_. None) (\<lambda>_. []) {}"
    unfolding bsd_core_def m' using a(1,3) d u v assms(2,5,6)
    by (auto simp: arena_ok_def bsd_md_ok_def bsd_carved_def blen_def bstart_def add.assoc)
  then show ?thesis unfolding bsd_inv_def by blast
qed

subsection \<open>Reallocation\<close>

lemma bsd_usable_blk:
  assumes "bsd_md_ok md" "1 \<le> b" "b \<le> 26"
  shows "unat (bsd_usable md (2 ^ (b + 4))) = bsd_blk md b - 16"
proof -
  obtain k where k: "6 \<le> k" "k \<le> 30" "pagesz md = 2 ^ k" "oversize md = 16" using assms(1) by (auto simp: bsd_md_ok_def)
  have u: "unat (word_of_int (2 ^ (b + 4)) :: u64) = 2 ^ (b + 4)" "unat (word_of_int (2 ^ k) :: u64) = 2 ^ k"
    using unat_pow assms(3) k by simp_all
  have lt: "(word_of_int (2 ^ (b + 4)) :: u64) < word_of_int (2 ^ k) \<longleftrightarrow> b + 4 < k"
    unfolding word_less_nat_alt u by simp
  have le: "(2 :: nat) ^ k \<le> 2 ^ 30" "(2 :: nat) ^ (b + 4) \<le> 2 ^ 30" "(16 :: nat) \<le> 2 ^ k"
    using power_increasing [of k 30 "2 :: nat"] power_increasing [of "b + 4" 30 "2 :: nat"] power_increasing [of 4 k "2 :: nat"] k assms(3)
    by simp_all
  show ?thesis
  proof (cases "b + 4 < k")
    case True
    then have "bsd_blk md b = 2 ^ (b + 4)" using k by (simp add: bsd_blk_def nat_power_eq)
    then show ?thesis using True lt k(3,4) unat_pow_sub [OF assms(3)] by (simp add: bsd_usable_def)
  next
    case False
    then have blk: "bsd_blk md b = 2 ^ (b + 4) + 2 ^ k" using k by (simp add: bsd_blk_def nat_power_eq)
    have "unat (word_of_int (2 ^ k - 16) :: u64) = 2 ^ k - 16" using unat_pow_sub [of "k - 4"] k by simp
    then have "unat (word_of_int (2 ^ (b + 4)) + word_of_int (2 ^ k - 16) :: u64) = 2 ^ (b + 4) + (2 ^ k - 16)"
      using u le by (subst unat_add_no_overflow) simp_all
    then show ?thesis using False lt k(3,4) blk le by (simp add: bsd_usable_def)
  qed
qed

lemma bsd_core_resize:
  assumes "bsd_core rs arena amd md mem T F L" "r \<in> L" "bsd_live arena md mem T F r b"
    "dt_shmid r' = dt_shmid arena" "dt_offset r' = dt_offset r" "blen r' + 16 \<le> bsd_blk md b"
  shows "bsd_core rs arena amd md mem T F (insert r' (L - {r}))"
proof -
  have st: "bstart r' = bstart r" using assms(5) by (simp add: bstart_def)
  have "bsd_live arena md mem T F r' b" using assms(3,4,6) st by (simp add: bsd_live_def)
  moreover have inj: "inj_on bstart L" using assms(1) by (simp add: bsd_core_def)
  moreover have "inj_on bstart (insert r' (L - {r}))"
    using inj st assms(2) by (auto simp: inj_on_def)
  moreover have "\<forall>q \<in> L. \<exists>b. bsd_live arena md mem T F q b" using assms(1) unfolding bsd_core_def by blast
  ultimately show ?thesis using assms(1) unfolding bsd_core_def by blast
qed

text \<open>Moving a block: allocate, copy, free the old one.\<close>

lemma bsd_realloc_move:
  assumes "bsd_inv rs arena L m" "r \<in> L" "bsd_malloc rs arena n m = Inr (Some (p, r'), m\<^sub>1)" "bsd_fits n"
    and k: "blen r \<le> k \<or> unat n \<le> k" "k \<le> unat n"
  defines "m\<^sub>2 \<equiv> upd_bytes (dt_shmid arena) (put_bytes (bstart r') (get_bytes (bstart r) k (shm_bytes m\<^sub>1 (dt_shmid arena)))) m\<^sub>1"
  shows "\<exists>m'. bsd_free rs arena r m\<^sub>2 = Inr m' \<and> bsd_inv rs arena (insert r' (L - {r})) m' \<and> blen r' = unat n \<and>
    p = mapping (arena_map rs arena) + dt_offset r' \<and> blocks_kept arena (L - {r}) m m' \<and>
    take (blen r) (block_bytes r' (shm_bytes m' (dt_shmid arena))) =
      take (unat n) (block_bytes r (shm_bytes m (dt_shmid arena)))"
proof -
  let ?b = "\<lambda>t. shm_bytes t (dt_shmid arena)"
  let ?src = "get_bytes (bstart r) k (?b m\<^sub>1)"
  have al: "r' \<notin> L" "blen r' = unat n" "p = mapping (arena_map rs arena) + dt_offset r'" "bsd_inv rs arena (insert r' L) m\<^sub>1"
      "blocks_kept arena L m m\<^sub>1"
    using bsd_malloc_inv [OF assms(1,4)] assms(3) by auto
  have len: "length ?src \<le> blen r'" using al(2) k(2) by simp
  have m2: "m\<^sub>2 = arena_put arena (bstart r') ?src m\<^sub>1" by (simp add: m\<^sub>2_def arena_put_def)
  have i2: "bsd_inv rs arena (insert r' L) m\<^sub>2" unfolding m2 using al(4) len by (intro bsd_put_inv) simp_all
  obtain m' where f: "bsd_free rs arena r m\<^sub>2 = Inr m'" "bsd_inv rs arena (insert r' L - {r}) m'" "blocks_kept arena (insert r' L) m\<^sub>2 m'"
    using bsd_free_inv [OF i2, of r] assms(2) by blast
  have ne: "r' \<noteq> r" using al(1) assms(2) by blast
  then have set: "insert r' L - {r} = insert r' (L - {r})" by blast
  have b2: "?b m\<^sub>2 = put_bytes (bstart r') ?src (?b m\<^sub>1)" by (simp add: m\<^sub>2_def upd_bytes_def)
  have "block_bytes q (?b m\<^sub>2) = block_bytes q (?b m\<^sub>1)" if "q \<in> L" for q
  proof -
    have "q \<noteq> r'" using al(1) that by blast
    then have "blocks_apart q r'" using bsd.inv_apart [OF al(4)] that by (simp add: all_apart_def)
    then have "apart (bstart q) (blen q) (bstart r') (length ?src)"
      using len apart_sub2 [of "bstart q" "blen q" "bstart r'" "blen r'" "bstart r'" "length ?src"] by (simp add: blocks_apart_def)
    then show ?thesis unfolding b2 block_bytes_def by (simp add: get_put_bytes_apart)
  qed
  then have "blocks_kept arena (L - {r}) m m'" using f(3) al(5) by (simp add: blocks_kept_def)
  moreover have "take (blen r) (block_bytes r' (?b m')) = take (unat n) (block_bytes r (?b m))"
  proof -
    let ?n = "min (blen r) (unat n)"
    have "take (blen r) (block_bytes r' (?b m')) = get_bytes (bstart r') ?n (?b m\<^sub>2)"
      using f(3) al(2) by (simp add: blocks_kept_def block_bytes_def)
    also have "\<dots> = get_bytes (bstart r) ?n (?b m\<^sub>1)" unfolding b2 using k by (auto simp: take_get_put_bytes min_def)
    also have "\<dots> = take ?n (block_bytes r (?b m\<^sub>1))" by (simp add: block_bytes_def min_def)
    also have "\<dots> = take ?n (block_bytes r (?b m))" using al(5) assms(2) by (simp add: blocks_kept_def)
    finally show ?thesis by (simp add: block_bytes_def min.commute)
  qed
  ultimately show ?thesis using f(1,2) set al(2,3) by auto
qed

lemma bsd_block_ref:
  assumes "bsd_core rs arena amd md mem T F L" "r \<in> L" "bsd_live arena md mem T F r b"
  shows "bstart arena + unat sizeof_bsd_md \<le> bstart r" "bstart r + blen r \<le> bstart arena + blen arena"
    "16 dvd unat (mapping (arena_map rs arena)) + bstart r"
proof -
  have l: "16 \<le> bstart r" "T (bstart r - 16) = Some b" "blen r + 16 \<le> bsd_blk md b" using assms(3) by (simp_all add: bsd_live_def)
  note t = bsd_carvedD [OF assms(1) l(2)]
  have c: "bstart arena + unat sizeof_bsd_md \<le> unat (min_uoffset amd)" "unat (mycore md) + unat (core_resid md) = bstart arena + blen arena"
    using assms(1) by (simp_all add: bsd_core_def)
  show "bstart arena + unat sizeof_bsd_md \<le> bstart r" "bstart r + blen r \<le> bstart arena + blen arena"
    using l t(3,4) c by linarith+
  have "unat (mapping (arena_map rs arena)) + bstart r = (unat (mapping (arena_map rs arena)) + (bstart r - 16)) + 16"
    using l(1) by simp
  then show "16 dvd unat (mapping (arena_map rs arena)) + bstart r" using t(5) by (metis dvd_add dvd_refl)
qed

lemma min_if_less: "(if n < c then n else c) = min n (c :: u64)"
  by (auto simp: min_def)

text \<open>The two ways a reallocation of a block in use can go.\<close>

lemma bsd_realloc_run:
  assumes "bsd_core rs arena (amds m (arena_loc arena)) (bsd_mds m (arena_loc arena)) (shm_bytes m (dt_shmid arena)) T F L" "r \<in> L"
    "bsd_live arena (bsd_mds m (arena_loc arena)) (shm_bytes m (dt_shmid arena)) T F r b"
  shows "\<exists>prev. bsd_realloc rs arena r n m =
     (if n \<le> bsd_usable (bsd_mds m (arena_loc arena)) (2 ^ (b + 4)) \<and> (prev = 0 \<or> n > prev) then
        Inr (Some (mapping (arena_map rs arena) + dt_offset r, \<lparr>dt_shmid = dt_shmid r, dt_offset = dt_offset r, dt_length = n\<rparr>), m)
      else bsd_move rs arena r n (min n (bsd_usable (bsd_mds m (arena_loc arena)) (2 ^ (b + 4)))) m)"
proof -
  let ?md = "bsd_mds m (arena_loc arena)"
  note ck = bsd_block_checked [OF assms]
  have ok: "oversize ?md = 16" "minbucket ?md = 1" using assms(1) by (simp_all add: bsd_core_def bsd_md_ok_def)
  define prev where "prev = (if int b \<le> 1 then 0 else bsd_usable ?md (2 ^ (b - 1 + 4)))"
  have "BUCKSIZE (int b - 1) = Inr (2 ^ (b - 1 + 4))" using BUCKSIZE_nat [of "b - 1"] ck(4,5) by (simp add: of_nat_diff)
  then have prev: "(if int b \<le> 1 then Inr 0 else rbind (BUCKSIZE (int b - 1)) (\<lambda>ps. Inr (bsd_usable ?md ps))) = Inr prev"
    by (simp add: prev_def)
  have guard: "\<not> (int b < 1 \<or> int NBUCKETS \<le> int b)" using ck(4,5) by simp
  show ?thesis unfolding bsd_realloc_def Let_def
    by (rule exI [of _ prev]) (simp only: ck ok prev guard BUCKSIZE_nat word_of_int_numeral option.case rbind.simps if_True if_False not_True_eq_False simp_thms
        min_if_less)
qed

lemma bsd_realloc_inv:
  assumes "bsd_inv rs arena L m" and "r \<in> L" and "bsd_fits n"
  shows "\<exists>res m'. bsd_realloc rs arena r n m = Inr (res, m') \<and>
    (case res of
       None \<Rightarrow> bsd_inv rs arena L m' \<and>
         (\<forall>q \<in> L. block_bytes q (shm_bytes m' (dt_shmid arena)) = block_bytes q (shm_bytes m (dt_shmid arena)))
     | Some (p, r') \<Rightarrow>
         p = mapping (arena_map rs arena) + dt_offset r' \<and> blen r' = unat n \<and> bsd_inv rs arena (insert r' (L - {r})) m' \<and>
         take (blen r) (block_bytes r' (shm_bytes m' (dt_shmid arena))) =
           take (unat n) (block_bytes r (shm_bytes m (dt_shmid arena))) \<and>
         (\<forall>q \<in> L - {r}. block_bytes q (shm_bytes m' (dt_shmid arena)) = block_bytes q (shm_bytes m (dt_shmid arena))))"
proof -
  let ?md = "bsd_mds m (arena_loc arena)" and ?mem = "shm_bytes m (dt_shmid arena)"
  obtain T F where core: "bsd_core rs arena (amds m (arena_loc arena)) ?md ?mem T F L" using assms(1) by (auto simp: bsd_inv_def)
  obtain b where b: "bsd_live arena ?md ?mem T F r b" by (rule bsd_liveE [OF core assms(2)])
  note ck = bsd_block_checked [OF core assms(2) b]
  have md: "bsd_md_ok ?md" using core by (simp add: bsd_core_def)
  let ?cap = "bsd_usable ?md (2 ^ (b + 4))"
  have cap: "unat ?cap = bsd_blk ?md b - 16" by (rule bsd_usable_blk [OF md ck(4,5)])
  have "blen r + 16 \<le> bsd_blk ?md b" using b by (simp add: bsd_live_def)
  then have fit: "blen r \<le> unat ?cap" "16 \<le> bsd_blk ?md b" by (simp_all add: cap)
  obtain prev where run: "bsd_realloc rs arena r n m =
     (if n \<le> ?cap \<and> (prev = 0 \<or> n > prev) then
        Inr (Some (mapping (arena_map rs arena) + dt_offset r, \<lparr>dt_shmid = dt_shmid r, dt_offset = dt_offset r, dt_length = n\<rparr>), m)
      else bsd_move rs arena r n (min n ?cap) m)"
    using bsd_realloc_run [OF core assms(2) b, of n] by blast
  show ?thesis
  proof (cases "n \<le> ?cap \<and> (prev = 0 \<or> n > prev)")
    case True
    let ?r' = "\<lparr>dt_shmid = dt_shmid r, dt_offset = dt_offset r, dt_length = n\<rparr>"
    have "unat n \<le> unat ?cap" using True by (simp add: word_le_nat_alt)
    then have "unat n + 16 \<le> bsd_blk ?md b" using cap fit(2) by linarith
    then have "bsd_core rs arena (amds m (arena_loc arena)) ?md ?mem T F (insert ?r' (L - {r}))"
      by (intro bsd_core_resize [OF core assms(2) b]) (use ck(8) in \<open>simp_all add: blen_def\<close>)
    then have "bsd_inv rs arena (insert ?r' (L - {r})) m" unfolding bsd_inv_def by blast
    then show ?thesis unfolding run if_P [OF True] by (simp add: blen_def block_bytes_def bstart_def min.commute)
  next
    case False
    obtain res m\<^sub>1 where al: "bsd_malloc rs arena n m = Inr (res, m\<^sub>1)" "blocks_kept arena L m m\<^sub>1" "res = None \<longrightarrow> bsd_inv rs arena L m\<^sub>1"
        "\<forall>p r'. res = Some (p, r') \<longrightarrow> dt_shmid r' = dt_shmid arena"
      using bsd_malloc_inv [OF assms(1,3)] by fastforce
    show ?thesis
    proof (cases res)
      case None
      then show ?thesis unfolding run if_not_P [OF False] bsd_move_def using al by (simp add: blocks_kept_def)
    next
      case (Some a)
      obtain p r' where a: "a = (p, r')" by fastforce
      let ?k = "unat (min n ?cap)"
      have k: "blen r \<le> ?k \<or> unat n \<le> ?k" "?k \<le> unat n" using fit(1) by (auto simp: min_def word_le_nat_alt)
      obtain m' where mv: "bsd_free rs arena r (upd_bytes (dt_shmid arena) (put_bytes (bstart r') (get_bytes (bstart r) ?k
            (shm_bytes m\<^sub>1 (dt_shmid arena)))) m\<^sub>1) = Inr m'" "bsd_inv rs arena (insert r' (L - {r})) m'" "blen r' = unat n"
          "p = mapping (arena_map rs arena) + dt_offset r'" "blocks_kept arena (L - {r}) m m'"
          "take (blen r) (block_bytes r' (shm_bytes m' (dt_shmid arena))) = take (unat n) (block_bytes r ?mem)"
        using bsd_realloc_move [OF assms(1,2) al(1) [unfolded Some a] assms(3) k] by blast
      have "bsd_move rs arena r n (min n ?cap) m = Inr (Some (p, r'), m')"
        using al(1,4) Some a ck(8) mv(1) by (simp add: bsd_move_def bstart_def)
      then show ?thesis unfolding run if_not_P [OF False] using mv(2-6) by (simp add: blocks_kept_def)
    qed
  qed
qed

subsection \<open>Statistics and large requests\<close>

text \<open>The walk over a free list ends.\<close>

lemma bsd_count_free_chain:
  assumes "bsd_state rs arena m T F L" "sz = 16"
  shows "bsd_chain (shm_bytes m (dt_shmid arena)) fp as \<Longrightarrow> \<forall>a \<in> set as. T a = Some b \<Longrightarrow>
    \<exists>n. bsd_count_free rs (dt_shmid arena) sz bs (shm_bytes m (dt_shmid arena)) fp k = Some (Some n)"
proof (induction as arbitrary: fp k)
  case Nil
  then show ?case by (subst bsd_count_free.simps) simp
next
  case (Cons a as)
  let ?q = "\<lparr>dt_shmid = dt_shmid arena, dt_offset = fp, dt_length = 16\<rparr>"
  have "dthread_shmref2ptr rs (Some ?q) 16 = Some (mapping (arena_map rs arena) + dt_offset ?q)"
    using Cons.prems by (intro bsd_block_ptr(1) [OF assms(1), of a b fp]) (simp_all add: bstart_def blen_def)
  then show ?case using Cons assms(2) by (subst bsd_count_free.simps) simp
qed

lemma bsd_mstats_shift:
  assumes "bsd_state rs arena m T F L" "i \<le> 27"
  shows "bsd_mstats_from rs (bsd_mds m (arena_loc arena)) (dt_shmid arena) (shm_bytes m (dt_shmid arena)) i u f = Inl Bad_shift"
  using assms(2)
proof (induction "27 - i" arbitrary: i u f)
  case 0
  then have "BUCKSIZE (int i) = Inl Bad_shift" by (simp add: BUCKSIZE_def)
  then show ?case using 0 by (subst bsd_mstats_from.simps) simp
next
  case (Suc d)
  let ?md = "bsd_mds m (arena_loc arena)"
  have i: "i \<le> 26" using Suc by simp
  have ov: "oversize ?md = 16" using assms(1) by (simp add: bsd_core_def bsd_md_ok_def)
  have chain: "bsd_chain (shm_bytes m (dt_shmid arena)) (nextf ?md ! i) (F i)" "\<forall>a \<in> set (F i). T a = Some i"
    using assms(1) i by (simp_all add: bsd_core_def)
  obtain n where "bsd_count_free rs (dt_shmid arena) (word_of_int (oversize ?md)) (word_of_int (2 ^ (i + 4)))
      (shm_bytes m (dt_shmid arena)) (nextf ?md ! i) 0 = Some (Some n)"
    using bsd_count_free_chain [OF assms(1) _ chain, of "word_of_int (oversize ?md)" "word_of_int (2 ^ (i + 4))" 0] ov by auto
  moreover have "27 - (i + 1) = d" "i + 1 \<le> 27" using Suc.hyps(2) by simp_all
  ultimately show ?case using i BUCKSIZE_nat [OF i] Suc.hyps(1) [of "i + 1"] by (subst bsd_mstats_from.simps) simp
qed

lemma bsd_malloc_shift:
  assumes "bsd_state rs arena m T F L" "2 ^ 30 + nat (pagesz (bsd_mds m (arena_loc arena))) < unat n + 16" "unat n \<le> 2 ^ 63"
  shows "bsd_malloc rs arena n m = Inl Bad_shift"
proof -
  let ?md = "bsd_mds m (arena_loc arena)"
  have md: "bsd_md_ok ?md" using assms(1) by (simp add: bsd_core_def)
  obtain c where c: "1 \<le> c" "c \<le> 59" "bsd_bucket ?md n = Inr (Some (int c))" "unat n + 16 \<le> bsd_blk ?md c"
    using bsd_bucket_picks [OF md, of n 59] assms(3) by auto
  have "27 \<le> c"
  proof (rule ccontr)
    assume "\<not> 27 \<le> c"
    then have "(2 :: nat) ^ (c + 4) \<le> 2 ^ 30" by (intro power_increasing) simp_all
    then show False using c(4) assms(2) by (simp add: bsd_blk_def split: if_splits)
  qed
  then have shift: "BUCKSIZE (int c) = Inl Bad_shift" by (simp add: BUCKSIZE_def)
  have chain: "bsd_chain (shm_bytes m (dt_shmid arena)) (nextf ?md ! c) (F c)" "\<forall>a \<in> set (F c). T a = Some c"
    using assms(1) c(2) by (simp_all add: bsd_core_def)
  have none: "T a \<noteq> Some c" for a using bsd_carvedD(2) [OF assms(1), of a c] \<open>27 \<le> c\<close> by linarith
  have "a \<notin> set (F c)" for a using bspec [OF chain(2), of a] none [of a] by blast
  then have "F c = []" by (cases "F c") (simp, metis list.set_intros(1))
  then have "nextf ?md ! c = 0" using chain(1) by simp
  moreover have "minbucket ?md = 1" using md by (simp add: bsd_md_ok_def)
  ultimately show ?thesis using c shift by (simp add: bsd_malloc_def bsd_morecore_def Let_def)
qed

subsection \<open>Properties\<close>

text \<open>
  C31. The bsd driver implements the same store of blocks for requests of up to \<open>2 ^ 30\<close> bytes:
  after any sequence of allocations, writes and releases by its clients in a freshly
  initialized arena, with pages of any power of two from 64 bytes to 1 GB, the blocks in
  use do not overlap, are exactly as long as requested and hold exactly what was last
  written to them; each lies in the arena, behind the metadata, at an aligned address;
  and freeing it does not fault.
\<close>

theorem bsd_client_safe:
  assumes "bsd_init rs arena m = Inr (0, s\<^sub>0)" and "md_self (amds m (arena_loc arena)) = arena" and "maps_ok rs"
    and "pagesize rs = 2 ^ k" and "6 \<le> k" and "k \<le> 30"
    and "(client_step (bsd_alloc rs arena) (bsd_release rs arena) (arena_bytes arena) (arena_put arena) bsd_fits)\<^sup>*\<^sup>*
           (Map.empty, s\<^sub>0) (A, s)"
  shows "all_apart (dom A) \<and>
    (\<forall>r xs. A r = Some xs \<longrightarrow> block_bytes r (shm_bytes s (dt_shmid arena)) = xs \<and> blen r = length xs \<and>
       bstart arena + unat sizeof_bsd_md \<le> bstart r \<and> bstart r + blen r \<le> bstart arena + blen arena \<and>
       16 dvd unat (mapping (arena_map rs arena)) + bstart r \<and> (\<exists>s'. bsd_free rs arena r s = Inr s'))"
proof -
  have i0: "bsd_inv rs arena {} s\<^sub>0" by (rule bsd_init_inv [OF assms(1-6)])
  note v = bsd.client_view [OF assms(7) i0]
  obtain T F where core:
      "bsd_core rs arena (amds s (arena_loc arena)) (bsd_mds s (arena_loc arena)) (shm_bytes s (dt_shmid arena)) T F (dom A)"
    using v unfolding bsd_inv_def by blast
  have "bstart arena + unat sizeof_bsd_md \<le> bstart r \<and> bstart r + blen r \<le> bstart arena + blen arena \<and>
       16 dvd unat (mapping (arena_map rs arena)) + bstart r" if rA: "r \<in> dom A" for r
  proof -
    obtain b where "bsd_live arena (bsd_mds s (arena_loc arena)) (shm_bytes s (dt_shmid arena)) T F r b"
      by (rule bsd_liveE [OF core rA])
    then show ?thesis using bsd_block_ref [OF core rA] by blast
  qed
  moreover have "\<exists>s'. bsd_free rs arena r s = Inr s'" if "r \<in> dom A" for r
    using bsd_free_inv [of rs arena "dom A" s r] v that by blast
  moreover have "block_bytes r (shm_bytes s (dt_shmid arena)) = xs \<and> blen r = length xs" if "A r = Some xs" for r xs
    using v that by (simp add: arena_bytes_def)
  ultimately show ?thesis using v by blast
qed

text \<open>
  C33. \<^verbatim>\<open>bsd_realloc\<close> of a block in use to at most \<open>2 ^ 30\<close> bytes never faults.  If it succeeds, the
  new block has the requested length and begins with the old contents, the old block is
  no longer in use, and no other block changes.  If it fails, the old block is still in
  use and every block keeps its contents.
\<close>

theorem bsd_realloc_keeps:
  assumes "bsd_inv rs arena L m" and "r \<in> L" and "bsd_fits n"
  shows "\<exists>res m'. bsd_realloc rs arena r n m = Inr (res, m') \<and>
    (case res of
       None \<Rightarrow> bsd_inv rs arena L m' \<and>
         (\<forall>q \<in> L. block_bytes q (shm_bytes m' (dt_shmid arena)) = block_bytes q (shm_bytes m (dt_shmid arena)))
     | Some (p, r') \<Rightarrow>
         p = mapping (arena_map rs arena) + dt_offset r' \<and> blen r' = unat n \<and> bsd_inv rs arena (insert r' (L - {r})) m' \<and>
         take (blen r) (block_bytes r' (shm_bytes m' (dt_shmid arena))) =
           take (unat n) (block_bytes r (shm_bytes m (dt_shmid arena))) \<and>
         (\<forall>q \<in> L - {r}. block_bytes q (shm_bytes m' (dt_shmid arena)) = block_bytes q (shm_bytes m (dt_shmid arena))))"
  by (rule bsd_realloc_inv [OF assms])

text \<open>
  C38. \<^verbatim>\<open>BUCKSIZE\<close> shifts an \<^verbatim>\<open>int\<close>: in every arena the driver can be in, a request that needs a
  bucket beyond 26 (more than \<open>2 ^ 30\<close> bytes and a page) and the statistics that \<^verbatim>\<open>bsd_finalize\<close>
  always gathers evaluate a shift whose result does not fit, which is undefined.
\<close>

theorem bsd_shift_undefined:
  assumes "bsd_inv rs arena L m"
  shows "bsd_finalize rs arena m = Inl Bad_shift \<and>
    (\<forall>n. 2 ^ 30 + nat (pagesz (bsd_mds m (arena_loc arena))) < unat n + 16 \<and> unat n \<le> 2 ^ 63 \<longrightarrow>
       bsd_malloc rs arena n m = Inl Bad_shift)"
proof -
  obtain T F where core: "bsd_state rs arena m T F L" using assms by (auto simp: bsd_inv_def)
  have "dt_shmid (md_self (amds m (arena_loc arena))) = dt_shmid arena" using core by (simp add: bsd_core_def arena_ok_def)
  then have "bsd_finalize rs arena m = Inl Bad_shift"
    using bsd_mstats_shift [OF core, of 0 0 0] by (simp add: bsd_finalize_def bsd_mstats_def Let_def)
  then show ?thesis using bsd_malloc_shift [OF core] by blast
qed

subsection \<open>An arena\<close>

definition bsd_arena_ex :: dthread_shmref_t where
  "bsd_arena_ex = \<lparr>dt_shmid = 0, dt_offset = 0x1000, dt_length = 0x8000\<rparr>"

definition bsd_new_ex :: shmem where
  "bsd_new_ex = seg_ex\<lparr>amds := (\<lambda>_. \<lparr>mdmagic = DTHREAD_SHM_MD_MAGIC, md_self = bsd_arena_ex, min_uoffset = 0x1040,
     max_uoffset = 0x9000, badalign_bits = 0, mopid = 1\<rparr>)\<rparr>"

definition bsd_ex :: shmem where
  "bsd_ex = (case bsd_init shm_ex bsd_arena_ex bsd_new_ex of Inr (_, s) \<Rightarrow> s | Inl _ \<Rightarrow> bsd_new_ex)"

lemma bsd_first_bucket_ex: "bsd_first_bucket 0 17 = Inr 1" "bsd_first_bucket 0 4096 = Inr 8"
proof -
  show "bsd_first_bucket 0 17 = Inr 1" using bsd_first_bucket_run [of 0 1 17] by simp
  have "2 ^ (d + 4) < (4096 :: int)" if "d < 8" for d :: nat
    using that power_strict_increasing [of "d + 4" 12 "2 :: int"] by simp
  then show "bsd_first_bucket 0 4096 = Inr 8" using bsd_first_bucket_run [of 0 8 4096] by simp
qed

lemmas bsd_ex_simps = bsd_ex_def bsd_init_def mdalign_size_def dthread_shmref2ptr_def shm_ex_def bsd_arena_ex_def align_pad_def
  Let_def bsd_oversize_0 bsd_first_bucket_ex

lemma bsd_init_ex: "bsd_init shm_ex bsd_arena_ex bsd_new_ex = Inr (0, bsd_ex)"
  by (simp add: bsd_ex_simps)

lemma bsd_ex_self: "md_self (amds bsd_new_ex (arena_loc bsd_arena_ex)) = bsd_arena_ex"
  by (simp add: bsd_new_ex_def)

lemma shm_ex_pagesize: "pagesize shm_ex = 2 ^ 12"
  by (simp add: shm_ex_def)

lemma bsd_ex_inv: "bsd_inv shm_ex bsd_arena_ex {} bsd_ex"
  by (rule bsd_init_inv [OF bsd_init_ex bsd_ex_self shm_ex_maps_ok shm_ex_pagesize]) simp_all

lemma bsd_ex_mds:
  "bsd_mds bsd_ex (arena_loc bsd_arena_ex) = \<lparr>oversize = 16, minbucket = 1, pagesz = 4096, pagebucket = 8,
     nextf = replicate NBUCKETS 0, nmalloc = replicate NBUCKETS 0, mycore = 0x1420, core_resid = 0x7be0\<rparr>"
  "dt_shmid (md_self (amds bsd_ex (arena_loc bsd_arena_ex))) = 0"
  by (simp_all add: bsd_ex_simps bsd_new_ex_def)

lemma bsd_bucket_ex: "bsd_bucket (bsd_mds bsd_ex (arena_loc bsd_arena_ex)) 100 = Inr (Some 3)"
proof -
  have "bsd_pick 100 (- 16) 32 1 = Some 3"
    by (subst bsd_pick.simps, simp, subst bsd_pick.simps, simp, subst bsd_pick.simps, simp)
  then show ?thesis by (simp add: bsd_bucket_def bsd_ex_mds BUCKSIZE_def)
qed

lemma bsd_ex_alloc:
  obtains p r m where "bsd_malloc shm_ex bsd_arena_ex 100 bsd_ex = Inr (Some (p, r), m)"
proof -
  let ?loc = "arena_loc bsd_arena_ex"
  have z: "nextf (bsd_mds bsd_ex ?loc) ! 3 = 0" by (simp add: bsd_ex_mds)
  have "dthread_shmref2ptr shm_ex (Some \<lparr>dt_shmid = 0, dt_offset = 0x1420, dt_length = 4096\<rparr>) 4096 \<noteq> None"
    by (simp add: dthread_shmref2ptr_def shm_ex_def)
  then have "\<exists>m. bsd_morecore shm_ex bsd_arena_ex 3 bsd_ex = Inr m \<and> nextf (bsd_mds m ?loc) ! 3 = 0x1420 \<and>
      oversize (bsd_mds m ?loc) = 16 \<and> dt_shmid (md_self (amds m ?loc)) = 0"
    by (simp add: bsd_morecore_def bsd_ex_mds BUCKSIZE_def Let_def upd_bsd_def upd_bytes_def)
  then obtain m where m: "bsd_morecore shm_ex bsd_arena_ex 3 bsd_ex = Inr m" "nextf (bsd_mds m ?loc) ! 3 = 0x1420"
      "oversize (bsd_mds m ?loc) = 16" "dt_shmid (md_self (amds m ?loc)) = 0"
    by blast
  have "\<exists>p r t. bsd_take shm_ex bsd_arena_ex 100 3 m = (Some (p, r), t)"
    using m by (simp add: bsd_take_def Let_def dthread_shmref2ptr_def shm_ex_def)
  then obtain p r t where "bsd_take shm_ex bsd_arena_ex 100 3 m = (Some (p, r), t)" by blast
  then have "bsd_malloc shm_ex bsd_arena_ex 100 bsd_ex = Inr (Some (p, r), t)" using m z by (simp add: bsd_malloc_def bsd_bucket_ex)
  then show ?thesis by (rule that)
qed

theorem bsd_client_safe_witness:
  "\<exists>A s. (client_step (bsd_alloc shm_ex bsd_arena_ex) (bsd_release shm_ex bsd_arena_ex) (arena_bytes bsd_arena_ex)
     (arena_put bsd_arena_ex) bsd_fits)\<^sup>*\<^sup>* (Map.empty, bsd_ex) (A, s) \<and> dom A \<noteq> {} \<and>
     (\<forall>r \<in> dom A. blen r = 100 \<and> bstart r + blen r \<le> 0x9000)"
proof -
  obtain p r m where a: "bsd_malloc shm_ex bsd_arena_ex 100 bsd_ex = Inr (Some (p, r), m)" by (rule bsd_ex_alloc)
  let ?A = "Map.empty(r \<mapsto> get_bytes (bstart r) (unat (100 :: u64)) (arena_bytes bsd_arena_ex m))"
  have run: "(client_step (bsd_alloc shm_ex bsd_arena_ex) (bsd_release shm_ex bsd_arena_ex) (arena_bytes bsd_arena_ex)
     (arena_put bsd_arena_ex) bsd_fits)\<^sup>*\<^sup>* (Map.empty, bsd_ex) (?A, m)"
    by (rule r_into_rtranclp, rule client_alloc [of _ 100]) (simp_all add: bsd_fits_def bsd_alloc_def a)
  from bsd_client_safe [OF bsd_init_ex bsd_ex_self shm_ex_maps_ok shm_ex_pagesize _ _ run]
  have "\<forall>q \<in> dom ?A. blen q = 100 \<and> bstart q + blen q \<le> 0x9000" by (auto simp: bsd_arena_ex_def bstart_def blen_def dest!: spec [of _ r])
  moreover have "dom ?A \<noteq> {}" by simp
  ultimately show ?thesis using run by blast
qed

theorem bsd_realloc_keeps_witness:
  "\<exists>p r m res m'. bsd_malloc shm_ex bsd_arena_ex 100 bsd_ex = Inr (Some (p, r), m) \<and>
     bsd_realloc shm_ex bsd_arena_ex r 200 m = Inr (res, m')"
proof -
  obtain p r m where a: "bsd_malloc shm_ex bsd_arena_ex 100 bsd_ex = Inr (Some (p, r), m)" by (rule bsd_ex_alloc)
  then have "bsd_inv shm_ex bsd_arena_ex {r} m" using bsd_malloc_inv [OF bsd_ex_inv, of 100] by (simp add: bsd_fits_def)
  from bsd_realloc_keeps [OF this, of r 200] show ?thesis using a by (fastforce simp: bsd_fits_def)
qed

theorem bsd_shift_undefined_witness:
  "bsd_finalize shm_ex bsd_arena_ex bsd_ex = Inl Bad_shift \<and> bsd_malloc shm_ex bsd_arena_ex 0x50000000 bsd_ex = Inl Bad_shift"
  using bsd_shift_undefined [OF bsd_ex_inv] by (simp add: bsd_ex_mds)

end
