(* ===== verification/Dt_Frame.thy ===== *)
theory Dt_Frame
  imports Dt_Shmops Dt_Bsd_Props
begin

text \<open>
  Many arenas at once: an operation of a malloc driver changes nothing outside its arena,
  and the invariant of an arena depends on nothing outside it, nor on the rank that looks
  at it.  The interface \<open>arena_driver\<close> collects what the malloc interface relies on; both
  internal drivers implement it.
\<close>

subsection \<open>Changes inside a range of bytes\<close>

definition bytes_in :: "nat \<Rightarrow> nat \<Rightarrow> bytes \<Rightarrow> bytes \<Rightarrow> bool" where
  "bytes_in a n mem mem' \<longleftrightarrow> (\<forall>j. j < a \<or> a + n \<le> j \<longrightarrow> mem' j = mem j)"

lemma bytes_in_refl [simp]: "bytes_in a n mem mem"
  by (simp add: bytes_in_def)

lemma bytes_in_trans: "bytes_in a n mem mem' \<Longrightarrow> bytes_in a n mem' mem'' \<Longrightarrow> bytes_in a n mem mem''"
  by (simp add: bytes_in_def)

lemma bytes_in_put: "a \<le> b \<Longrightarrow> b + length xs \<le> a + n \<Longrightarrow> bytes_in a n mem (put_bytes b xs mem)"
  by (auto simp: bytes_in_def put_bytes_def)

lemma bytes_in_wr:
  "a \<le> b \<Longrightarrow> b + 4 \<le> a + n \<Longrightarrow> bytes_in a n mem (wr32 b w mem)"
  "a \<le> b \<Longrightarrow> b + 8 \<le> a + n \<Longrightarrow> bytes_in a n mem (wr64 b v mem)"
  by (simp_all add: wr32_def wr64_def bytes_in_put)

lemma bytes_in_wr_hdr: "a \<le> b \<Longrightarrow> b + 16 \<le> a + n \<Longrightarrow> bytes_in a n mem (wr_hdr b sz mem)"
  unfolding wr_hdr_def by (intro bytes_in_trans [OF _ bytes_in_wr(1)] bytes_in_wr(1)) simp_all

lemma get_bytes_in: "bytes_in a n mem mem' \<Longrightarrow> apart b k a n \<Longrightarrow> get_bytes b k mem' = get_bytes b k mem"
  by (auto simp: bytes_in_def get_bytes_def apart_def)

lemma bytes_in_link_blocks:
  "a \<le> unat off \<Longrightarrow> 8 \<le> unat sz \<Longrightarrow> unat off + k * unat sz + 8 \<le> a + n \<Longrightarrow> a + n \<le> 2 ^ 64 \<Longrightarrow>
     bytes_in a n mem (link_blocks off sz k mem)"
proof (induction k arbitrary: off mem)
  case 0
  then show ?case by (simp add: bytes_in_wr(2))
next
  case (Suc k)
  have "unat (off + sz) = unat off + unat sz"
    using Suc.prems by (intro unat_add_no_overflow) simp
  then have "bytes_in a n (wr64 (unat off) (off + sz) mem) (link_blocks (off + sz) sz k (wr64 (unat off) (off + sz) mem))"
    using Suc.prems by (intro Suc.IH) simp_all
  moreover have "bytes_in a n mem (wr64 (unat off) (off + sz) mem)" using Suc.prems by (intro bytes_in_wr(2)) simp_all
  ultimately show ?case by (simp add: bytes_in_trans)
qed

subsection \<open>Changes inside an arena\<close>

definition arena_frame :: "dthread_shmref_t \<Rightarrow> shmem \<Rightarrow> shmem \<Rightarrow> bool" where
  "arena_frame a m m' \<longleftrightarrow> seg_mds m' = seg_mds m \<and> da_src m' = da_src m \<and>
     (\<forall>l. l \<noteq> arena_loc a \<longrightarrow> amds m' l = amds m l \<and> brk_mds m' l = brk_mds m l \<and> bsd_mds m' l = bsd_mds m l) \<and>
     (\<forall>i. i \<noteq> dt_shmid a \<longrightarrow> shm_bytes m' i = shm_bytes m i) \<and>
     bytes_in (bstart a) (blen a) (shm_bytes m (dt_shmid a)) (shm_bytes m' (dt_shmid a))"

lemma arena_frame_refl [simp]: "arena_frame a m m"
  by (simp add: arena_frame_def)

lemma arena_frame_trans: "arena_frame a m m' \<Longrightarrow> arena_frame a m' m'' \<Longrightarrow> arena_frame a m m''"
  unfolding arena_frame_def by (auto intro: bytes_in_trans)

definition arenas_apart :: "dthread_shmref_t \<Rightarrow> dthread_shmref_t \<Rightarrow> bool" where
  "arenas_apart a b \<longleftrightarrow> dt_shmid a \<noteq> dt_shmid b \<or> blocks_apart a b"

lemma arenas_apart_loc: "arenas_apart a b \<Longrightarrow> 0 < blen a \<Longrightarrow> 0 < blen b \<Longrightarrow> arena_loc a \<noteq> arena_loc b"
  by (auto simp: arenas_apart_def arena_loc_def blocks_apart_def apart_def bstart_def)

text \<open>What an arena keeps when another one changes.\<close>

lemma arena_frame_other:
  assumes "arena_frame b m m'" "arenas_apart a b" "0 < blen a" "0 < blen b"
  shows "amds m' (arena_loc a) = amds m (arena_loc a)" "brk_mds m' (arena_loc a) = brk_mds m (arena_loc a)"
    "bsd_mds m' (arena_loc a) = bsd_mds m (arena_loc a)"
    "bstart a \<le> c \<Longrightarrow> c + k \<le> bstart a + blen a \<Longrightarrow>
       get_bytes c k (shm_bytes m' (dt_shmid a)) = get_bytes c k (shm_bytes m (dt_shmid a))"
proof -
  have "arena_loc a \<noteq> arena_loc b" using arenas_apart_loc assms(2-4) .
  then show "amds m' (arena_loc a) = amds m (arena_loc a)" "brk_mds m' (arena_loc a) = brk_mds m (arena_loc a)"
      "bsd_mds m' (arena_loc a) = bsd_mds m (arena_loc a)"
    using assms(1) unfolding arena_frame_def by blast+
  assume c: "bstart a \<le> c" "c + k \<le> bstart a + blen a"
  show "get_bytes c k (shm_bytes m' (dt_shmid a)) = get_bytes c k (shm_bytes m (dt_shmid a))"
  proof (cases "dt_shmid a = dt_shmid b")
    case True
    then have "apart (bstart a) (blen a) (bstart b) (blen b)" using assms(2) by (simp add: arenas_apart_def blocks_apart_def)
    then have "apart c k (bstart b) (blen b)" using apart_sub c by blast
    then show ?thesis using get_bytes_in assms(1) True unfolding arena_frame_def by metis
  next
    case False
    then show ?thesis using assms(1) by (simp add: arena_frame_def)
  qed
qed

subsection \<open>Ranks\<close>

text \<open>Two ranks that see the same segments; mappings are at page boundaries.\<close>

definition same_segs :: "shmrs \<Rightarrow> shmrs \<Rightarrow> bool" where
  "same_segs rs rs' \<longleftrightarrow> map map_size (shmmap rs') = map map_size (shmmap rs) \<and> map md_offset (shmmap rs') = map md_offset (shmmap rs) \<and>
     (\<forall>i < nshmsrc rs. 16 dvd unat (mapping (shmmap rs ! i)) \<and> 16 dvd unat (mapping (shmmap rs' ! i)))"

lemma same_segs_maps:
  assumes "same_segs rs rs'"
  shows "nshmsrc rs' = nshmsrc rs" "i < nshmsrc rs \<Longrightarrow> map_size (shmmap rs' ! i) = map_size (shmmap rs ! i)"
    "i < nshmsrc rs \<Longrightarrow> 16 dvd unat (mapping (shmmap rs' ! i)) + n \<longleftrightarrow> 16 dvd unat (mapping (shmmap rs ! i)) + n"
    "i < nshmsrc rs \<Longrightarrow> md_offset (shmmap rs' ! i) = md_offset (shmmap rs ! i)"
proof -
  have e: "map map_size (shmmap rs') = map map_size (shmmap rs)" using assms by (simp add: same_segs_def)
  show n: "nshmsrc rs' = nshmsrc rs" using map_eq_imp_length_eq [OF e] .
  show "map_size (shmmap rs' ! i) = map_size (shmmap rs ! i)" if "i < nshmsrc rs"
    using arg_cong [OF e, of "\<lambda>xs. xs ! i"] that n by simp
  show "16 dvd unat (mapping (shmmap rs' ! i)) + n \<longleftrightarrow> 16 dvd unat (mapping (shmmap rs ! i)) + n" if "i < nshmsrc rs"
    using assms that unfolding same_segs_def by (metis dvd_add_right_iff)
  have o: "map md_offset (shmmap rs') = map md_offset (shmmap rs)" using assms by (simp add: same_segs_def)
  show "md_offset (shmmap rs' ! i) = md_offset (shmmap rs ! i)" if "i < nshmsrc rs"
    using arg_cong [OF o, of "\<lambda>xs. xs ! i"] that n by simp
qed

subsection \<open>The break driver\<close>

lemma brk_inv_frame:
  assumes "brk_inv rs a L m" "arena_frame b m m'" "arenas_apart a b" "0 < blen b"
  shows "brk_inv rs a L m'"
proof -
  have core: "brk_core rs a (amds m (arena_loc a)) (brk_mds m (arena_loc a)) (shm_bytes m (dt_shmid a)) L"
    using assms(1) by (simp add: brk_inv_def)
  have "0 < blen a" using core by (simp add: brk_core_def arena_ok_def)
  note o = arena_frame_other [OF assms(2,3) this assms(4)]
  have "get_bytes (bstart r - 16) 16 (shm_bytes m' (dt_shmid a)) = get_bytes (bstart r - 16) 16 (shm_bytes m (dt_shmid a))"
    if "r \<in> L" for r
  proof (rule o(4))
    have "unat (min_uoffset (amds m (arena_loc a))) + 16 \<le> bstart r" using core that by (simp add: brk_core_def brk_block_def)
    moreover have "bstart a \<le> unat (min_uoffset (amds m (arena_loc a)))" using core by (simp add: brk_core_def)
    ultimately show "bstart a \<le> bstart r - 16" by linarith
    show "bstart r - 16 + 16 \<le> bstart a + blen a"
      using brk_block_bounds(2) [OF core that] brk_block_in_region(1) [OF core that] by linarith
  qed
  then show ?thesis using core brk_core_mem [of L "shm_bytes m' (dt_shmid a)" "shm_bytes m (dt_shmid a)"]
    unfolding brk_inv_def o(1,2) by blast
qed

lemma brk_inv_rank: "same_segs rs rs' \<Longrightarrow> brk_inv rs a L m \<Longrightarrow> brk_inv rs' a L m"
proof -
  assume s: "same_segs rs rs'" and i: "brk_inv rs a L m"
  have "unat (dt_shmid a) < nshmsrc rs" using i by (simp add: brk_inv_def brk_core_def arena_ok_def)
  note eq = same_segs_maps(1) [OF s] same_segs_maps(2,3) [OF s this]
  show ?thesis using i unfolding brk_inv_def brk_core_def brk_block_def arena_ok_def eq add.assoc by blast
qed

lemma break_malloc_frame:
  assumes "brk_inv rs a L m" "brk_fits n" "break_malloc rs a n m = (res, m')"
  shows "arena_frame a m m'"
proof (cases res)
  case None
  then have "m' = m" using break_malloc_none assms(3) by blast
  then show ?thesis by simp
next
  case (Some pr)
  obtain p r where pr: "pr = (p, r)" by fastforce
  note b = break_malloc_some [OF assms(1,2) assms(3) [unfolded Some pr]]
  have f: "seg_mds m' = seg_mds m" "da_src m' = da_src m" "bsd_mds m' = bsd_mds m" "\<forall>l. l \<noteq> arena_loc a \<longrightarrow> brk_mds m' l = brk_mds m l"
    using assms(3) by (auto simp: break_malloc_def Let_def upd_bytes_def split: if_splits)
  have "bytes_in (bstart a) (blen a) (shm_bytes m (dt_shmid a)) (wr_hdr (bstart r - 16) n (shm_bytes m (dt_shmid a)))"
    using b(3,8,9) by (intro bytes_in_wr_hdr) linarith+
  then show ?thesis using f b(5,10) by (simp add: arena_frame_def)
qed

lemma break_free_frame:
  assumes "brk_inv rs a L m" "r \<in> L" "break_free rs a r m = Inr m'"
  shows "arena_frame a m m'"
proof -
  have core: "brk_core rs a (amds m (arena_loc a)) (brk_mds m (arena_loc a)) (shm_bytes m (dt_shmid a)) L"
    using assms(1) by (simp add: brk_inv_def)
  have k: "hdrlen (brk_mds m (arena_loc a)) = 16" "dt_shmid r = dt_shmid a" "16 \<le> bstart r"
    using core assms(2) brk_block_in_region(1) [OF core assms(2)] by (simp_all add: brk_core_def brk_block_def)
  have u: "unat (dt_offset r - 16) = bstart r - 16" using k(3) by (simp add: unat_sub word_le_nat_alt bstart_def)
  have "bstart a + 80 \<le> bstart r" "bstart r \<le> bstart a + blen a" using brk_block_bounds(1,2) [OF core assms(2)] by simp_all
  then have "bytes_in (bstart a) (blen a) (shm_bytes m (dt_shmid a)) (wr32 (bstart r - 16) 0xdeaddead (shm_bytes m (dt_shmid a)))"
    using k(3) by (intro bytes_in_wr(1)) linarith+
  then show ?thesis using assms(3) k(1,2) u
    by (auto simp: arena_frame_def break_free_def Let_def upd_bytes_def split: if_splits option.splits)
qed

lemma arena_put_frame:
  assumes "bstart a \<le> c" "c + length xs \<le> bstart a + blen a"
  shows "arena_frame a m (arena_put a c xs m)" "amds (arena_put a c xs m) = amds m"
  using assms by (simp_all add: arena_frame_def arena_put_def upd_bytes_def bytes_in_put)

lemma break_amds:
  "break_malloc rs a n m = (res, m') \<Longrightarrow> amds m' = amds m" "break_free rs a r m = Inr m' \<Longrightarrow> amds m' = amds m"
  by (auto simp: break_malloc_def break_free_def Let_def upd_bytes_def split: if_splits option.splits)

lemma break_realloc_frame:
  assumes "brk_inv rs a L m" "r \<in> L" "brk_fits n" "break_realloc rs a r n m = Inr (res, m')"
  shows "arena_frame a m m'" "amds m' = amds m"
proof -
  let ?mem = "shm_bytes m (dt_shmid a)" and ?k = "hdr_size (shm_bytes m (dt_shmid a)) (bstart r - 16)"
  have core: "brk_core rs a (amds m (arena_loc a)) (brk_mds m (arena_loc a)) ?mem L" using assms(1) by (simp add: brk_inv_def)
  have b: "dt_shmid r = dt_shmid a" "hdr_ok ?mem (bstart r - 16)" "hdrlen (brk_mds m (arena_loc a)) = 16"
    using core assms(2) by (simp_all add: brk_core_def brk_block_def)
  note step = break_realloc_def Let_def b brk_shmref2ptr [OF core assms(2)]
  have "arena_frame a m m' \<and> amds m' = amds m"
  proof (cases "n \<le> ?k \<or> fst (break_malloc rs a n m) = None")
    case True
    then have "m' = m" using assms(4) break_malloc_none [of rs a n m]
      by (auto simp: step split: prod.splits option.splits if_splits)
    then show ?thesis by simp
  next
    case False
    then obtain p r' m\<^sub>1 where al: "break_malloc rs a n m = (Some (p, r'), m\<^sub>1)" by (cases "break_malloc rs a n m") auto
    note new = break_malloc_some [OF assms(1,3) al]
    define m\<^sub>2 where "m\<^sub>2 = arena_put a (bstart r') (get_bytes (bstart r) (unat ?k) (shm_bytes m\<^sub>1 (dt_shmid a))) m\<^sub>1"
    have lt: "unat ?k < unat n" using False by (simp add: word_le_nat_alt)
    have i1: "brk_inv rs a (insert r' L) m\<^sub>1" using break_malloc_inv [OF assms(1,3) al] by blast
    then have i2: "brk_inv rs a (insert r' L) m\<^sub>2" unfolding m\<^sub>2_def using lt new(2) by (intro brk_put_inv) simp_all
    have fr: "break_free rs a r m\<^sub>2 = Inr m'"
      using assms(4) False al new(1) by (simp add: step m\<^sub>2_def arena_put_def bstart_def [symmetric])
    have "bstart a \<le> bstart r'" "bstart r' + blen r' \<le> bstart a + blen a"
      using brk_block_bounds(1,2) [OF i1 [unfolded brk_inv_def], of r'] by simp_all
    then have "arena_frame a m\<^sub>1 m\<^sub>2" "amds m\<^sub>2 = amds m\<^sub>1"
      unfolding m\<^sub>2_def using lt new(2) by (simp_all add: arena_put_frame)
    moreover have "arena_frame a m\<^sub>2 m'" using break_free_frame [OF i2 _ fr] assms(2) by simp
    ultimately show ?thesis
      using break_malloc_frame [OF assms(1,3) al] new(5) break_amds(2) [OF fr] arena_frame_trans by metis
  qed
  then show "arena_frame a m m'" "amds m' = amds m" by blast+
qed

subsection \<open>The bsd driver\<close>

lemma bsd_inv_frame:
  assumes "bsd_inv rs a L m" "arena_frame b m m'" "arenas_apart a b" "0 < blen b"
  shows "bsd_inv rs a L m'"
proof -
  obtain T F where core: "bsd_state rs a m T F L" using assms(1) by (auto simp: bsd_inv_def)
  have lo: "bstart a + 1056 \<le> unat (min_uoffset (amds m (arena_loc a)))" "unat (mycore (bsd_mds m (arena_loc a))) \<le> bstart a + blen a"
      "unat (min_uoffset (amds m (arena_loc a))) \<le> unat (mycore (bsd_mds m (arena_loc a)))"
    using core by (auto simp: bsd_core_def)
  then have "0 < blen a" by linarith
  note o = arena_frame_other [OF assms(2,3) this assms(4)]
  have "rd64 (shm_bytes m' (dt_shmid a)) c = rd64 (shm_bytes m (dt_shmid a)) c" if "T c = Some d" for c d
  proof -
    note t = bsd_carvedD [OF core that]
    have "get_bytes c 8 (shm_bytes m' (dt_shmid a)) = get_bytes c 8 (shm_bytes m (dt_shmid a))"
      by (rule o(4)) (use t lo in linarith)+
    then show ?thesis by (rule rd_get_bytes_cong(2))
  qed
  then have "bsd_core rs a (amds m (arena_loc a)) (bsd_mds m (arena_loc a)) (shm_bytes m' (dt_shmid a)) T F L"
    by (rule bsd_core_mem [OF core])
  then show ?thesis unfolding bsd_inv_def o(1,3) by blast
qed

lemma bsd_inv_rank: "same_segs rs rs' \<Longrightarrow> bsd_inv rs a L m \<Longrightarrow> bsd_inv rs' a L m"
proof -
  assume s: "same_segs rs rs'" and i: "bsd_inv rs a L m"
  have "unat (dt_shmid a) < nshmsrc rs" using i by (auto simp: bsd_inv_def bsd_core_def arena_ok_def)
  note eq = same_segs_maps(1) [OF s] same_segs_maps(2,3) [OF s this]
  have z: "16 dvd unat (mapping (arena_map rs' a)) \<longleftrightarrow> 16 dvd unat (mapping (arena_map rs a))" using eq(3) [of 0] by simp
  show ?thesis using i unfolding bsd_inv_def bsd_core_def bsd_carved_def arena_ok_def eq z by blast
qed

lemma bsd_block_in_arena:
  assumes "bsd_state rs a m T F L" "T c = Some d"
  shows "bstart a \<le> c" "c + 8 \<le> bstart a + blen a"
proof -
  note t = bsd_carvedD [OF assms]
  have "bstart a \<le> unat (min_uoffset (amds m (arena_loc a)))" "unat (mycore (bsd_mds m (arena_loc a))) \<le> bstart a + blen a"
    using assms(1) by (auto simp: bsd_core_def)
  then show "bstart a \<le> c" "c + 8 \<le> bstart a + blen a" using t by linarith+
qed

lemma bsd_free_frame:
  assumes "bsd_inv rs a L m" "r \<in> L" "bsd_free rs a r m = Inr m'"
  shows "arena_frame a m m'"
proof -
  obtain T F where core: "bsd_state rs a m T F L" using assms(1) by (auto simp: bsd_inv_def)
  obtain b where b: "bsd_live a (bsd_mds m (arena_loc a)) (shm_bytes m (dt_shmid a)) T F r b" by (rule bsd_liveE [OF core assms(2)])
  note ck = bsd_block_checked [OF core assms(2) b]
  have T: "T (bstart r - 16) = Some b" using b by (simp add: bsd_live_def)
  have ov: "oversize (bsd_mds m (arena_loc a)) = 16" using core by (simp add: bsd_core_def bsd_md_ok_def)
  have "bytes_in (bstart a) (blen a) (shm_bytes m (dt_shmid a)) (wr64 (bstart r - 16) v (shm_bytes m (dt_shmid a)))" for v
    using bsd_block_in_arena [OF core T] by (rule bytes_in_wr(2))
  moreover have "\<not> nat (int b) \<ge> NBUCKETS" using ck(5) by simp
  ultimately show ?thesis using assms(3) ck(1-3,6-8) ov
    by (auto simp: arena_frame_def bsd_free_def Let_def upd_bsd_def upd_bytes_def)
qed

lemma bsd_take_frame:
  assumes "bsd_inv rs a L m" "b < NBUCKETS" "nextf (bsd_mds m (arena_loc a)) ! b \<noteq> 0" "bsd_take rs a n b m = (res, m')"
  shows "arena_frame a m m'"
proof -
  obtain T F where core: "bsd_state rs a m T F L" using assms(1) by (auto simp: bsd_inv_def)
  define w where "w = nextf (bsd_mds m (arena_loc a)) ! b"
  have f: "bsd_chain (shm_bytes m (dt_shmid a)) w (F b)" "\<forall>c \<in> set (F b). T c = Some b"
    using core assms(2) by (simp_all add: bsd_core_def w_def)
  then have T: "T (unat w) = Some b" using assms(3) by (cases "F b") (auto simp: w_def)
  have self: "md_self (amds m (arena_loc a)) = a" using core by (simp add: bsd_core_def arena_ok_def)
  have "bytes_in (bstart a) (blen a) (shm_bytes m (dt_shmid a)) (wr64 (unat w) v (shm_bytes m (dt_shmid a)))" for v
    using bsd_block_in_arena [OF core T] by (rule bytes_in_wr(2))
  then show ?thesis using assms(4) self
    by (auto simp: arena_frame_def bsd_take_def Let_def upd_bsd_def upd_bytes_def w_def [symmetric] split: option.splits)
qed

lemma bsd_grown_frame:
  assumes "bsd_state rs a m T F L" "1 \<le> b"
    and N: "0 < N" "unat amt = N * bsd_blk (bsd_mds m (arena_loc a)) b" "amt \<le> core_resid (bsd_mds m (arena_loc a))"
      "N * bsd_blk (bsd_mds m (arena_loc a)) b < 2 ^ 32"
  shows "arena_frame a m (bsd_grown a b amt N m)"
proof -
  let ?md = "bsd_mds m (arena_loc a)"
  let ?blk = "bsd_blk ?md b"
  have lo: "bstart a \<le> unat (mycore ?md)" "unat (mycore ?md) + unat (core_resid ?md) = bstart a + blen a"
      "bstart a + blen a \<le> unat (map_size (arena_map rs a))"
    using assms(1) by (auto simp: bsd_core_def arena_ok_def)
  have blk: "32 \<le> ?blk" by (rule bsd_blk_ge [OF assms(2)])
  have "?blk \<le> N * ?blk" using N(1) by simp
  then have "?blk < 2 ^ 32" using N(4) by (rule le_less_trans)
  then have "?blk < 2 ^ 64" by (rule less_trans) simp
  then have u: "unat (word_of_nat ?blk :: u64) = ?blk" by (simp add: unat_of_nat)
  have e: "N * ?blk = (N - 1) * ?blk + ?blk" using N(1) by (cases N) simp_all
  have "N * ?blk \<le> unat (core_resid ?md)" using N(2,3) by (simp add: word_le_nat_alt)
  then have "unat (mycore ?md) + (N - 1) * ?blk + 8 \<le> bstart a + blen a" using e blk lo(2) by linarith
  moreover have "bstart a + blen a \<le> 2 ^ 64" using lo(3) unat64_less(1) [of "map_size (arena_map rs a)"] by linarith
  ultimately have "bytes_in (bstart a) (blen a) (shm_bytes m (dt_shmid a))
      (link_blocks (mycore ?md) (word_of_nat ?blk) (N - 1) (shm_bytes m (dt_shmid a)))"
    using lo(1) blk u by (intro bytes_in_link_blocks) simp_all
  then show ?thesis by (simp add: arena_frame_def bsd_grown_def Let_def upd_bsd_def upd_bytes_def)
qed

lemma bsd_malloc_frame:
  assumes "bsd_inv rs a L m" "bsd_fits n" "bsd_malloc rs a n m = Inr (res, m')"
  shows "arena_frame a m m'"
proof -
  let ?md = "bsd_mds m (arena_loc a)"
  obtain T F where core: "bsd_state rs a m T F L" using assms(1) by (auto simp: bsd_inv_def)
  then have md: "bsd_md_ok ?md" "md_self (amds m (arena_loc a)) = a" by (simp_all add: bsd_core_def arena_ok_def)
  obtain b where b: "1 \<le> b" "b \<le> 26" "bsd_bucket ?md n = Inr (Some (int b))"
    using bsd_bucket_fits [OF md(1)] assms(2) unfolding bsd_fits_def by blast
  have nb: "b < NBUCKETS" using b by simp
  show ?thesis
  proof (cases "nextf ?md ! b = 0")
    case False
    then have "bsd_take rs a n b m = (res, m')" using assms(3) b by (simp add: bsd_malloc_def)
    then show ?thesis using bsd_take_frame [OF assms(1) nb False] by blast
  next
    case True
    have "bsd_chain (shm_bytes m (dt_shmid a)) (nextf ?md ! b) (F b)" using core nb by (simp add: bsd_core_def)
    then have nil: "F b = []" using True by (cases "F b") auto
    obtain m\<^sub>1 where m\<^sub>1: "bsd_morecore rs a (int b) m = Inr m\<^sub>1" "bsd_inv rs a L m\<^sub>1" "arena_frame a m m\<^sub>1"
    proof (cases rule: bsd_morecore_run [OF md b(1,2), of rs])
      case 1
      then show thesis using that assms(1) by simp
    next
      case (2 N amt)
      then show thesis using that bsd_grown_core(1) [OF core b(1,2) nil 2(2-6)] bsd_grown_frame [OF core b(1) 2(2-4,6)] by simp
    qed
    then have "(if nextf (bsd_mds m\<^sub>1 (arena_loc a)) ! b = 0 then (None, m\<^sub>1) else bsd_take rs a n b m\<^sub>1) = (res, m')"
      using assms(3) b True by (simp add: bsd_malloc_def split: if_splits)
    then show ?thesis using m\<^sub>1(2,3) bsd_take_frame [OF m\<^sub>1(2) nb] arena_frame_trans by (metis prod.inject)
  qed
qed

lemma bsd_block_bounds:
  assumes "bsd_inv rs a L m" "r \<in> L"
  shows "dt_shmid r = dt_shmid a" "bstart a + unat sizeof_bsd_md \<le> bstart r" "bstart r + blen r \<le> bstart a + blen a"
    "16 dvd unat (mapping (arena_map rs a)) + bstart r" "unat (min_uoffset (amds m (arena_loc a))) \<le> bstart r"
proof -
  obtain T F where core: "bsd_state rs a m T F L" using assms(1) by (auto simp: bsd_inv_def)
  obtain b where b: "bsd_live a (bsd_mds m (arena_loc a)) (shm_bytes m (dt_shmid a)) T F r b" by (rule bsd_liveE [OF core assms(2)])
  show "bstart a + unat sizeof_bsd_md \<le> bstart r" "bstart r + blen r \<le> bstart a + blen a" "16 dvd unat (mapping (arena_map rs a)) + bstart r"
    by (rule bsd_block_ref [OF core assms(2) b])+
  have l: "16 \<le> bstart r" "T (bstart r - 16) = Some b" using b by (simp_all add: bsd_live_def)
  show "dt_shmid r = dt_shmid a" "unat (min_uoffset (amds m (arena_loc a))) \<le> bstart r"
    using b bsd_carvedD(3) [OF core l(2)] l(1) by (simp_all add: bsd_live_def)
qed

lemma bsd_amds:
  "bsd_inv rs a L m \<Longrightarrow> bsd_fits n \<Longrightarrow> bsd_malloc rs a n m = Inr (res, m') \<Longrightarrow> amds m' = amds m"
  "bsd_free rs a r m = Inr m' \<Longrightarrow> amds m' = amds m"
  using bsd_malloc_inv [of rs a L m n]
  by (auto simp: bsd_free_def Let_def upd_bytes_def upd_bsd_def split: if_splits option.splits)

lemma bsd_realloc_frame:
  assumes "bsd_inv rs a L m" "r \<in> L" "bsd_fits n" "bsd_realloc rs a r n m = Inr (res, m')"
  shows "arena_frame a m m'" "amds m' = amds m"
proof -
  obtain T F where core: "bsd_state rs a m T F L" using assms(1) by (auto simp: bsd_inv_def)
  obtain b where b: "bsd_live a (bsd_mds m (arena_loc a)) (shm_bytes m (dt_shmid a)) T F r b" by (rule bsd_liveE [OF core assms(2)])
  let ?cap = "bsd_usable (bsd_mds m (arena_loc a)) (2 ^ (b + 4))"
  obtain prev where run: "bsd_realloc rs a r n m =
     (if n \<le> ?cap \<and> (prev = 0 \<or> n > prev) then
        Inr (Some (mapping (arena_map rs a) + dt_offset r, \<lparr>dt_shmid = dt_shmid r, dt_offset = dt_offset r, dt_length = n\<rparr>), m)
      else bsd_move rs a r n (min n ?cap) m)"
    using bsd_realloc_run [OF core assms(2) b, of n] by blast
  have "arena_frame a m m' \<and> amds m' = amds m"
  proof (cases "n \<le> ?cap \<and> (prev = 0 \<or> n > prev)")
    case True
    have "m' = m" using assms(4) unfolding run if_P [OF True] by simp
    then show ?thesis by simp
  next
    case False
    have mv: "bsd_move rs a r n (min n ?cap) m = Inr (res, m')" using assms(4) unfolding run if_not_P [OF False] .
    obtain res\<^sub>1 m\<^sub>1 where al: "bsd_malloc rs a n m = Inr (res\<^sub>1, m\<^sub>1)" "amds m\<^sub>1 = amds m"
        "\<And>p r'. res\<^sub>1 = Some (p, r') \<Longrightarrow> dt_shmid r' = dt_shmid a \<and> blen r' = unat n \<and> bsd_inv rs a (insert r' L) m\<^sub>1"
      using bsd_malloc_inv [OF assms(1,3)] by fastforce
    note f1 = bsd_malloc_frame [OF assms(1,3) al(1)]
    show ?thesis
    proof (cases res\<^sub>1)
      case None
      then show ?thesis using mv al(1,2) f1 by (simp add: bsd_move_def)
    next
      case (Some pr)
      obtain p r' where pr: "pr = (p, r')" by fastforce
      define m\<^sub>2 where "m\<^sub>2 = arena_put a (bstart r') (get_bytes (bstart r) (unat (min n ?cap)) (shm_bytes m\<^sub>1 (dt_shmid r))) m\<^sub>1"
      have r': "dt_shmid r' = dt_shmid a" "blen r' = unat n" "bsd_inv rs a (insert r' L) m\<^sub>1" using al(3) Some pr by blast+
      have fr: "bsd_free rs a r m\<^sub>2 = Inr m'"
        using mv al(1) Some pr r'(1) by (simp add: bsd_move_def m\<^sub>2_def arena_put_def bstart_def)
      have len: "unat (min n ?cap) \<le> blen r'" using r'(2) by (simp add: min_def word_le_nat_alt)
      then have i2: "bsd_inv rs a (insert r' L) m\<^sub>2" unfolding m\<^sub>2_def by (intro bsd_put_inv [OF r'(3)]) simp_all
      have f2: "arena_frame a m\<^sub>1 m\<^sub>2" "amds m\<^sub>2 = amds m\<^sub>1"
        unfolding m\<^sub>2_def using bsd_block_bounds(2,3) [OF r'(3), of r'] len by (simp_all add: arena_put_frame)
      have "arena_frame a m\<^sub>2 m'" using bsd_free_frame [OF i2 _ fr] assms(2) by simp
      then show ?thesis using f1 f2 al(2) bsd_amds(2) [OF fr] arena_frame_trans by metis
    qed
  qed
  then show "arena_frame a m m'" "amds m' = amds m" by blast+
qed

subsection \<open>The interface of a driver\<close>

text \<open>
  What the malloc interface relies on in a driver \<open>ops\<close>: \<open>inv rs a L m\<close> says that rank \<open>rs\<close> finds
  the blocks \<open>L\<close> in use in arena \<open>a\<close>, \<open>fits n\<close> that a request of \<open>n\<close> bytes is one the driver can serve.
\<close>

definition page_ok :: "shmrs \<Rightarrow> bool" where
  "page_ok rs \<longleftrightarrow> (\<exists>k. 6 \<le> k \<and> k \<le> 30 \<and> pagesize rs = 2 ^ k)"

locale arena_driver =
  fixes ops :: "shmrs \<Rightarrow> dthread_shm_alloc_ops_t"
    and inv :: "shmrs \<Rightarrow> dthread_shmref_t \<Rightarrow> dthread_shmref_t set \<Rightarrow> shmem \<Rightarrow> bool"
    and fits :: "u64 \<Rightarrow> bool"
  assumes inv_frame: "inv rs a L m \<Longrightarrow> arena_frame b m m' \<Longrightarrow> arenas_apart a b \<Longrightarrow> 0 < blen b \<Longrightarrow> inv rs a L m'"
    and inv_rank: "same_segs rs rs' \<Longrightarrow> inv rs a L m \<Longrightarrow> inv rs' a L m"
    and inv_ok: "inv rs a L m \<Longrightarrow> arena_ok rs a (amds m (arena_loc a)) \<and> unat sizeof_alloc_md \<le> blen a \<and> all_apart L"
    and inv_block: "inv rs a L m \<Longrightarrow> r \<in> L \<Longrightarrow> dt_shmid r = dt_shmid a \<and> bstart a + unat sizeof_alloc_md \<le> bstart r \<and>
      unat (min_uoffset (amds m (arena_loc a))) \<le> bstart r \<and> bstart r + blen r \<le> bstart a + blen a \<and>
      16 dvd unat (mapping (arena_map rs a)) + bstart r"
    and init_ok: "page_ok rs \<Longrightarrow> maps_ok rs \<Longrightarrow> md_self (amds m (arena_loc a)) = a \<Longrightarrow>
      \<exists>rv m'. op_init (ops rs) a m = Inr (rv, m') \<and> arena_frame a m m' \<and>
        (rv = 0 \<longrightarrow> inv rs a {} m' \<and>
          (\<exists>u. amds m' (arena_loc a) = (amds m (arena_loc a))\<lparr>min_uoffset := u, badalign_bits := 15\<rparr>))"
    and malloc_ok: "inv rs a L m \<Longrightarrow> fits n \<Longrightarrow>
      \<exists>res m'. op_malloc (ops rs) a n m = Inr (res, m') \<and> arena_frame a m m' \<and> amds m' = amds m \<and> blocks_kept a L m m' \<and>
        (case res of
           None \<Rightarrow> inv rs a L m'
         | Some (p, r) \<Rightarrow> r \<notin> L \<and> blen r = unat n \<and> p = mapping (arena_map rs a) + dt_offset r \<and> inv rs a (insert r L) m')"
    and free_ok: "inv rs a L m \<Longrightarrow> r \<in> L \<Longrightarrow>
      \<exists>m'. op_free (ops rs) a r m = Inr m' \<and> op_free (ops rs) a (r\<lparr>dt_length := 0\<rparr>) m = Inr m' \<and>
        arena_frame a m m' \<and> amds m' = amds m \<and> blocks_kept a (L - {r}) m m' \<and> inv rs a (L - {r}) m'"
    and realloc_ok: "inv rs a L m \<Longrightarrow> r \<in> L \<Longrightarrow> fits n \<Longrightarrow>
      \<exists>res m'. op_realloc (ops rs) a r n m = Inr (res, m') \<and> op_realloc (ops rs) a (r\<lparr>dt_length := 0\<rparr>) n m = Inr (res, m') \<and>
        arena_frame a m m' \<and> amds m' = amds m \<and>
        (case res of
           None \<Rightarrow> inv rs a L m' \<and> blocks_kept a L m m'
         | Some (p, r') \<Rightarrow> p = mapping (arena_map rs a) + dt_offset r' \<and> blen r' = unat n \<and> inv rs a (insert r' (L - {r})) m' \<and>
             take (blen r) (block_bytes r' (shm_bytes m' (dt_shmid a))) = take (unat n) (block_bytes r (shm_bytes m (dt_shmid a))) \<and>
             blocks_kept a (L - {r}) m m')"
    and write_ok: "inv rs a L m \<Longrightarrow> r \<in> L \<Longrightarrow> length xs = blen r \<Longrightarrow> inv rs a L (arena_put a (bstart r) xs m)"

lemma break_init_frame:
  "arena_frame a m (snd (break_init rs a m))"
  "break_init rs a m = (0, m') \<Longrightarrow>
     \<exists>u. amds m' (arena_loc a) = (amds m (arena_loc a))\<lparr>min_uoffset := u, badalign_bits := 15\<rparr>"
  by (auto simp: arena_frame_def break_init_def Let_def split: option.splits)

text \<open>The length of a reference does not matter to \<^verbatim>\<open>free\<close> and \<^verbatim>\<open>realloc\<close>.\<close>

lemma break_ignores_length:
  assumes "brk_inv rs a L m" "r \<in> L"
  shows "break_free rs a (r\<lparr>dt_length := 0\<rparr>) m = break_free rs a r m"
    "break_realloc rs a (r\<lparr>dt_length := 0\<rparr>) n m = break_realloc rs a r n m"
proof -
  have core: "brk_core rs a (amds m (arena_loc a)) (brk_mds m (arena_loc a)) (shm_bytes m (dt_shmid a)) L"
    using assms(1) by (simp add: brk_inv_def)
  have p: "dthread_shmref2ptr rs (Some r) 0 = Some (mapping (arena_map rs a) + dt_offset r)"
    by (rule brk_shmref2ptr [OF core assms(2)])
  then have q: "dthread_shmref2ptr rs (Some (r\<lparr>dt_length := 0\<rparr>)) 0 = Some (mapping (arena_map rs a) + dt_offset r)"
    by (auto simp: dthread_shmref2ptr_def Let_def split: if_splits)
  show f: "break_free rs a (r\<lparr>dt_length := 0\<rparr>) m = break_free rs a r m" for m
    unfolding break_free_def Let_def p q by simp
  show "break_realloc rs a (r\<lparr>dt_length := 0\<rparr>) n m = break_realloc rs a r n m"
    unfolding break_realloc_def Let_def p q f by (simp split: prod.split option.split)
qed

lemma bsd_ignores_length:
  assumes "bsd_inv rs a L m" "r \<in> L"
  shows "bsd_free rs a (r\<lparr>dt_length := 0\<rparr>) m = bsd_free rs a r m"
    "bsd_realloc rs a (r\<lparr>dt_length := 0\<rparr>) n m = bsd_realloc rs a r n m"
proof -
  obtain T F where core: "bsd_state rs a m T F L" using assms(1) by (auto simp: bsd_inv_def)
  obtain b where b: "bsd_live a (bsd_mds m (arena_loc a)) (shm_bytes m (dt_shmid a)) T F r b" by (rule bsd_liveE [OF core assms(2)])
  have p: "dthread_shmref2ptr rs (Some r) 0 = Some (mapping (arena_map rs a) + dt_offset r)"
    by (rule bsd_block_checked(1) [OF core assms(2) b])
  then have q: "dthread_shmref2ptr rs (Some (r\<lparr>dt_length := 0\<rparr>)) 0 = Some (mapping (arena_map rs a) + dt_offset r)"
    by (auto simp: dthread_shmref2ptr_def Let_def split: if_splits)
  have f: "bsd_free rs a (r\<lparr>dt_length := 0\<rparr>) t = bsd_free rs a r t" for t
    unfolding bsd_free_def Let_def p q by simp
  then show "bsd_free rs a (r\<lparr>dt_length := 0\<rparr>) m = bsd_free rs a r m" by simp
  have off: "dt_offset (r\<lparr>dt_length := 0\<rparr>) = dt_offset r" "dt_shmid (r\<lparr>dt_length := 0\<rparr>) = dt_shmid r" by simp_all
  have mv: "bsd_move rs a (r\<lparr>dt_length := 0\<rparr>) n k t = bsd_move rs a r n k t" for k t
    unfolding bsd_move_def Let_def f off by (rule refl)
  show "bsd_realloc rs a (r\<lparr>dt_length := 0\<rparr>) n m = bsd_realloc rs a r n m"
    unfolding bsd_realloc_def Let_def p q mv off by (rule refl)
qed

lemma bsd_init_frame:
  assumes "6 \<le> k" "k \<le> 30" "pagesize rs = 2 ^ k"
  shows "\<exists>rv m'. bsd_init rs a m = Inr (rv, m') \<and> arena_frame a m m' \<and>
    (rv = 0 \<longrightarrow> (\<exists>u. amds m' (arena_loc a) = (amds m (arena_loc a))\<lparr>min_uoffset := u, badalign_bits := 15\<rparr>))"
proof -
  have "bsd_first_bucket 0 17 = Inr 1" using bsd_first_bucket_run [of 0 1 17] by simp
  moreover have "bsd_first_bucket 0 (pagesize rs) = Inr (int k - 4)"
    using bsd_first_bucket_run [of 0 "k - 4" "2 ^ k"] assms by (simp add: of_nat_diff)
  ultimately show ?thesis
    by (cases "dthread_shmref2ptr rs (Some a) (mdalign_size rs a sizeof_bsd_md)")
      (auto simp: bsd_init_def Let_def bsd_oversize_0 arena_frame_def)
qed

text \<open>Both internal drivers implement the interface.\<close>

interpretation brkd: arena_driver break_mops brk_inv brk_fits
proof (unfold_locales, goal_cases)
  case (1 rs a L m b m')
  then show ?case by (rule brk_inv_frame)
next
  case (2 rs rs' a L m)
  then show ?case by (rule brk_inv_rank)
next
  case (3 rs a L m)
  then have "arena_ok rs a (amds m (arena_loc a))" "80 \<le> blen a" by (auto simp: brk_inv_def brk_core_def)
  then show ?case using brk.inv_apart [OF 3] by simp
next
  case (4 rs a L m r)
  then have core: "brk_core rs a (amds m (arena_loc a)) (brk_mds m (arena_loc a)) (shm_bytes m (dt_shmid a)) L" by (simp add: brk_inv_def)
  have "dt_shmid r = dt_shmid a" "unat (min_uoffset (amds m (arena_loc a))) + 16 \<le> bstart r"
    using core 4(2) by (simp_all add: brk_core_def brk_block_def)
  then show ?case using brk_block_bounds [OF core 4(2)] by simp
next
  case (5 rs m a)
  obtain rv m' where i: "break_init rs a m = (rv, m')" by fastforce
  then have "arena_frame a m m'" using break_init_frame(1) [of a m rs] by simp
  moreover have "brk_inv rs a {} m'" if "rv = 0" using break_init_inv i that 5(2,3) by blast
  ultimately show ?case using i break_init_frame(2) [of rs a m m'] by (auto simp: break_mops_def)
next
  case (6 rs a L m n)
  obtain res m' where r: "break_malloc rs a n m = (res, m')" by fastforce
  have "arena_frame a m m'" "amds m' = amds m" using break_malloc_frame [OF 6 r] break_amds(1) [OF r] by blast+
  moreover have "blocks_kept a L m m' \<and> (case res of
           None \<Rightarrow> brk_inv rs a L m'
         | Some (p, r) \<Rightarrow> r \<notin> L \<and> blen r = unat n \<and> p = mapping (arena_map rs a) + dt_offset r \<and> brk_inv rs a (insert r L) m')"
  proof (cases res)
    case None
    then have "m' = m" using break_malloc_none r by blast
    then show ?thesis using None 6(1) by (simp add: blocks_kept_def)
  next
    case (Some pr)
    then obtain p q where s: "break_malloc rs a n m = (Some (p, q), m')" "res = Some (p, q)" using r by (cases pr) auto
    then show ?thesis using break_malloc_inv [OF 6 s(1)] break_malloc_some(2,4) [OF 6 s(1)] by (simp add: blocks_kept_def)
  qed
  ultimately show ?case using r by (simp add: break_mops_def)
next
  case (7 rs a L m r)
  obtain m' where "break_free rs a r m = Inr m'" "brk_inv rs a (L - {r}) m'"
      "\<forall>q \<in> L - {r}. block_bytes q (shm_bytes m' (dt_shmid a)) = block_bytes q (shm_bytes m (dt_shmid a))"
    using break_free_inv [OF 7] by blast
  then show ?case using break_free_frame [OF 7] break_amds(2) break_ignores_length(1) [OF 7]
    by (auto simp: break_mops_def blocks_kept_def)
next
  case (8 rs a L m r n)
  obtain res m' where "break_realloc rs a r n m = Inr (res, m')" and
    "case res of None \<Rightarrow> m' = m | Some (p, r') \<Rightarrow>
         p = mapping (arena_map rs a) + dt_offset r' \<and> blen r' = unat n \<and> brk_inv rs a (insert r' (L - {r})) m' \<and>
         take (blen r) (block_bytes r' (shm_bytes m' (dt_shmid a))) = take (unat n) (block_bytes r (shm_bytes m (dt_shmid a))) \<and>
         (\<forall>q \<in> L - {r}. block_bytes q (shm_bytes m' (dt_shmid a)) = block_bytes q (shm_bytes m (dt_shmid a)))"
    using break_realloc_inv [OF 8] by blast
  then show ?case using break_realloc_frame [OF 8] break_ignores_length(2) [OF 8(1,2)] 8(1)
    by (cases res) (auto simp: break_mops_def blocks_kept_def)
next
  case (9 rs a L m r xs)
  then show ?case using brk_put_inv [OF 9(1,2)] by simp
qed

interpretation bsdd: arena_driver bsd_mops bsd_inv bsd_fits
proof (unfold_locales, goal_cases)
  case (1 rs a L m b m')
  then show ?case by (rule bsd_inv_frame)
next
  case (2 rs rs' a L m)
  then show ?case by (rule bsd_inv_rank)
next
  case (3 rs a L m)
  then have "arena_ok rs a (amds m (arena_loc a))" "1056 \<le> blen a" by (auto simp: bsd_inv_def bsd_core_def)
  then show ?case using bsd.inv_apart [OF 3] by simp
next
  case (4 rs a L m r)
  then show ?case using bsd_block_bounds [OF 4] by simp
next
  case (5 rs m a)
  then obtain k where k: "6 \<le> k" "k \<le> 30" "pagesize rs = 2 ^ k" by (auto simp: page_ok_def)
  obtain rv m' where i: "bsd_init rs a m = Inr (rv, m')" "arena_frame a m m'"
      "rv = 0 \<longrightarrow> (\<exists>u. amds m' (arena_loc a) = (amds m (arena_loc a))\<lparr>min_uoffset := u, badalign_bits := 15\<rparr>)"
    using bsd_init_frame [OF k] by blast
  then have "bsd_inv rs a {} m'" if "rv = 0" using bsd_init_inv [OF _ 5(3,2) k(3,1,2)] that by blast
  then show ?case using i by (auto simp: bsd_mops_def)
next
  case (6 rs a L m n)
  obtain res m' where r: "bsd_malloc rs a n m = Inr (res, m')" "amds m' = amds m" "blocks_kept a L m m'"
    "case res of None \<Rightarrow> bsd_inv rs a L m'
     | Some (p, r) \<Rightarrow> r \<notin> L \<and> dt_shmid r = dt_shmid a \<and> blen r = unat n \<and> p = mapping (arena_map rs a) + dt_offset r \<and>
         bsd_inv rs a (insert r L) m'"
    using bsd_malloc_inv [OF 6] by blast
  then show ?case using bsd_malloc_frame [OF 6 r(1)] by (auto simp: bsd_mops_def split: option.splits)
next
  case (7 rs a L m r)
  obtain m' where "bsd_free rs a r m = Inr m'" "bsd_inv rs a (L - {r}) m'" "blocks_kept a L m m'" "amds m' = amds m"
    using bsd_free_inv [OF 7] by blast
  then show ?case using bsd_free_frame [OF 7] bsd_ignores_length(1) [OF 7] by (auto simp: bsd_mops_def blocks_kept_def)
next
  case (8 rs a L m r n)
  obtain res m' where "bsd_realloc rs a r n m = Inr (res, m')" and
    "case res of None \<Rightarrow> bsd_inv rs a L m' \<and> (\<forall>q \<in> L. block_bytes q (shm_bytes m' (dt_shmid a)) = block_bytes q (shm_bytes m (dt_shmid a)))
     | Some (p, r') \<Rightarrow>
         p = mapping (arena_map rs a) + dt_offset r' \<and> blen r' = unat n \<and> bsd_inv rs a (insert r' (L - {r})) m' \<and>
         take (blen r) (block_bytes r' (shm_bytes m' (dt_shmid a))) = take (unat n) (block_bytes r (shm_bytes m (dt_shmid a))) \<and>
         (\<forall>q \<in> L - {r}. block_bytes q (shm_bytes m' (dt_shmid a)) = block_bytes q (shm_bytes m (dt_shmid a)))"
    using bsd_realloc_inv [OF 8] by blast
  then show ?case using bsd_realloc_frame [OF 8] bsd_ignores_length(2) [OF 8(1,2)]
    by (cases res) (auto simp: bsd_mops_def blocks_kept_def)
next
  case (9 rs a L m r xs)
  then show ?case using bsd_put_inv [OF 9(1,2)] by simp
qed

end
