(* ===== verification/Dt_Arenas.thy ===== *)
theory Dt_Arenas
  imports Dt_Frame
begin

text \<open>
  The malloc interface over all ranks and arenas.  The calls of all ranks on the arenas
  they share are the steps of one system; in every state it reaches, the blocks in use of
  all arenas do not overlap, hold what was last written to them, and can be freed by any
  rank, by pointer or by reference.

  The proofs use only the interface \<open>arena_driver\<close>; both internal drivers implement it.
\<close>

subsection \<open>The checks of the interface\<close>

text \<open>The part of the metadata of an arena that \<^verbatim>\<open>dthread_shm_new_arena\<close> and the driver set up.\<close>

definition amd_ok :: "dthread_shmref_t \<Rightarrow> dthread_shm_alloc_md_t \<Rightarrow> bool" where
  "amd_ok a amd \<longleftrightarrow> mdmagic amd = DTHREAD_SHM_MD_MAGIC \<and> md_self amd = a \<and>
     unat (max_uoffset amd) = bstart a + blen a \<and> badalign_bits amd = 15"

lemma mask15: "(x :: u64) AND 15 = 0 \<longleftrightarrow> 16 dvd unat x"
proof -
  have "x AND 15 = take_bit 4 x" by (simp add: take_bit_eq_mask mask_eq_exp_minus_1)
  then have "unat (x AND 15) = unat x mod 16" by (simp add: take_bit_eq_mod unat_mod)
  moreover have "x AND 15 = 0 \<longleftrightarrow> unat (x AND 15) = 0" by (simp add: unat_eq_zero)
  ultimately show ?thesis by (simp only: dvd_eq_mod_eq_0)
qed

context arena_driver
begin

text \<open>\<open>ready rs a L m\<close>: the arena passes the checks and its driver is \<open>ops\<close>.\<close>

definition ready :: "shmrs \<Rightarrow> dthread_shmref_t \<Rightarrow> dthread_shmref_t set \<Rightarrow> shmem \<Rightarrow> bool" where
  "ready rs a L m \<longleftrightarrow> inv rs a L m \<and> amd_ok a (amds m (arena_loc a)) \<and>
     mopid2ops rs (mopid (amds m (arena_loc a))) = Some (ops rs) \<and> maps_ok rs \<and> 16 dvd unat (mapping (arena_map rs a))"

lemma validate_arena:
  assumes "ready rs a L m"
  shows "dthread_shm_validate_args rs (Some a) None None m = (Some (ops rs, a, None), rs)"
proof -
  have a: "arena_ok rs a (amds m (arena_loc a))" "unat sizeof_alloc_md \<le> blen a" using inv_ok assms by (auto simp: ready_def)
  then have "dthread_shmref2ptr rs (Some a) sizeof_alloc_md \<noteq> None"
    by (auto simp: dthread_shmref2ptr_def arena_ok_def Let_def word_le_nat_alt word_less_nat_alt unat_sub bstart_def blen_def)
  then show ?thesis using assms by (simp add: dthread_shm_validate_args_def ready_def amd_ok_def Let_def)
qed

lemma block_ref:
  assumes "ready rs a L m" "r \<in> L" "0 < blen r"
  shows "dt_shmid r = dt_shmid a" "\<not> dt_offset r < min_uoffset (amds m (arena_loc a))" "\<not> dt_offset r \<ge> max_uoffset (amds m (arena_loc a))"
    "16 dvd bstart r" "dthread_shmref2ptr rs (Some r) 0 = Some (mapping (arena_map rs a) + dt_offset r)"
    "dthread_ptr2shmref rs (mapping (arena_map rs a) + dt_offset r) 0 = Inr (r\<lparr>dt_length := 0\<rparr>)"
    "unat (mapping (arena_map rs a) + dt_offset r) = unat (mapping (arena_map rs a)) + bstart r"
proof -
  have i: "inv rs a L m" and amd: "amd_ok a (amds m (arena_loc a))" and maps: "maps_ok rs" "16 dvd unat (mapping (arena_map rs a))"
    using assms(1) by (simp_all add: ready_def)
  have b: "dt_shmid r = dt_shmid a" "unat (min_uoffset (amds m (arena_loc a))) \<le> bstart r" "bstart r + blen r \<le> bstart a + blen a"
      "16 dvd unat (mapping (arena_map rs a)) + bstart r"
    using inv_block [OF i assms(2)] by blast+
  have ok: "unat (dt_shmid a) < nshmsrc rs" "bstart a + blen a \<le> unat (map_size (arena_map rs a))"
    using inv_ok [OF i] by (auto simp: arena_ok_def)
  show "dt_shmid r = dt_shmid a" "\<not> dt_offset r < min_uoffset (amds m (arena_loc a))" "\<not> dt_offset r \<ge> max_uoffset (amds m (arena_loc a))"
    using b amd assms(3) by (simp_all add: amd_ok_def word_less_nat_alt word_le_nat_alt bstart_def)
  show "16 dvd bstart r" using maps(2) b(4) by (simp add: dvd_add_right_iff)
  have r: "dt_offset r < map_size (arena_map rs a)" "dt_length r \<le> map_size (arena_map rs a) - dt_offset r"
    using b(3) ok(2) assms(3) by (simp_all add: word_less_nat_alt word_le_nat_alt unat_sub bstart_def blen_def)
  then show p: "dthread_shmref2ptr rs (Some r) 0 = Some (mapping (arena_map rs a) + dt_offset r)"
    using b(1) ok(1) by (simp add: dthread_shmref2ptr_def Let_def not_less not_le)
  then show "unat (mapping (arena_map rs a) + dt_offset r) = unat (mapping (arena_map rs a)) + bstart r"
    using shmref2ptr_SomeD(6) [OF p maps(1)] b(1) by (simp add: bstart_def)
  have "dthread_shmref2ptr rs (Some (r\<lparr>dt_length := 0\<rparr>)) 0 = Some (mapping (arena_map rs a) + dt_offset r)"
    using p by (auto simp: dthread_shmref2ptr_def Let_def split: if_splits)
  from ptr2shmref_ref [OF maps(1) this]
  show "dthread_ptr2shmref rs (mapping (arena_map rs a) + dt_offset r) 0 = Inr (r\<lparr>dt_length := 0\<rparr>)" by simp
qed

lemma validate_block:
  assumes "ready rs a L m" "r \<in> L" "0 < blen r"
  shows "dthread_shm_validate_args rs (Some a) None (Some r) m = (Some (ops rs, a, None), rs)"
    "dthread_shm_validate_args rs (Some a) (Some (mapping (arena_map rs a) + dt_offset r)) None m =
       (Some (ops rs, a, Some (r\<lparr>dt_length := 0\<rparr>)), rs)"
proof -
  note b = block_ref [OF assms]
  have al: "16 dvd unat (mapping (arena_map rs a)) + bstart r" using inv_block assms(1,2) unfolding ready_def by blast
  have c: "dthread_shmref2ptr rs (Some a) sizeof_alloc_md \<noteq> None" "mdmagic (amds m (arena_loc a)) = DTHREAD_SHM_MD_MAGIC"
      "md_self (amds m (arena_loc a)) = a" "mopid2ops rs (mopid (amds m (arena_loc a))) = Some (ops rs)" "badalign_bits (amds m (arena_loc a)) = 15"
    using validate_arena [OF assms(1)] assms(1)
    by (auto simp: dthread_shm_validate_args_def ready_def amd_ok_def Let_def split: if_splits)
  have z: "dt_offset r AND 15 = 0" "(mapping (arena_map rs a) + dt_offset r) AND 15 = 0"
    using b(4,7) al by (simp_all add: mask15 bstart_def)
  show "dthread_shm_validate_args rs (Some a) None (Some r) m = (Some (ops rs, a, None), rs)"
    using b(1-3) c z(1) by (simp add: dthread_shm_validate_args_def Let_def)
  show "dthread_shm_validate_args rs (Some a) (Some (mapping (arena_map rs a) + dt_offset r)) None m =
       (Some (ops rs, a, Some (r\<lparr>dt_length := 0\<rparr>)), rs)"
    using b(1-3,6) c z(2) by (simp add: dthread_shm_validate_args_def Let_def)
qed

text \<open>A client may ask for less.\<close>

lemma weaken_fits: "(\<And>n. f n \<Longrightarrow> fits n) \<Longrightarrow> arena_driver ops inv f"
  by unfold_locales (rule inv_frame inv_rank inv_ok inv_block init_ok malloc_ok free_ok realloc_ok write_ok; blast)+

text \<open>What the calls do on an arena that is ready.\<close>

lemma api_malloc:
  "ready rs a L m \<Longrightarrow> dthread_shm_malloc rs (Some a) n m = rbind (op_malloc (ops rs) a n m) (\<lambda>(p, m). Inr (p, rs, m))"
  by (simp add: dthread_shm_malloc_def validate_arena)

lemma api_free:
  assumes "ready rs a L m" "r \<in> L" "0 < blen r"
  shows "dthread_shm_free_ref rs (Some a) (Some r) m = rbind (op_free (ops rs) a r m) (\<lambda>m. Inr (rs, m))"
    "dthread_shm_free rs (Some a) (Some (mapping (arena_map rs a) + dt_offset r)) m = dthread_shm_free_ref rs (Some a) (Some r) m"
proof -
  have ne: "dt_length r \<noteq> 0" using assms(3) by (auto simp: blen_def)
  obtain m' where f: "op_free (ops rs) a r m = Inr m'" "op_free (ops rs) a (r\<lparr>dt_length := 0\<rparr>) m = Inr m'"
    using free_ok assms(1,2) unfolding ready_def by blast
  show "dthread_shm_free_ref rs (Some a) (Some r) m = rbind (op_free (ops rs) a r m) (\<lambda>m. Inr (rs, m))"
      "dthread_shm_free rs (Some a) (Some (mapping (arena_map rs a) + dt_offset r)) m = dthread_shm_free_ref rs (Some a) (Some r) m"
    using ne f by (simp_all add: dthread_shm_free_ref_def dthread_shm_free_def validate_block [OF assms])
qed

lemma api_realloc:
  assumes "ready rs a L m" "r \<in> L" "0 < blen r" "fits n"
  shows "dthread_shm_realloc_ref rs (Some a) (Some r) n m = rbind (op_realloc (ops rs) a r n m) (\<lambda>(p, m). Inr (p, rs, m))"
    "dthread_shm_realloc rs (Some a) (Some (mapping (arena_map rs a) + dt_offset r)) n m =
       dthread_shm_realloc_ref rs (Some a) (Some r) n m"
proof -
  have ne: "dt_length r \<noteq> 0" using assms(3) by (auto simp: blen_def)
  obtain res m' where f: "op_realloc (ops rs) a r n m = Inr (res, m')" "op_realloc (ops rs) a (r\<lparr>dt_length := 0\<rparr>) n m = Inr (res, m')"
    using realloc_ok assms(1,2,4) unfolding ready_def by blast
  show "dthread_shm_realloc_ref rs (Some a) (Some r) n m = rbind (op_realloc (ops rs) a r n m) (\<lambda>(p, m). Inr (p, rs, m))"
      "dthread_shm_realloc rs (Some a) (Some (mapping (arena_map rs a) + dt_offset r)) n m =
       dthread_shm_realloc_ref rs (Some a) (Some r) n m"
    using ne f by (simp_all add: dthread_shm_realloc_ref_def dthread_shm_realloc_def validate_block [OF assms(1-3)])
qed

end

subsection \<open>Ranks, arenas and blocks\<close>

text \<open>The driver with number \<open>k\<close>.\<close>

definition drv_ops :: "int \<Rightarrow> shmrs \<Rightarrow> dthread_shm_alloc_ops_t" where
  "drv_ops k = (if k = 0 then break_mops else bsd_mops)"

definition drv_inv :: "int \<Rightarrow> shmrs \<Rightarrow> dthread_shmref_t \<Rightarrow> dthread_shmref_t set \<Rightarrow> shmem \<Rightarrow> bool" where
  "drv_inv k = (if k = 0 then brk_inv else bsd_inv)"

text \<open>
  The sizes for which the drivers keep their promises: not 0, because the interface takes a
  reference of length 0 for no reference; at most \<open>2 ^ 30\<close> for "bsd", whose buckets go no
  further; not within 31 bytes of \<open>2 ^ 64\<close> for "break", where the size with its header wraps.
\<close>

definition drv_fits :: "int \<Rightarrow> u64 \<Rightarrow> bool" where
  "drv_fits k n \<longleftrightarrow> n \<noteq> 0 \<and> (if k = 0 then brk_fits n else bsd_fits n)"

interpretation drv: arena_driver "drv_ops k" "drv_inv k" "drv_fits k" for k
proof -
  have "drv_ops 0 = break_mops" "drv_inv 0 = brk_inv" "drv_fits 0 = (\<lambda>n. n \<noteq> 0 \<and> brk_fits n)"
      "k \<noteq> 0 \<Longrightarrow> drv_ops k = bsd_mops" "k \<noteq> 0 \<Longrightarrow> drv_inv k = bsd_inv" "k \<noteq> 0 \<Longrightarrow> drv_fits k = (\<lambda>n. n \<noteq> 0 \<and> bsd_fits n)"
    by (simp_all add: drv_ops_def drv_inv_def drv_fits_def fun_eq_iff)
  moreover have "arena_driver break_mops brk_inv (\<lambda>n. n \<noteq> 0 \<and> brk_fits n)" "arena_driver bsd_mops bsd_inv (\<lambda>n. n \<noteq> 0 \<and> bsd_fits n)"
    by (rule brkd.weaken_fits bsdd.weaken_fits, simp)+
  ultimately show "arena_driver (drv_ops k) (drv_inv k) (drv_fits k)" by (cases "k = 0") simp_all
qed

lemma mopid2ops_drv: "k = 0 \<or> k = 1 \<Longrightarrow> mopid2ops rs k = Some (drv_ops k rs)"
  by (auto simp: mopid2ops_def internal_mops_def drv_ops_def)

text \<open>
  The view of the application: for each arena the number of its driver and the contents of
  the blocks in use.
\<close>

type_synonym arenaview = "dthread_shmref_t \<Rightarrow> (int \<times> blockstore) option"

record shmsys =
  sys_ranks :: "shmrs list"
  sys_mem :: shmem
  sys_view :: arenaview

text \<open>The contents after a reallocation to \<open>n\<close> bytes: the old ones, and \<open>ys\<close> beyond them.\<close>

definition realloc_bytes :: "u8 list \<Rightarrow> nat \<Rightarrow> u8 list \<Rightarrow> u8 list" where
  "realloc_bytes xs n ys = take n xs @ drop (length xs) ys"

text \<open>The arena that a call with the argument \<open>arenap\<close> uses.\<close>

definition arena_arg :: "shmrs \<Rightarrow> shmem \<Rightarrow> dthread_shmref_t option \<Rightarrow> dthread_shmref_t option" where
  "arena_arg rs m arenap = (if arenap = None then fst (dthread_shm_get_defaultarena rs m) else arenap)"

text \<open>
  One call of rank \<open>i\<close>, or a write to a block.  A client asks for sizes within \<open>drv_fits\<close>, frees
  and reallocates only blocks in use, by reference or by the pointer of its rank, and
  writes only inside blocks in use.  A client that asked for \<open>n\<close> bytes takes its block to be \<open>n\<close>
  bytes long, whatever length the reference has.  The arenas are those of the two internal
  drivers; a call of an application's own driver is not a step.

  A call is one step.  In the code a reallocation that moves its block is not one section
  under the lock of the arena: it is an allocation, a copy into the new block and a release
  of the old one.  Its parts, with steps of other ranks in between, are the steps for
  allocation, write and release.
\<close>

inductive shm_step :: "shmsys \<Rightarrow> shmsys \<Rightarrow> bool" where
  step_new_arena:
    "i < length R \<Longrightarrow> seg_fits sz \<Longrightarrow> dthread_get_mopid (R ! i) name = k \<Longrightarrow> k < NINT_MOPS \<Longrightarrow>
     dthread_shm_new_arena (R ! i) spin shmid name sz m = Inr (rv, oa, m') \<Longrightarrow>
     shm_step \<lparr>sys_ranks = R, sys_mem = m, sys_view = V\<rparr>
       \<lparr>sys_ranks = R, sys_mem = m', sys_view = (if rv = 0 then V(the oa \<mapsto> (k, Map.empty)) else V)\<rparr>"
| step_set_default:
    "i < length R \<Longrightarrow> a \<in> dom V \<Longrightarrow> dthread_shm_set_defaultarena a (R ! i) m = (rv, rs', m') \<Longrightarrow>
     shm_step \<lparr>sys_ranks = R, sys_mem = m, sys_view = V\<rparr> \<lparr>sys_ranks = R[i := rs'], sys_mem = m', sys_view = V\<rparr>"
| step_finalize:
    "i < length R \<Longrightarrow> arena_arg (R ! i) m arenap = Some a \<Longrightarrow> a \<in> dom V \<Longrightarrow>
     dthread_shm_finalize_arena (R ! i) arenap m = Inr (rv, rs', m') \<Longrightarrow>
     shm_step \<lparr>sys_ranks = R, sys_mem = m, sys_view = V\<rparr> \<lparr>sys_ranks = R[i := rs'], sys_mem = m', sys_view = V\<rparr>"
| step_malloc:
    "i < length R \<Longrightarrow> arena_arg (R ! i) m arenap = Some a \<Longrightarrow> V a = Some (k, A) \<Longrightarrow> drv_fits k n \<Longrightarrow>
     dthread_shm_malloc (R ! i) arenap n m = Inr (res, rs', m') \<Longrightarrow>
     shm_step \<lparr>sys_ranks = R, sys_mem = m, sys_view = V\<rparr>
       \<lparr>sys_ranks = R[i := rs'], sys_mem = m', sys_view = V(a \<mapsto> (k, case res of
          None \<Rightarrow> A | Some (p, r) \<Rightarrow> A(r \<mapsto> get_bytes (bstart r) (unat n) (shm_bytes m' (dt_shmid r)))))\<rparr>"
| step_free_ref:
    "i < length R \<Longrightarrow> arena_arg (R ! i) m arenap = Some a \<Longrightarrow> V a = Some (k, A) \<Longrightarrow> r \<in> dom A \<Longrightarrow>
     dthread_shm_free_ref (R ! i) arenap (Some r) m = Inr (rs', m') \<Longrightarrow>
     shm_step \<lparr>sys_ranks = R, sys_mem = m, sys_view = V\<rparr>
       \<lparr>sys_ranks = R[i := rs'], sys_mem = m', sys_view = V(a \<mapsto> (k, A(r := None)))\<rparr>"
| step_free:
    "i < length R \<Longrightarrow> arena_arg (R ! i) m arenap = Some a \<Longrightarrow> V a = Some (k, A) \<Longrightarrow> r \<in> dom A \<Longrightarrow>
     dthread_shmref2ptr (R ! i) (Some r) 0 = Some p \<Longrightarrow> dthread_shm_free (R ! i) arenap (Some p) m = Inr (rs', m') \<Longrightarrow>
     shm_step \<lparr>sys_ranks = R, sys_mem = m, sys_view = V\<rparr>
       \<lparr>sys_ranks = R[i := rs'], sys_mem = m', sys_view = V(a \<mapsto> (k, A(r := None)))\<rparr>"
| step_realloc_ref:
    "i < length R \<Longrightarrow> arena_arg (R ! i) m arenap = Some a \<Longrightarrow> V a = Some (k, A) \<Longrightarrow> A r = Some xs \<Longrightarrow> drv_fits k n \<Longrightarrow>
     dthread_shm_realloc_ref (R ! i) arenap (Some r) n m = Inr (res, rs', m') \<Longrightarrow>
     shm_step \<lparr>sys_ranks = R, sys_mem = m, sys_view = V\<rparr>
       \<lparr>sys_ranks = R[i := rs'], sys_mem = m', sys_view = V(a \<mapsto> (k, case res of
          None \<Rightarrow> A
        | Some (p, r') \<Rightarrow> (A(r := None))(r' \<mapsto> realloc_bytes xs (unat n) (get_bytes (bstart r') (unat n) (shm_bytes m' (dt_shmid r'))))))\<rparr>"
| step_realloc:
    "i < length R \<Longrightarrow> arena_arg (R ! i) m arenap = Some a \<Longrightarrow> V a = Some (k, A) \<Longrightarrow> A r = Some xs \<Longrightarrow> drv_fits k n \<Longrightarrow>
     dthread_shmref2ptr (R ! i) (Some r) 0 = Some p \<Longrightarrow> dthread_shm_realloc (R ! i) arenap (Some p) n m = Inr (res, rs', m') \<Longrightarrow>
     shm_step \<lparr>sys_ranks = R, sys_mem = m, sys_view = V\<rparr>
       \<lparr>sys_ranks = R[i := rs'], sys_mem = m', sys_view = V(a \<mapsto> (k, case res of
          None \<Rightarrow> A
        | Some (p, r') \<Rightarrow> (A(r := None))(r' \<mapsto> realloc_bytes xs (unat n) (get_bytes (bstart r') (unat n) (shm_bytes m' (dt_shmid r'))))))\<rparr>"
| step_write:
    "V a = Some (k, A) \<Longrightarrow> A r = Some ys \<Longrightarrow> length xs = length ys \<Longrightarrow>
     shm_step \<lparr>sys_ranks = R, sys_mem = m, sys_view = V\<rparr>
       \<lparr>sys_ranks = R, sys_mem = upd_bytes (dt_shmid r) (put_bytes (bstart r) xs) m, sys_view = V(a \<mapsto> (k, A(r \<mapsto> xs)))\<rparr>"

inductive_cases shm_stepE: "shm_step s t"

subsection \<open>The invariant of the system\<close>

text \<open>The ranks see the same segments and are numbered from 0.\<close>

definition ranks_ok :: "shmrs list \<Rightarrow> bool" where
  "ranks_ok R \<longleftrightarrow> (\<forall>i < length R. shm_rank (R ! i) = int i) \<and>
     (\<forall>rs \<in> set R. maps_ok rs \<and> page_ok rs \<and> (\<forall>rs' \<in> set R. same_segs rs rs'))"

text \<open>An arena with its blocks, as rank \<open>rs\<close> sees it.\<close>

definition arena_inv :: "shmrs \<Rightarrow> dthread_shmref_t \<Rightarrow> int \<Rightarrow> blockstore \<Rightarrow> shmem \<Rightarrow> bool" where
  "arena_inv rs a k A m \<longleftrightarrow> (k = 0 \<or> k = 1) \<and> mopid (amds m (arena_loc a)) = k \<and> drv.ready k rs a (dom A) m \<and>
     bstart a + blen a \<le> unat (first_avail (seg_md rs (dt_shmid a) m)) \<and>
     (\<forall>r xs. A r = Some xs \<longrightarrow> 0 < blen r \<and> block_bytes r (shm_bytes m (dt_shmid a)) = xs)"

definition default_ok :: "shmrs list \<Rightarrow> shmem \<Rightarrow> arenaview \<Rightarrow> bool" where
  "default_ok R m V \<longleftrightarrow> (dt_length (da_src m) \<noteq> 0 \<longrightarrow> da_src m \<in> dom V \<and> (R \<noteq> [] \<longrightarrow> defarena (R ! 0) \<noteq> None)) \<and>
     (\<forall>rs \<in> set R. \<forall>d. defarena rs = Some d \<longrightarrow> d = da_src m \<and> dt_length d \<noteq> 0)"

definition sys_inv :: "shmrs list \<Rightarrow> shmem \<Rightarrow> arenaview \<Rightarrow> bool" where
  "sys_inv R m V \<longleftrightarrow> ranks_ok R \<and> (\<forall>rs \<in> set R. \<forall>i < nshmsrc rs. seg_ok rs (word_of_nat i) m) \<and>
     (\<forall>rs \<in> set R. \<forall>a k A. V a = Some (k, A) \<longrightarrow> arena_inv rs a k A m) \<and>
     (\<forall>a \<in> dom V. \<forall>b \<in> dom V. a \<noteq> b \<longrightarrow> arenas_apart a b) \<and> default_ok R m V"

lemma same_segs_md: "same_segs rs rs' \<Longrightarrow> unat i < nshmsrc rs \<Longrightarrow> seg_md rs' i m = seg_md rs i m"
  using same_segs_maps(4) by (simp add: seg_loc_def)

lemma arena_invD:
  assumes "arena_inv rs a k A m"
  shows "drv_inv k rs a (dom A) m" "k = 0 \<or> k = 1" "drv.ready k rs a (dom A) m" "unat (dt_shmid a) < nshmsrc rs" "0 < blen a"
proof -
  show r: "drv.ready k rs a (dom A) m" "k = 0 \<or> k = 1" using assms by (simp_all add: arena_inv_def)
  then show i: "drv_inv k rs a (dom A) m" by (simp add: drv.ready_def)
  show "unat (dt_shmid a) < nshmsrc rs" "0 < blen a" using drv.inv_ok [OF i] by (auto simp: arena_ok_def)
qed

text \<open>A change inside another arena keeps an arena and its blocks.\<close>

lemma arena_inv_frame:
  assumes "arena_inv rs a k A m" "arena_frame b m m'" "arenas_apart a b" "0 < blen b"
  shows "arena_inv rs a k A m'"
proof -
  note d = arena_invD [OF assms(1)]
  note o = arena_frame_other [OF assms(2,3) d(5) assms(4)]
  have "drv_inv k rs a (dom A) m'" by (rule drv.inv_frame [OF d(1) assms(2-4)])
  then have rd: "drv.ready k rs a (dom A) m'" using d(3) o(1) by (simp add: drv.ready_def)
  have "block_bytes r (shm_bytes m' (dt_shmid a)) = block_bytes r (shm_bytes m (dt_shmid a))" if "r \<in> dom A" for r
    unfolding block_bytes_def using drv.inv_block [OF d(1) that] by (intro o(4)) linarith+
  moreover have "seg_mds m' = seg_mds m" using assms(2) by (simp add: arena_frame_def)
  ultimately show ?thesis using assms(1) rd o(1) unfolding arena_inv_def by (auto simp: domI)
qed

lemma sys_inv_foreign:
  assumes "sys_inv R m V" "arena_frame a m m'" "\<forall>b \<in> dom V. arenas_apart b a" "0 < blen a"
  shows "sys_inv R m' V"
proof -
  have "arena_inv rs b k A m'" if "rs \<in> set R" "V b = Some (k, A)" for rs b k A
  proof (rule arena_inv_frame [OF _ assms(2) _ assms(4)])
    show "arena_inv rs b k A m" using assms(1) that by (simp add: sys_inv_def)
    show "arenas_apart b a" using assms(3) that by blast
  qed
  moreover have "seg_mds m' = seg_mds m" "da_src m' = da_src m" using assms(2) by (simp_all add: arena_frame_def)
  ultimately show ?thesis using assms(1) by (auto simp: sys_inv_def seg_ok_def default_ok_def)
qed

text \<open>An arena at another rank.\<close>

lemma arena_inv_rank:
  assumes "arena_inv rs a k A m" "same_segs rs rs'" "maps_ok rs'"
  shows "arena_inv rs' a k A m"
proof -
  note d = arena_invD [OF assms(1)]
  have "drv_inv k rs' a (dom A) m" by (rule drv.inv_rank [OF assms(2) d(1)])
  moreover have "16 dvd unat (mapping (arena_map rs' a))" using assms(2) d(4) by (simp add: same_segs_def)
  moreover have "mopid2ops rs' k = Some (drv_ops k rs')" using mopid2ops_drv d(2) by blast
  ultimately show ?thesis using assms(1,3) same_segs_md [OF assms(2) d(4)] by (simp add: arena_inv_def drv.ready_def)
qed

text \<open>An operation on one arena that gives it the blocks \<open>A'\<close>.\<close>

lemma sys_inv_op:
  assumes "sys_inv R m V" "rs \<in> set R" "V a = Some (k, A)" "arena_frame a m m'" "amds m' = amds m"
    and "drv_inv k rs a (dom A') m'" "\<And>r xs. A' r = Some xs \<Longrightarrow> 0 < blen r \<and> block_bytes r (shm_bytes m' (dt_shmid a)) = xs"
  shows "sys_inv R m' (V(a \<mapsto> (k, A')))"
proof -
  have ranks: "\<forall>rs \<in> set R. maps_ok rs \<and> page_ok rs \<and> (\<forall>rs' \<in> set R. same_segs rs rs')" using assms(1) by (simp add: sys_inv_def ranks_ok_def)
  have ia: "arena_inv rs a k A m" using assms(1-3) by (simp add: sys_inv_def)
  note d = arena_invD [OF ia]
  have seg: "seg_mds m' = seg_mds m" "da_src m' = da_src m" using assms(4) by (simp_all add: arena_frame_def)
  have new: "arena_inv rs a k A' m'"
    using ia assms(5-7) seg unfolding arena_inv_def drv.ready_def by auto
  have "arena_inv rs' b k' B m'" if "rs' \<in> set R" "(V(a \<mapsto> (k, A'))) b = Some (k', B)" for rs' b k' B
  proof (cases "b = a")
    case True
    then show ?thesis using arena_inv_rank [OF new] ranks assms(2) that by auto
  next
    case False
    then have "b \<in> dom V" "a \<in> dom V" "V b = Some (k', B)" using assms(3) that(2) by auto
    then have "arenas_apart b a" "arena_inv rs' b k' B m" using assms(1) that(1) False unfolding sys_inv_def by blast+
    then show ?thesis using arena_inv_frame [OF _ assms(4)] d(5) by blast
  qed
  moreover have "dom (V(a \<mapsto> (k, A'))) = dom V" using assms(3) by auto
  ultimately show ?thesis using assms(1) seg by (auto simp: sys_inv_def seg_ok_def default_ok_def)
qed

subsection \<open>The default arena\<close>

lemma shmmap_cong:
  assumes "shmmap rs' = shmmap rs"
  shows "maps_ok rs' = maps_ok rs" "shmmap q' = shmmap q \<Longrightarrow> same_segs rs' q' = same_segs rs q" "seg_ok rs' i m = seg_ok rs i m"
    "dthread_shmref2ptr rs' ref len = dthread_shmref2ptr rs ref len"
  using assms by (simp_all add: maps_ok_def same_segs_def seg_ok_def seg_loc_def dthread_shmref2ptr_def Let_def split: option.split)

lemma drv_inv_other [simp]:
  "drv_inv k rs a L (m\<lparr>da_src := x\<rparr>) = drv_inv k rs a L m" "drv_inv k rs a L (m\<lparr>seg_mds := y\<rparr>) = drv_inv k rs a L m"
  by (simp_all add: drv_inv_def brk_inv_def bsd_inv_def)

text \<open>Only the invariant on default arenas looks at them.\<close>

lemma sys_inv_default:
  assumes "sys_inv R m V" "i < length R" "default_ok (R[i := (R ! i)\<lparr>defarena := x\<rparr>]) (m\<lparr>da_src := y\<rparr>) V"
  shows "sys_inv (R[i := (R ! i)\<lparr>defarena := x\<rparr>]) (m\<lparr>da_src := y\<rparr>) V"
proof -
  let ?rs = "(R ! i)\<lparr>defarena := x\<rparr>" and ?m = "m\<lparr>da_src := y\<rparr>"
  let ?R = "R[i := ?rs]"
  have R: "ranks_ok R" using assms(1) by (simp add: sys_inv_def)
  have old: "\<exists>rs \<in> set R. shmmap rs' = shmmap rs \<and> pagesize rs' = pagesize rs \<and> (rs' = rs \<or> rs' = ?rs \<and> rs = R ! i)"
    if "rs' \<in> set ?R" for rs'
  proof -
    consider "rs' \<in> set R" | "rs' = ?rs" using \<open>rs' \<in> set ?R\<close> set_update_subset_insert [of R i ?rs] by blast
    then show ?thesis using nth_mem [OF assms(2)] by cases auto
  qed
  have "maps_ok rs' \<and> page_ok rs' \<and> (\<forall>q' \<in> set ?R. same_segs rs' q')" if in1: "rs' \<in> set ?R" for rs'
  proof -
    obtain rs where rs: "rs \<in> set R" "shmmap rs' = shmmap rs" "pagesize rs' = pagesize rs" using old [OF in1] by blast
    have "same_segs rs' q'" if in2: "q' \<in> set ?R" for q'
    proof -
      obtain q where q: "q \<in> set R" "shmmap q' = shmmap q" using old [OF in2] by blast
      then have "same_segs rs q" using R rs(1) by (simp add: ranks_ok_def)
      then show ?thesis using shmmap_cong(2) [OF rs(2) q(2)] by simp
    qed
    then show ?thesis using R rs shmmap_cong(1) [OF rs(2)] by (simp add: ranks_ok_def page_ok_def)
  qed
  then have "\<forall>rs \<in> set ?R. maps_ok rs \<and> page_ok rs \<and> (\<forall>rs' \<in> set ?R. same_segs rs rs')" by blast
  moreover have "\<forall>j < length ?R. shm_rank (?R ! j) = int j" using R assms(2) by (auto simp: ranks_ok_def nth_list_update)
  ultimately have R': "ranks_ok ?R" by (simp add: ranks_ok_def)
  have seg: "seg_ok rs' (word_of_nat j) ?m" if in1: "rs' \<in> set ?R" "j < nshmsrc rs'" for rs' j
  proof -
    obtain rs where rs: "rs \<in> set R" "shmmap rs' = shmmap rs" using old [OF in1(1)] by blast
    then have "seg_ok rs (word_of_nat j) m" using assms(1) in1(2) by (simp add: sys_inv_def)
    then show ?thesis unfolding shmmap_cong(3) [OF rs(2)] by (simp add: seg_ok_def)
  qed
  have ar: "arena_inv rs' a k A ?m" if in1: "rs' \<in> set ?R" "V a = Some (k, A)" for rs' a k A
  proof -
    obtain rs where rs: "rs \<in> set R" "shmmap rs' = shmmap rs" using old [OF in1(1)] by blast
    then have "arena_inv rs a k A m" "same_segs rs rs" using assms(1) that(2) R by (auto simp: sys_inv_def ranks_ok_def)
    moreover from this(2) have "same_segs rs rs'" using rs(2) by (simp add: same_segs_def)
    ultimately have "arena_inv rs' a k A m" using arena_inv_rank R' in1(1) by (auto simp: ranks_ok_def)
    then show ?thesis by (auto simp: arena_inv_def drv.ready_def)
  qed
  show ?thesis using assms(1,3) R' seg ar unfolding sys_inv_def by blast
qed

lemma sys_inv_cache:
  assumes "sys_inv R m V" "i < length R" "dt_length (da_src m) \<noteq> 0"
  shows "sys_inv (R[i := (R ! i)\<lparr>defarena := Some (da_src m)\<rparr>]) m V"
proof -
  let ?rs = "(R ! i)\<lparr>defarena := Some (da_src m)\<rparr>"
  let ?R = "R[i := ?rs]"
  have df: "default_ok R m V" using assms(1) by (simp add: sys_inv_def)
  have "d = da_src m \<and> dt_length d \<noteq> 0" if "rs' \<in> set ?R" "defarena rs' = Some d" for rs' d
    using set_update_subset_insert [of R i ?rs] that df assms(3) by (auto simp: default_ok_def)
  moreover have "defarena (?R ! 0) \<noteq> None" if "R \<noteq> []" using df assms(2,3) that by (cases i) (simp_all add: default_ok_def)
  ultimately have "default_ok ?R (m\<lparr>da_src := da_src m\<rparr>) V" using df assms(2) by (auto simp: default_ok_def)
  from sys_inv_default [OF assms(1,2) this] show ?thesis by simp
qed

text \<open>A call that falls back to the default arena is the call on that arena, at the rank that knows it.\<close>

lemma arena_arg_run:
  assumes "sys_inv R m V" "i < length R" "arena_arg (R ! i) m arenap = Some a"
  obtains rs where "sys_inv (R[i := rs]) m V" "shmmap rs = shmmap (R ! i)"
    "\<And>p q. dthread_shm_validate_args (R ! i) arenap p q m = dthread_shm_validate_args rs (Some a) p q m"
proof (cases arenap)
  case (Some b)
  then show thesis using that [of "R ! i"] assms by (simp add: arena_arg_def)
next
  case None
  show thesis
  proof (cases "defarena (R ! i)")
    case (Some d)
    then have "d = a" using None assms(3) by (simp add: arena_arg_def dthread_shm_get_defaultarena_def)
    then show thesis using that [of "R ! i"] assms None Some
      by (simp add: dthread_shm_validate_args_def dthread_shm_get_defaultarena_def)
  next
    case no: None
    then have da: "dt_length (da_src m) \<noteq> 0" "da_src m = a"
      using None assms(3) by (auto simp: arena_arg_def dthread_shm_get_defaultarena_def split: if_splits)
    let ?rs = "(R ! i)\<lparr>defarena := Some (da_src m)\<rparr>"
    have "dthread_shm_validate_args (R ! i) arenap p q m = dthread_shm_validate_args ?rs (Some a) p q m" for p q
      using None no da by (simp add: dthread_shm_validate_args_def dthread_shm_get_defaultarena_def)
    then show thesis using that [of ?rs] sys_inv_cache [OF assms(1,2) da(1)] by simp
  qed
qed

subsection \<open>Every call keeps the invariant\<close>

lemma sys_arena:
  assumes "sys_inv R m V" "rs \<in> set R" "V a = Some (k, A)"
  shows "arena_inv rs a k A m"
  using assms by (simp add: sys_inv_def)

lemma sys_malloc:
  assumes "sys_inv R m V" "rs \<in> set R" "V a = Some (k, A)" "drv_fits k n"
  shows "\<exists>res m'. dthread_shm_malloc rs (Some a) n m = Inr (res, rs, m') \<and>
    sys_inv R m' (V(a \<mapsto> (k, case res of None \<Rightarrow> A | Some (p, r) \<Rightarrow> A(r \<mapsto> get_bytes (bstart r) (unat n) (shm_bytes m' (dt_shmid r))))))"
proof -
  note ia = sys_arena [OF assms(1-3)]
  note d = arena_invD [OF ia]
  obtain res m' where r: "op_malloc (drv_ops k rs) a n m = Inr (res, m')" "arena_frame a m m'" "amds m' = amds m" "blocks_kept a (dom A) m m'"
      "case res of None \<Rightarrow> drv_inv k rs a (dom A) m'
       | Some (p, r) \<Rightarrow> r \<notin> dom A \<and> blen r = unat n \<and> p = mapping (arena_map rs a) + dt_offset r \<and> drv_inv k rs a (insert r (dom A)) m'"
    using drv.malloc_ok [OF d(1) assms(4)] by blast
  let ?A = "case res of None \<Rightarrow> A | Some (p, r) \<Rightarrow> A(r \<mapsto> get_bytes (bstart r) (unat n) (shm_bytes m' (dt_shmid r)))"
  have old: "0 < blen q \<and> block_bytes q (shm_bytes m' (dt_shmid a)) = xs" if "A q = Some xs" for q xs
    using ia r(4) that by (auto simp: arena_inv_def blocks_kept_def)
  have "drv_inv k rs a (dom ?A) m'" using r(5) by (cases res) auto
  moreover have "0 < blen q \<and> block_bytes q (shm_bytes m' (dt_shmid a)) = xs" if q: "?A q = Some xs" for q xs
  proof (cases res)
    case None
    then show ?thesis using old q by simp
  next
    case (Some pr)
    obtain p r' where pr: "pr = (p, r')" by fastforce
    have new: "blen r' = unat n" "drv_inv k rs a (insert r' (dom A)) m'" using r(5) Some pr by simp_all
    have "dt_shmid r' = dt_shmid a" using drv.inv_block [OF new(2), of r'] by simp
    moreover have "0 < unat n" using assms(4) by (simp add: drv_fits_def unat_gt_0)
    ultimately show ?thesis using old q Some pr new(1) by (cases "q = r'") (simp_all add: block_bytes_def)
  qed
  ultimately have "sys_inv R m' (V(a \<mapsto> (k, ?A)))" by (rule sys_inv_op [OF assms(1-3) r(2,3)])
  then show ?thesis using drv.api_malloc [OF d(3), of n] r(1) by simp
qed

lemma sys_free:
  assumes "sys_inv R m V" "rs \<in> set R" "V a = Some (k, A)" "r \<in> dom A"
  shows "\<exists>m'. dthread_shm_free_ref rs (Some a) (Some r) m = Inr (rs, m') \<and> sys_inv R m' (V(a \<mapsto> (k, A(r := None))))"
    "dthread_shm_free rs (Some a) (Some (mapping (arena_map rs a) + dt_offset r)) m = dthread_shm_free_ref rs (Some a) (Some r) m"
    "dthread_shmref2ptr rs (Some r) 0 = Some (mapping (arena_map rs a) + dt_offset r)"
proof -
  note ia = sys_arena [OF assms(1-3)]
  note d = arena_invD [OF ia]
  have pos: "0 < blen r" using ia assms(4) by (auto simp: arena_inv_def)
  obtain m' where f: "op_free (drv_ops k rs) a r m = Inr m'" "arena_frame a m m'" "amds m' = amds m" "blocks_kept a (dom A - {r}) m m'"
      "drv_inv k rs a (dom A - {r}) m'"
    using drv.free_ok [OF d(1) assms(4)] by blast
  have "dom (A(r := None)) = dom A - {r}" by auto
  moreover have "0 < blen q \<and> block_bytes q (shm_bytes m' (dt_shmid a)) = xs" if "(A(r := None)) q = Some xs" for q xs
    using ia f(4) that by (auto simp: arena_inv_def blocks_kept_def split: if_splits)
  ultimately have "sys_inv R m' (V(a \<mapsto> (k, A(r := None))))"
    using f(5) by (intro sys_inv_op [OF assms(1-3) f(2,3)]) simp_all
  then show "\<exists>m'. dthread_shm_free_ref rs (Some a) (Some r) m = Inr (rs, m') \<and> sys_inv R m' (V(a \<mapsto> (k, A(r := None))))"
    using drv.api_free(1) [OF d(3) assms(4) pos] f(1) by simp
  show "dthread_shm_free rs (Some a) (Some (mapping (arena_map rs a) + dt_offset r)) m = dthread_shm_free_ref rs (Some a) (Some r) m"
    by (rule drv.api_free(2) [OF d(3) assms(4) pos])
  show "dthread_shmref2ptr rs (Some r) 0 = Some (mapping (arena_map rs a) + dt_offset r)"
    by (rule drv.block_ref(5) [OF d(3) assms(4) pos])
qed

lemma sys_realloc:
  assumes "sys_inv R m V" "rs \<in> set R" "V a = Some (k, A)" "A r = Some xs" "drv_fits k n"
  shows "\<exists>res m'. dthread_shm_realloc_ref rs (Some a) (Some r) n m = Inr (res, rs, m') \<and>
      sys_inv R m' (V(a \<mapsto> (k, case res of
          None \<Rightarrow> A
        | Some (p, r') \<Rightarrow> (A(r := None))(r' \<mapsto> realloc_bytes xs (unat n) (get_bytes (bstart r') (unat n) (shm_bytes m' (dt_shmid r')))))))"
    "dthread_shm_realloc rs (Some a) (Some (mapping (arena_map rs a) + dt_offset r)) n m =
       dthread_shm_realloc_ref rs (Some a) (Some r) n m"
proof -
  note ia = sys_arena [OF assms(1-3)]
  note d = arena_invD [OF ia]
  have rA: "r \<in> dom A" using assms(4) by blast
  have "0 < blen r" "xs = block_bytes r (shm_bytes m (dt_shmid a))" using ia assms(4) by (auto simp: arena_inv_def)
  then have xs: "0 < blen r" "xs = block_bytes r (shm_bytes m (dt_shmid a))" "length xs = blen r" by (simp_all add: block_bytes_def)
  obtain res m' where f: "op_realloc (drv_ops k rs) a r n m = Inr (res, m')" "arena_frame a m m'" "amds m' = amds m"
      "case res of
         None \<Rightarrow> drv_inv k rs a (dom A) m' \<and> blocks_kept a (dom A) m m'
       | Some (p, r') \<Rightarrow> p = mapping (arena_map rs a) + dt_offset r' \<and> blen r' = unat n \<and> drv_inv k rs a (insert r' (dom A - {r})) m' \<and>
           take (blen r) (block_bytes r' (shm_bytes m' (dt_shmid a))) = take (unat n) (block_bytes r (shm_bytes m (dt_shmid a))) \<and>
           blocks_kept a (dom A - {r}) m m'"
    using drv.realloc_ok [OF d(1) rA assms(5)] by blast
  let ?A = "case res of None \<Rightarrow> A
        | Some (p, r') \<Rightarrow> (A(r := None))(r' \<mapsto> realloc_bytes xs (unat n) (get_bytes (bstart r') (unat n) (shm_bytes m' (dt_shmid r'))))"
  have "sys_inv R m' (V(a \<mapsto> (k, ?A)))"
  proof (cases res)
    case None
    then have "0 < blen q \<and> block_bytes q (shm_bytes m' (dt_shmid a)) = ys" if "?A q = Some ys" for q ys
      using ia f(4) that by (auto simp: arena_inv_def blocks_kept_def)
    then show ?thesis using None f(4) by (intro sys_inv_op [OF assms(1-3) f(2,3)]) simp_all
  next
    case (Some pr)
    obtain p r' where pr: "pr = (p, r')" by fastforce
    have new: "blen r' = unat n" "drv_inv k rs a (insert r' (dom A - {r})) m'" "blocks_kept a (dom A - {r}) m m'"
        "take (blen r) (block_bytes r' (shm_bytes m' (dt_shmid a))) = take (unat n) xs"
      using f(4) Some pr xs(2) by simp_all
    have sh: "dt_shmid r' = dt_shmid a" using drv.inv_block [OF new(2), of r'] by simp
    have "get_bytes (bstart r') (unat n) (shm_bytes m' (dt_shmid a)) = block_bytes r' (shm_bytes m' (dt_shmid a))"
      using new(1) by (simp add: block_bytes_def)
    moreover have "realloc_bytes xs (unat n) (block_bytes r' (shm_bytes m' (dt_shmid a))) = block_bytes r' (shm_bytes m' (dt_shmid a))"
      unfolding realloc_bytes_def new(4) [symmetric] xs(3) by (rule append_take_drop_id)
    moreover have "0 < unat n" using assms(5) by (simp add: drv_fits_def unat_gt_0)
    ultimately have "0 < blen q \<and> block_bytes q (shm_bytes m' (dt_shmid a)) = ys" if "?A q = Some ys" for q ys
      using ia new(1,3) that Some pr sh by (cases "q = r'") (auto simp: arena_inv_def blocks_kept_def split: if_splits)
    moreover have "dom ?A = insert r' (dom A - {r})" using Some pr by auto
    ultimately show ?thesis using new(2) by (intro sys_inv_op [OF assms(1-3) f(2,3)]) simp_all
  qed
  then show "\<exists>res m'. dthread_shm_realloc_ref rs (Some a) (Some r) n m = Inr (res, rs, m') \<and>
      sys_inv R m' (V(a \<mapsto> (k, case res of
          None \<Rightarrow> A
        | Some (p, r') \<Rightarrow> (A(r := None))(r' \<mapsto> realloc_bytes xs (unat n) (get_bytes (bstart r') (unat n) (shm_bytes m' (dt_shmid r')))))))"
    using drv.api_realloc(1) [OF d(3) rA xs(1) assms(5)] f(1) by simp
  show "dthread_shm_realloc rs (Some a) (Some (mapping (arena_map rs a) + dt_offset r)) n m =
       dthread_shm_realloc_ref rs (Some a) (Some r) n m"
    by (rule drv.api_realloc(2) [OF d(3) rA xs(1) assms(5)])
qed

lemma sys_write:
  assumes "sys_inv R m V" "R \<noteq> []" "V a = Some (k, A)" "A r = Some zs" "length xs = length zs"
  shows "sys_inv R (upd_bytes (dt_shmid r) (put_bytes (bstart r) xs) m) (V(a \<mapsto> (k, A(r \<mapsto> xs))))"
proof -
  obtain rs where rs: "rs \<in> set R" using assms(2) by (cases R) auto
  note ia = sys_arena [OF assms(1) rs assms(3)]
  note d = arena_invD [OF ia]
  have rA: "r \<in> dom A" using assms(4) by blast
  have "block_bytes r (shm_bytes m (dt_shmid a)) = zs" using ia assms(4) by (simp add: arena_inv_def)
  then have len: "length xs = blen r" using assms(5) by (auto simp: block_bytes_def)
  have b: "dt_shmid r = dt_shmid a" "bstart a \<le> bstart r" "bstart r + blen r \<le> bstart a + blen a"
    using drv.inv_block [OF d(1) rA] by simp_all
  let ?m = "arena_put a (bstart r) xs m"
  have m: "upd_bytes (dt_shmid r) (put_bytes (bstart r) xs) m = ?m" using b(1) by (simp add: arena_put_def)
  have fr: "arena_frame a m ?m" "amds ?m = amds m" using arena_put_frame [OF b(2)] b(3) len by simp_all
  have "dom (A(r \<mapsto> xs)) = dom A" using rA by auto
  moreover have "drv_inv k rs a (dom A) ?m" by (rule drv.write_ok [OF d(1) rA len])
  moreover have "0 < blen q \<and> block_bytes q (shm_bytes ?m (dt_shmid a)) = ys" if q: "(A(r \<mapsto> xs)) q = Some ys" for q ys
  proof (cases "q = r")
    case True
    then show ?thesis using q ia rA len get_put_bytes_same [of "bstart r" xs]
      by (auto simp: arena_inv_def arena_put_def upd_bytes_def block_bytes_def)
  next
    case False
    then have A: "A q = Some ys" using q by simp
    then have "blocks_apart q r" using drv.inv_ok [OF d(1)] rA False by (auto simp: all_apart_def)
    then show ?thesis using A ia len
      by (auto simp: arena_inv_def arena_put_def upd_bytes_def block_bytes_def blocks_apart_def get_put_bytes_apart)
  qed
  ultimately show ?thesis unfolding m by (intro sys_inv_op [OF assms(1) rs assms(3) fr]) simp_all
qed

lemma sys_finalize:
  assumes "sys_inv R m V" "i < length R" "arena_arg (R ! i) m arenap = Some a" "a \<in> dom V"
    "dthread_shm_finalize_arena (R ! i) arenap m = Inr (rv, rs', m')"
  shows "sys_inv (R[i := rs']) m' V"
proof -
  obtain k A where V: "V a = Some (k, A)" using assms(4) by auto
  obtain rs where rs: "sys_inv (R[i := rs]) m V" "\<And>p q. dthread_shm_validate_args (R ! i) arenap p q m = dthread_shm_validate_args rs (Some a) p q m"
    using arena_arg_run [OF assms(1-3)] by metis
  have "rs \<in> set (R[i := rs])" using assms(2) by (simp add: set_update_memI)
  note d = arena_invD [OF sys_arena [OF rs(1) this V]]
  have "rs' = rs" "m' = m" using assms(5) d(2) unfolding dthread_shm_finalize_arena_def rs(2) drv.validate_arena [OF d(3)]
    by (auto simp: drv_ops_def break_mops_def bsd_mops_def)
  then show ?thesis using rs(1) by simp
qed

lemma sys_set_default:
  assumes "sys_inv R m V" "i < length R" "a \<in> dom V" "dthread_shm_set_defaultarena a (R ! i) m = (rv, rs', m')"
  shows "sys_inv (R[i := rs']) m' V"
proof (cases "rv = 0")
  case False
  then have "rs' = R ! i" "m' = m" using assms(4) by (auto simp: dthread_shm_set_defaultarena_def split: if_splits)
  then show ?thesis using assms(1) by simp
next
  case True
  then have c: "shm_rank (R ! i) = 0" "defarena (R ! i) = None" "rs' = (R ! i)\<lparr>defarena := Some a\<rparr>" "m' = m\<lparr>da_src := a\<rparr>"
    using assms(4) by (auto simp: dthread_shm_set_defaultarena_def split: if_splits)
  have "int i = 0" using assms(1,2) c(1) by (simp add: sys_inv_def ranks_ok_def)
  then have i: "i = 0" by simp
  have df: "default_ok R m V" using assms(1) by (simp add: sys_inv_def)
  then have z: "dt_length (da_src m) = 0" using c(2) i assms(2) by (auto simp: default_ok_def)
  then have none: "defarena rs = None" if "rs \<in> set R" for rs using df that by (cases "defarena rs") (auto simp: default_ok_def)
  obtain k A where a: "V a = Some (k, A)" using assms(3) by auto
  have "R ! i \<in> set R" using assms(2) by simp
  then have pos: "dt_length a \<noteq> 0" using arena_invD(5) [OF sys_arena [OF assms(1) _ a]] by (auto simp: blen_def)
  have ne: "R \<noteq> []" using assms(2) by auto
  have "d = a" if "rs \<in> set (R[i := rs'])" "defarena rs = Some d" for rs d
    using set_update_subset_insert [of R i rs'] that none c(3) by auto
  then have "default_ok (R[i := rs']) m' V"
    using assms(2,3) pos i ne c(3,4) by (auto simp: default_ok_def)
  then show ?thesis unfolding c(3,4) by (rule sys_inv_default [OF assms(1,2)])
qed

subsection \<open>A new arena\<close>

lemma sys_seg_alloc:
  assumes "sys_inv R m V" "rs \<in> set R" "dthread_shmseg_alloc rs spin shmid sz m = (Some (p, a), m')"
  shows "sys_inv R m' V" "\<forall>b \<in> dom V. arenas_apart b a" "0 < blen a" "dt_shmid a = shmid" "unat shmid < nshmsrc rs"
    "bstart a + blen a \<le> unat (first_avail (seg_md rs shmid m'))" "a \<notin> dom V"
proof -
  have lt: "unat shmid < nshmsrc rs" using assms(3) by (auto simp: dthread_shmseg_alloc_def Let_def split: if_splits)
  then have "seg_ok rs (word_of_nat (unat shmid)) m" using assms(1,2) unfolding sys_inv_def by blast
  then have ok: "seg_ok rs shmid m" by simp
  note r = seg_alloc_some [OF ok assms(3)]
  let ?md = "seg_md rs shmid m" and ?md' = "seg_md rs shmid m'"
  have m': "m' = m\<lparr>seg_mds := seg_mds m'\<rparr>" using assms(3) by (auto simp: dthread_shmseg_alloc_def Let_def split: if_splits)
  have grow: "unat (first_avail ?md) \<le> unat (first_avail ?md')" using r(2,4) by (simp add: bstart_def)
  have same: "same_segs rs q" if "q \<in> set R" for q using assms(1,2) that by (simp add: sys_inv_def ranks_ok_def)
  have md: "seg_md q i m' = (if i = shmid then ?md\<lparr>first_avail := first_avail ?md'\<rparr> else seg_md q i m)" if "q \<in> set R" "unat i < nshmsrc q" for q i
  proof -
    have "unat i < nshmsrc rs" using that same_segs_maps(1) [OF same] by simp
    then have "seg_loc q i = seg_loc rs i" using same_segs_maps(4) [OF same [OF that(1)]] by (simp add: seg_loc_def)
    moreover have "seg_loc rs i = seg_loc rs shmid \<longleftrightarrow> i = shmid" by (auto simp: seg_loc_def)
    ultimately show ?thesis by (subst r(5)) simp
  qed
  have "seg_ok q (word_of_nat i) m'" if q: "q \<in> set R" "i < nshmsrc q" for q i
  proof -
    have o: "seg_ok q (word_of_nat i) m" using assms(1) q by (simp add: sys_inv_def)
    then have u: "unat (word_of_nat i :: u64) < nshmsrc q" by (simp add: seg_ok_def)
    have "end_avail ?md' = end_avail ?md" by (subst r(5)) simp
    then have "first_avail ?md' \<le> end_avail ?md" using r(6) by (simp add: seg_ok_def)
    moreover have "seg_md q shmid m = ?md" using same_segs_md [OF same [OF q(1)] lt] by simp
    ultimately show ?thesis using o md [OF q(1) u] by (auto simp: seg_ok_def)
  qed
  moreover have "arena_inv q b k B m'" if q: "q \<in> set R" "V b = Some (k, B)" for q b k B
  proof -
    note ib = sys_arena [OF assms(1) q]
    have le: "bstart b + blen b \<le> unat (first_avail (seg_md q (dt_shmid b) m'))"
      using ib grow md [OF q(1) arena_invD(4) [OF ib]] same_segs_md [OF same [OF q(1)] lt] by (auto simp: arena_inv_def)
    have "drv_inv k q b (dom B) m'" by (subst m') (simp add: arena_invD(1) [OF ib])
    moreover have "amds m' = amds m" "shm_bytes m' = shm_bytes m" by (subst m', simp)+
    ultimately show ?thesis using ib le by (auto simp: arena_inv_def drv.ready_def)
  qed
  moreover have "da_src m' = da_src m" by (subst m') simp
  ultimately show "sys_inv R m' V" using assms(1) by (auto simp: sys_inv_def default_ok_def)
  have below: "bstart b + blen b \<le> bstart a" "0 < blen b" if bV: "b \<in> dom V" "dt_shmid b = shmid" for b
  proof -
    obtain k B where "V b = Some (k, B)" using bV(1) by auto
    then have ib: "arena_inv rs b k B m" using sys_arena [OF assms(1,2)] by blast
    then show "bstart b + blen b \<le> bstart a" using bV(2) r(2) by (simp add: arena_inv_def bstart_def)
    show "0 < blen b" by (rule arena_invD(5) [OF ib])
  qed
  show "\<forall>b \<in> dom V. arenas_apart b a"
    using below(1) r(1) by (auto simp: arenas_apart_def blocks_apart_def apart_def)
  show "a \<notin> dom V" using below [of a] r(1) by fastforce
  show "0 < blen a" "dt_shmid a = shmid" "unat shmid < nshmsrc rs" "bstart a + blen a \<le> unat (first_avail ?md')"
    using r lt by simp_all
qed

text \<open>The arena \<open>a\<close> has been taken from the segment and its driver has been initialized.\<close>

lemma sys_add_arena:
  assumes "sys_inv R m V" "rs \<in> set R" "\<forall>b \<in> dom V. arenas_apart b a" "a \<notin> dom V" "arena_inv rs a k Map.empty m"
  shows "sys_inv R m (V(a \<mapsto> (k, Map.empty)))"
proof -
  have R: "maps_ok q" "same_segs rs q" if "q \<in> set R" for q using assms(1,2) that by (simp_all add: sys_inv_def ranks_ok_def)
  have "arena_inv q b k' B m" if "q \<in> set R" "(V(a \<mapsto> (k, Map.empty))) b = Some (k', B)" for q b k' B
    using that sys_arena [OF assms(1)] arena_inv_rank [OF assms(5) R(2,1)] by (cases "b = a") auto
  moreover have "arenas_apart b c" if "b \<in> insert a (dom V)" "c \<in> insert a (dom V)" "b \<noteq> c" for b c
  proof -
    have "arenas_apart b c = arenas_apart c b" by (auto simp: arenas_apart_def blocks_apart_sym)
    then show ?thesis using that assms(1,3) unfolding sys_inv_def by blast
  qed
  moreover have "default_ok R m (V(a \<mapsto> (k, Map.empty)))" using assms(1) by (auto simp: sys_inv_def default_ok_def)
  ultimately show ?thesis using assms(1) by (auto simp: sys_inv_def)
qed

lemma sys_new_arena:
  assumes "sys_inv R m V" "rs \<in> set R" "dthread_get_mopid rs name = k" "k < NINT_MOPS"
    "dthread_shm_new_arena rs spin shmid name sz m = Inr (rv, oa, m')"
  shows "sys_inv R m' (if rv = 0 then V(the oa \<mapsto> (k, Map.empty)) else V)"
proof (cases "0 \<le> k \<and> \<not> (sz \<noteq> 0 \<and> sz < word_of_int (pagesize rs)) \<and> fst (dthread_shmseg_alloc rs spin shmid sz m) \<noteq> None")
  case False
  have none: "m' = m" if "dthread_shmseg_alloc rs spin shmid sz m = (None, m')" for m'
    using that by (auto simp: dthread_shmseg_alloc_def Let_def split: if_splits)
  have "m' = m" "rv \<noteq> 0" using False assms(3-5) none
    by (auto simp: dthread_shm_new_arena_def Let_def split: if_splits option.splits prod.splits)
  then show ?thesis using assms(1) by simp
next
  case True
  then obtain p a m\<^sub>1 where al: "dthread_shmseg_alloc rs spin shmid sz m = (Some (p, a), m\<^sub>1)"
    by (cases "dthread_shmseg_alloc rs spin shmid sz m") auto
  note s = sys_seg_alloc [OF assms(1,2) al]
  have k: "k = 0 \<or> k = 1" using True assms(4) by auto
  define amd where "amd = \<lparr>mdmagic = DTHREAD_SHM_MD_MAGIC, md_self = a, min_uoffset = dt_offset a + sizeof_alloc_md,
      max_uoffset = dt_offset a + dt_length a, badalign_bits = 0, mopid = k\<rparr>"
  define m\<^sub>2 where "m\<^sub>2 = m\<^sub>1\<lparr>amds := (amds m\<^sub>1)(arena_loc a := amd)\<rparr>"
  have R: "maps_ok rs" "page_ok rs" "same_segs rs rs" using assms(1,2) by (simp_all add: sys_inv_def ranks_ok_def)
  have "md_self (amds m\<^sub>2 (arena_loc a)) = a" by (simp add: m\<^sub>2_def amd_def)
  then obtain rv' m\<^sub>3 where i: "op_init (drv_ops k rs) a m\<^sub>2 = Inr (rv', m\<^sub>3)" "arena_frame a m\<^sub>2 m\<^sub>3"
      "rv' = 0 \<Longrightarrow> drv_inv k rs a {} m\<^sub>3"
      "rv' = 0 \<Longrightarrow> \<exists>u. amds m\<^sub>3 (arena_loc a) = (amds m\<^sub>2 (arena_loc a))\<lparr>min_uoffset := u, badalign_bits := 15\<rparr>"
    using drv.init_ok [OF R(2,1), of m\<^sub>2 a k] by blast
  have "\<not> dt_length a < sizeof_alloc_md" using True assms(3,5) mopid2ops_drv [OF k, of rs] al
    by (auto simp: dthread_shm_new_arena_def Let_def)
  then have "dthread_shm_new_arena rs spin shmid name sz m = Inr (rv', Some a, m\<^sub>3)"
    using True assms(3) mopid2ops_drv [OF k, of rs] al i(1)
    by (simp add: dthread_shm_new_arena_def Let_def m\<^sub>2_def amd_def)
  then have eq: "rv = rv'" "oa = Some a" "m' = m\<^sub>3" using assms(5) by simp_all
  have "arena_frame a m\<^sub>1 m\<^sub>2" by (simp add: arena_frame_def m\<^sub>2_def)
  then have fr: "arena_frame a m\<^sub>1 m\<^sub>3" using i(2) by (rule arena_frame_trans)
  have inv: "sys_inv R m\<^sub>3 V" by (rule sys_inv_foreign [OF s(1) fr s(2,3)])
  show ?thesis
  proof (cases "rv' = 0")
    case False
    then show ?thesis using eq inv by simp
  next
    case ok: True
    obtain u where u: "amds m\<^sub>3 (arena_loc a) = amd\<lparr>min_uoffset := u, badalign_bits := 15\<rparr>"
      using i(4) [OF ok] by (auto simp: m\<^sub>2_def)
    have "arena_ok rs a (amds m\<^sub>3 (arena_loc a))" using drv.inv_ok [OF i(3) [OF ok]] by blast
    then have "unat (dt_offset a + dt_length a) = bstart a + blen a"
      unfolding bstart_def blen_def
      by (intro unat_add_bounded [of _ _ "map_size (arena_map rs a)"]) (simp add: arena_ok_def bstart_def blen_def)
    then have "amd_ok a (amds m\<^sub>3 (arena_loc a))" by (simp add: u amd_ok_def amd_def)
    moreover have "16 dvd unat (mapping (arena_map rs a))" using R(3) s(4,5) by (simp add: same_segs_def)
    moreover have "seg_mds m\<^sub>3 = seg_mds m\<^sub>1" using fr by (simp add: arena_frame_def)
    ultimately have "arena_inv rs a k Map.empty m\<^sub>3"
      using k mopid2ops_drv [OF k, of rs] i(3) [OF ok] R(1) s(4,6) by (auto simp: arena_inv_def drv.ready_def u amd_def)
    then show ?thesis using sys_add_arena [OF inv assms(2) s(2,7)] eq ok by simp
  qed
qed

lemma api_cong:
  assumes "\<And>p q. dthread_shm_validate_args rs arenap p q m = dthread_shm_validate_args rs' (Some a) p q m"
  shows "dthread_shm_malloc rs arenap n m = dthread_shm_malloc rs' (Some a) n m"
    "dthread_shm_free_ref rs arenap (Some r) m = dthread_shm_free_ref rs' (Some a) (Some r) m \<or> dt_length r = 0"
    "dthread_shm_free rs arenap (Some ptr) m = dthread_shm_free rs' (Some a) (Some ptr) m"
    "dthread_shm_realloc_ref rs arenap (Some r) n m = dthread_shm_realloc_ref rs' (Some a) (Some r) n m"
    "dthread_shm_realloc rs arenap (Some ptr) n m = dthread_shm_realloc rs' (Some a) (Some ptr) n m"
  by (simp_all add: assms dthread_shm_malloc_def dthread_shm_free_ref_def dthread_shm_free_def dthread_shm_realloc_ref_def
      dthread_shm_realloc_def)

lemma shm_step_inv:
  assumes "shm_step s t" "sys_inv (sys_ranks s) (sys_mem s) (sys_view s)" "sys_ranks s \<noteq> []"
  shows "sys_inv (sys_ranks t) (sys_mem t) (sys_view t) \<and> sys_ranks t \<noteq> []"
  using assms
proof (induction rule: shm_step.induct)
  case (step_new_arena i R sz name k spin shmid m rv oa m' V)
  then show ?case using sys_new_arena [of R m V "R ! i" name k spin shmid sz rv oa m'] by simp
next
  case (step_set_default i R a V m rv rs' m')
  then show ?case using sys_set_default [of R m V i a rv rs' m'] by simp
next
  case (step_finalize i R m arenap a V rv rs' m')
  then show ?case using sys_finalize [of R m V i arenap a rv rs' m'] by simp
next
  case (step_malloc i R m arenap a V k A n res rs' m')
  then have inv: "sys_inv R m V" by simp
  obtain rs where rs: "sys_inv (R[i := rs]) m V" "\<And>p q. dthread_shm_validate_args (R ! i) arenap p q m = dthread_shm_validate_args rs (Some a) p q m"
    using arena_arg_run [OF inv step_malloc(1,2)] by metis
  have "rs \<in> set (R[i := rs])" using step_malloc(1) by (simp add: set_update_memI)
  from sys_malloc [OF rs(1) this step_malloc(3,4)]
  have "sys_inv (R[i := rs']) m' (V(a \<mapsto> (k, case res of
      None \<Rightarrow> A | Some (p, r) \<Rightarrow> A(r \<mapsto> get_bytes (bstart r) (unat n) (shm_bytes m' (dt_shmid r))))))"
    using step_malloc(5) api_cong(1) [OF rs(2)] by auto
  then show ?case using step_malloc(7) by (simp add: fun_upd_def)
next
  case (step_free_ref i R m arenap a V k A r rs' m')
  then have inv: "sys_inv R m V" by simp
  obtain rs where rs: "sys_inv (R[i := rs]) m V" "\<And>p q. dthread_shm_validate_args (R ! i) arenap p q m = dthread_shm_validate_args rs (Some a) p q m"
    using arena_arg_run [OF inv step_free_ref(1,2)] by metis
  have i: "rs \<in> set (R[i := rs])" using step_free_ref(1) by (simp add: set_update_memI)
  have "0 < blen r" using sys_arena [OF rs(1) i step_free_ref(3)] step_free_ref(4) by (auto simp: arena_inv_def)
  then have "dt_length r \<noteq> 0" by (auto simp: blen_def)
  then have "sys_inv (R[i := rs']) m' (V(a \<mapsto> (k, A(r := None))))"
    using sys_free(1) [OF rs(1) i step_free_ref(3,4)] step_free_ref(5) api_cong(2) [OF rs(2), of r] by auto
  then show ?case using step_free_ref(7) by (simp add: fun_upd_def)
next
  case (step_free i R m arenap a V k A r p rs' m')
  then have inv: "sys_inv R m V" by simp
  obtain rs where rs: "sys_inv (R[i := rs]) m V" "shmmap rs = shmmap (R ! i)"
      "\<And>p q. dthread_shm_validate_args (R ! i) arenap p q m = dthread_shm_validate_args rs (Some a) p q m"
    using arena_arg_run [OF inv step_free(1,2)] by metis
  have i: "rs \<in> set (R[i := rs])" using step_free(1) by (simp add: set_update_memI)
  note f = sys_free [OF rs(1) i step_free(3,4)]
  have "dthread_shmref2ptr rs (Some r) 0 = Some p" using step_free(5) shmmap_cong(4) [OF rs(2)] by simp
  then have "sys_inv (R[i := rs']) m' (V(a \<mapsto> (k, A(r := None))))"
    using f step_free(6) api_cong(3) [OF rs(3), of p] by auto
  then show ?case using step_free(8) by (simp add: fun_upd_def)
next
  case (step_realloc_ref i R m arenap a V k A r xs n res rs' m')
  then have inv: "sys_inv R m V" by simp
  obtain rs where rs: "sys_inv (R[i := rs]) m V" "\<And>p q. dthread_shm_validate_args (R ! i) arenap p q m = dthread_shm_validate_args rs (Some a) p q m"
    using arena_arg_run [OF inv step_realloc_ref(1,2)] by metis
  have "rs \<in> set (R[i := rs])" using step_realloc_ref(1) by (simp add: set_update_memI)
  from sys_realloc(1) [OF rs(1) this step_realloc_ref(3-5)]
  have "sys_inv (R[i := rs']) m' (V(a \<mapsto> (k, case res of None \<Rightarrow> A
      | Some (p, r') \<Rightarrow> (A(r := None))(r' \<mapsto> realloc_bytes xs (unat n) (get_bytes (bstart r') (unat n) (shm_bytes m' (dt_shmid r')))))))"
    using step_realloc_ref(6) api_cong(4) [OF rs(2), of r n] by auto
  then show ?case using step_realloc_ref(8) by (simp add: fun_upd_def)
next
  case (step_realloc i R m arenap a V k A r xs n p res rs' m')
  then have inv: "sys_inv R m V" by simp
  obtain rs where rs: "sys_inv (R[i := rs]) m V" "shmmap rs = shmmap (R ! i)"
      "\<And>p q. dthread_shm_validate_args (R ! i) arenap p q m = dthread_shm_validate_args rs (Some a) p q m"
    using arena_arg_run [OF inv step_realloc(1,2)] by metis
  have i: "rs \<in> set (R[i := rs])" using step_realloc(1) by (simp add: set_update_memI)
  have "r \<in> dom A" using step_realloc(4) by blast
  then have "dthread_shmref2ptr rs (Some r) 0 = Some (mapping (arena_map rs a) + dt_offset r)"
    by (rule sys_free(3) [OF rs(1) i step_realloc(3)])
  then have "p = mapping (arena_map rs a) + dt_offset r" using step_realloc(6) shmmap_cong(4) [OF rs(2)] by simp
  then have "sys_inv (R[i := rs']) m' (V(a \<mapsto> (k, case res of None \<Rightarrow> A
      | Some (p, r') \<Rightarrow> (A(r := None))(r' \<mapsto> realloc_bytes xs (unat n) (get_bytes (bstart r') (unat n) (shm_bytes m' (dt_shmid r')))))))"
    using sys_realloc [OF rs(1) i step_realloc(3-5)] step_realloc(7) api_cong(5) [OF rs(3), of p n] by auto
  then show ?case using step_realloc(9) by (simp add: fun_upd_def)
next
  case (step_write V a k A r ys xs R m)
  then show ?case using sys_write [of R m V a k A r ys xs] by (simp add: fun_upd_def)
qed

text \<open>The system after start-up: no arena yet.\<close>

definition shm_init :: "shmrs list \<Rightarrow> shmem \<Rightarrow> bool" where
  "shm_init R m \<longleftrightarrow> R \<noteq> [] \<and> ranks_ok R \<and> (\<forall>rs \<in> set R. \<forall>i < nshmsrc rs. seg_ok rs (word_of_nat i) m) \<and>
     dt_length (da_src m) = 0 \<and> (\<forall>rs \<in> set R. defarena rs = None)"

lemma shm_reach_inv:
  assumes "shm_init R m" "shm_step\<^sup>*\<^sup>* \<lparr>sys_ranks = R, sys_mem = m, sys_view = Map.empty\<rparr> s"
  shows "sys_inv (sys_ranks s) (sys_mem s) (sys_view s) \<and> sys_ranks s \<noteq> []"
  using assms(2)
proof (induction rule: rtranclp_induct)
  case base
  then show ?case using assms(1) by (simp add: shm_init_def sys_inv_def default_ok_def)
next
  case (step s t)
  then show ?case using shm_step_inv by blast
qed

subsection \<open>Properties\<close>

text \<open>
  C27. The malloc interface gives all ranks one store of blocks.  Whatever calls the ranks
  make (new arenas, default arenas, finalize, malloc, free and realloc, by pointer or by
  reference, with either internal driver, for sizes from 1 to \<open>2 ^ 30\<close> in a "bsd" arena and
  from 1 to \<open>2 ^ 64 - 32\<close> in a "break" arena) and whatever they write to their blocks: no two
  arenas overlap; the blocks in use of an arena do not overlap and lie in it behind its
  metadata; each block is exactly as long as it was requested and holds exactly what was
  last written to it, by whatever rank, with the old contents kept across reallocation;
  every rank can resolve every block to an aligned pointer of its own; and a further
  malloc, or free or realloc of a block in use, by any rank, returns without a fault.
\<close>

theorem shm_system_safe:
  assumes "shm_init R m"
    and "shm_step\<^sup>*\<^sup>* \<lparr>sys_ranks = R, sys_mem = m, sys_view = Map.empty\<rparr> \<lparr>sys_ranks = R', sys_mem = m', sys_view = V\<rparr>"
  shows "(\<forall>a b. a \<in> dom V \<and> b \<in> dom V \<and> a \<noteq> b \<longrightarrow> arenas_apart a b) \<and>
    (\<forall>a k A. V a = Some (k, A) \<longrightarrow> all_apart (dom A) \<and>
       (\<forall>rs \<in> set R'. \<forall>n. drv_fits k n \<longrightarrow> (\<exists>out. dthread_shm_malloc rs (Some a) n m' = Inr out)) \<and>
       (\<forall>r xs. A r = Some xs \<longrightarrow> block_bytes r (shm_bytes m' (dt_shmid r)) = xs \<and> blen r = length xs \<and> dt_shmid r = dt_shmid a \<and>
          bstart a + unat sizeof_alloc_md \<le> bstart r \<and> bstart r + blen r \<le> bstart a + blen a \<and>
          (\<forall>rs \<in> set R'. (\<exists>p. dthread_shmref2ptr rs (Some r) 0 = Some p \<and> 16 dvd unat p) \<and>
             (\<exists>out. dthread_shm_free_ref rs (Some a) (Some r) m' = Inr out) \<and>
             (\<forall>n. drv_fits k n \<longrightarrow> (\<exists>out. dthread_shm_realloc_ref rs (Some a) (Some r) n m' = Inr out)))))"
proof -
  have inv: "sys_inv R' m' V" "R' \<noteq> []" using shm_reach_inv [OF assms] by simp_all
  then obtain rs\<^sub>0 where rs\<^sub>0: "rs\<^sub>0 \<in> set R'" by (cases R') auto
  have all: "all_apart (dom A)" if V: "V a = Some (k, A)" for a k A
    using drv.inv_ok [OF arena_invD(1) [OF sys_arena [OF inv(1) rs\<^sub>0 V]]] by blast
  have mal: "\<exists>out. dthread_shm_malloc rs (Some a) n m' = Inr out" if "V a = Some (k, A)" "rs \<in> set R'" "drv_fits k n" for a k A rs n
    using sys_malloc [OF inv(1) that(2,1,3)] by blast
  have blk: "block_bytes r (shm_bytes m' (dt_shmid r)) = xs \<and> blen r = length xs \<and> dt_shmid r = dt_shmid a \<and>
      bstart a + unat sizeof_alloc_md \<le> bstart r \<and> bstart r + blen r \<le> bstart a + blen a"
    if V: "V a = Some (k, A)" and A: "A r = Some xs" for a k A r xs
  proof -
    note ia = sys_arena [OF inv(1) rs\<^sub>0 V]
    have rA: "r \<in> dom A" using A by blast
    note b = drv.inv_block [OF arena_invD(1) [OF ia] rA]
    then have c: "block_bytes r (shm_bytes m' (dt_shmid r)) = xs" using ia A by (simp add: arena_inv_def)
    then have "blen r = length xs" by (auto simp: block_bytes_def)
    then show ?thesis using b c by blast
  qed
  have call: "(\<exists>p. dthread_shmref2ptr rs (Some r) 0 = Some p \<and> 16 dvd unat p) \<and>
      (\<exists>out. dthread_shm_free_ref rs (Some a) (Some r) m' = Inr out) \<and>
      (\<forall>n. drv_fits k n \<longrightarrow> (\<exists>out. dthread_shm_realloc_ref rs (Some a) (Some r) n m' = Inr out))"
    if V: "V a = Some (k, A)" and A: "A r = Some xs" and rs: "rs \<in> set R'" for a k A r xs rs
  proof -
    note ja = sys_arena [OF inv(1) rs V]
    note e = arena_invD [OF ja]
    have rA: "r \<in> dom A" and pos: "0 < blen r" using ja A by (auto simp: arena_inv_def)
    have "16 dvd unat (mapping (arena_map rs a)) + bstart r" using drv.inv_block [OF e(1) rA] by blast
    then have "\<exists>p. dthread_shmref2ptr rs (Some r) 0 = Some p \<and> 16 dvd unat p" using drv.block_ref(5,7) [OF e(3) rA pos] by simp
    then show ?thesis using sys_free(1) [OF inv(1) rs V rA] sys_realloc(1) [OF inv(1) rs V A] by blast
  qed
  have ap: "arenas_apart a b" if "a \<in> dom V \<and> b \<in> dom V \<and> a \<noteq> b" for a b
    using inv(1) that unfolding sys_inv_def by blast
  show ?thesis
  proof (intro conjI allI impI ballI, goal_cases)
    case 1
    then show ?case by (rule ap)
  next
    case 2
    then show ?case by (rule all)
  next
    case 3
    then show ?case by (rule mal)
  qed ((drule (2) call | drule (1) blk), blast)+
qed

text \<open>
  C30. Pointers and references are interchangeable: for any block in use (of a size within
  \<open>drv_fits\<close>, so not 0) and any rank, freeing or reallocating the block through the pointer the
  rank has for it does exactly what the call through the reference does, and freeing it
  succeeds.  The exception is a reference of length 0, which stands for no block: freeing it
  does nothing and reallocating it allocates a new block, whatever it points to.
\<close>

theorem pointer_or_reference:
  assumes "shm_init R m"
    and "shm_step\<^sup>*\<^sup>* \<lparr>sys_ranks = R, sys_mem = m, sys_view = Map.empty\<rparr> \<lparr>sys_ranks = R', sys_mem = m', sys_view = V\<rparr>"
    and "rs \<in> set R'" and "V a = Some (k, A)" and "r \<in> dom A" and "dthread_shmref2ptr rs (Some r) 0 = Some p" and "drv_fits k n"
  shows "dthread_shm_free rs (Some a) (Some p) m' = dthread_shm_free_ref rs (Some a) (Some r) m' \<and>
    dthread_shm_realloc rs (Some a) (Some p) n m' = dthread_shm_realloc_ref rs (Some a) (Some r) n m' \<and>
    (\<exists>m''. dthread_shm_free rs (Some a) (Some p) m' = Inr (rs, m'')) \<and> dt_length r \<noteq> 0 \<and>
    (\<forall>q. dt_length q = 0 \<longrightarrow> dthread_shm_free_ref rs (Some a) (Some q) m' = Inr (rs, m') \<and>
       dthread_shm_realloc_ref rs (Some a) (Some q) n m' = dthread_shm_malloc rs (Some a) n m')"
proof -
  have inv: "sys_inv R' m' V" using shm_reach_inv [OF assms(1,2)] by simp
  note f = sys_free [OF inv assms(3-5)]
  obtain xs where xs: "A r = Some xs" using assms(5) by blast
  have "0 < blen r" using sys_arena [OF inv assms(3,4)] xs by (simp add: arena_inv_def)
  then have "dt_length r \<noteq> 0" by (auto simp: blen_def)
  moreover have "dthread_shm_free_ref rs (Some a) (Some q) m' = Inr (rs, m') \<and>
      dthread_shm_realloc_ref rs (Some a) (Some q) n m' = dthread_shm_malloc rs (Some a) n m'" if "dt_length q = 0" for q
    using that by (simp add: dthread_shm_free_ref_def dthread_shm_realloc_ref_def)
  ultimately show ?thesis using f sys_realloc(2) [OF inv assms(3,4) xs assms(7)] assms(6) by auto
qed

subsection \<open>Two ranks\<close>

text \<open>Two ranks that map one segment at different addresses; rank 0 creates an arena and rank 1 allocates in it.\<close>

definition ranks_ex :: "shmrs list" where
  "ranks_ex =
     [\<lparr>shm_rank = 0, pagesize = 4096, shmmap = [\<lparr>mapping = 0x7f0000000000, md_offset = 0, map_size = 0x100000\<rparr>],
       usrmops = [], defarena = None\<rparr>,
      \<lparr>shm_rank = 1, pagesize = 4096, shmmap = [\<lparr>mapping = 0x7e0000000000, md_offset = 0, map_size = 0x100000\<rparr>],
       usrmops = [], defarena = None\<rparr>]"

lemma shm_init_ex: "shm_init ranks_ex seg_ex"
proof -
  have "\<forall>rs \<in> set ranks_ex. maps_ok rs \<and> page_ok rs \<and> (\<forall>rs' \<in> set ranks_ex. same_segs rs rs')"
  proof -
    have "(4096 :: int) = 2 ^ 12" by simp
    then show ?thesis by (auto simp: ranks_ex_def maps_ok_def page_ok_def same_segs_def intro!: exI [of _ 12])
  qed
  moreover have "\<forall>i < length ranks_ex. shm_rank (ranks_ex ! i) = int i" by (auto simp: ranks_ex_def less_Suc_eq)
  moreover have "\<forall>rs \<in> set ranks_ex. \<forall>i < nshmsrc rs. seg_ok rs (word_of_nat i) seg_ex"
    by (auto simp: ranks_ex_def seg_ok_def seg_ex_def)
  moreover have "dt_length (da_src seg_ex) = 0" by (simp add: seg_ex_def)
  moreover have "\<forall>rs \<in> set ranks_ex. defarena rs = None" by (simp add: ranks_ex_def)
  ultimately show ?thesis by (simp add: shm_init_def ranks_ok_def) (simp add: ranks_ex_def)
qed

lemma ranks_ex_run:
  obtains a r m V A where "shm_step\<^sup>*\<^sup>* \<lparr>sys_ranks = ranks_ex, sys_mem = seg_ex, sys_view = Map.empty\<rparr>
      \<lparr>sys_ranks = ranks_ex, sys_mem = m, sys_view = V\<rparr>" "V a = Some (0, A)" "r \<in> dom A" "bstart a + blen a = 0x5000"
    "\<forall>q ys. A q = Some ys \<longrightarrow> length ys = 100"
proof -
  let ?a = "\<lparr>dt_shmid = 0, dt_offset = 0x1000, dt_length = 0x4000\<rparr>"
  have id: "dthread_get_mopid (ranks_ex ! 0) ''break'' = 0"
    by (simp add: dthread_get_mopid_def internal_mops_def break_mops_def ranks_ex_def)
  have ops: "mopid2ops rs 0 = Some (break_mops rs)" for rs
    by (simp add: mopid2ops_def internal_mops_def)
  have "\<exists>m. dthread_shm_new_arena (ranks_ex ! 0) 0 0 ''break'' 0x4000 seg_ex = Inr (0, Some ?a, m) \<and>
      brk_mds m (arena_loc ?a) = \<lparr>brk_allocated = 80, hdrlen = 16, nalloc = 0\<rparr> \<and>
      amds m (arena_loc ?a) = \<lparr>mdmagic = DTHREAD_SHM_MD_MAGIC, md_self = ?a, min_uoffset = 0x1050, max_uoffset = 0x5000,
        badalign_bits = 15, mopid = 0\<rparr>"
    unfolding dthread_shm_new_arena_def Let_def id ops
    by (simp add: ranks_ex_def dthread_shmseg_alloc_def seg_ex_def align_pad_def break_mops_def break_init_def mdalign_size_def
        dthread_shmref2ptr_def Let_def)
  then obtain m where m: "dthread_shm_new_arena (ranks_ex ! 0) 0 0 ''break'' 0x4000 seg_ex = Inr (0, Some ?a, m)"
      "brk_mds m (arena_loc ?a) = \<lparr>brk_allocated = 80, hdrlen = 16, nalloc = 0\<rparr>"
      "amds m (arena_loc ?a) = \<lparr>mdmagic = DTHREAD_SHM_MD_MAGIC, md_self = ?a, min_uoffset = 0x1050, max_uoffset = 0x5000,
        badalign_bits = 15, mopid = 0\<rparr>" by blast
  let ?V = "Map.empty(?a \<mapsto> (0, Map.empty)) :: arenaview"
  have s1: "shm_step \<lparr>sys_ranks = ranks_ex, sys_mem = seg_ex, sys_view = Map.empty\<rparr>
      \<lparr>sys_ranks = ranks_ex, sys_mem = m, sys_view = ?V\<rparr>"
    using step_new_arena [OF _ _ id _ m(1), of Map.empty] by (simp add: ranks_ex_def seg_fits_def)
  have "\<exists>p r m'. dthread_shm_malloc (ranks_ex ! 1) (Some ?a) 100 m = Inr (Some (p, r), ranks_ex ! 1, m')"
    unfolding dthread_shm_malloc_def dthread_shm_validate_args_def Let_def
    by (simp add: m(2,3) ops break_mops_def break_malloc_def dthread_shmref2ptr_def ranks_ex_def Let_def align_pad_def)
  then obtain p r m' where al: "dthread_shm_malloc (ranks_ex ! 1) (Some ?a) 100 m = Inr (Some (p, r), ranks_ex ! 1, m')" by blast
  let ?A = "Map.empty(r \<mapsto> get_bytes (bstart r) (unat (100 :: u64)) (shm_bytes m' (dt_shmid r)))"
  have "shm_step \<lparr>sys_ranks = ranks_ex, sys_mem = m, sys_view = ?V\<rparr>
      \<lparr>sys_ranks = ranks_ex[1 := ranks_ex ! 1], sys_mem = m', sys_view = ?V(?a \<mapsto> (0, ?A))\<rparr>"
    using step_malloc [of 1 ranks_ex m "Some ?a" ?a ?V 0 Map.empty 100 "Some (p, r)" "ranks_ex ! 1" m'] al
    by (simp add: ranks_ex_def arena_arg_def drv_fits_def brk_fits_def)
  then have "shm_step\<^sup>*\<^sup>* \<lparr>sys_ranks = ranks_ex, sys_mem = seg_ex, sys_view = Map.empty\<rparr>
      \<lparr>sys_ranks = ranks_ex, sys_mem = m', sys_view = ?V(?a \<mapsto> (0, ?A))\<rparr>"
    using rtranclp.rtrancl_into_rtrancl [OF r_into_rtranclp [of shm_step, OF s1]] by (simp add: list_update_id)
  then show thesis using that [of m' "?V(?a \<mapsto> (0, ?A))" ?a ?A r] by (simp add: bstart_def blen_def)
qed

theorem shm_system_safe_witness:
  "\<exists>m V a k A. shm_step\<^sup>*\<^sup>* \<lparr>sys_ranks = ranks_ex, sys_mem = seg_ex, sys_view = Map.empty\<rparr>
      \<lparr>sys_ranks = ranks_ex, sys_mem = m, sys_view = V\<rparr> \<and> V a = Some (k, A) \<and> dom A \<noteq> {} \<and>
      (\<forall>r \<in> dom A. blen r = 100 \<and> bstart r + blen r \<le> 0x5000)"
proof -
  obtain a r m V A where run: "shm_step\<^sup>*\<^sup>* \<lparr>sys_ranks = ranks_ex, sys_mem = seg_ex, sys_view = Map.empty\<rparr>
      \<lparr>sys_ranks = ranks_ex, sys_mem = m, sys_view = V\<rparr>" "V a = Some (0, A)" "r \<in> dom A" "bstart a + blen a = 0x5000"
      "\<forall>q ys. A q = Some ys \<longrightarrow> length ys = 100"
    by (rule ranks_ex_run)
  have "\<forall>q ys. A q = Some ys \<longrightarrow> blen q = length ys \<and> bstart q + blen q \<le> bstart a + blen a"
    using shm_system_safe [OF shm_init_ex run(1)] run(2) by blast
  then have "\<forall>q \<in> dom A. blen q = 100 \<and> bstart q + blen q \<le> 0x5000" using run(4,5) by auto
  then show ?thesis using run by blast
qed

theorem pointer_or_reference_witness:
  "\<exists>m a r p m'. dthread_shm_free (ranks_ex ! 1) (Some a) (Some p) m = dthread_shm_free_ref (ranks_ex ! 1) (Some a) (Some r) m \<and>
     dthread_shm_free (ranks_ex ! 1) (Some a) (Some p) m = Inr (ranks_ex ! 1, m')"
proof -
  obtain a r m V A where run: "shm_step\<^sup>*\<^sup>* \<lparr>sys_ranks = ranks_ex, sys_mem = seg_ex, sys_view = Map.empty\<rparr>
      \<lparr>sys_ranks = ranks_ex, sys_mem = m, sys_view = V\<rparr>" "V a = Some (0, A)" "r \<in> dom A" "bstart a + blen a = 0x5000"
    by (rule ranks_ex_run)
  have rs: "ranks_ex ! 1 \<in> set ranks_ex" by (simp add: ranks_ex_def)
  have "sys_inv ranks_ex m V" using shm_reach_inv [OF shm_init_ex run(1)] by simp
  from sys_free(3) [OF this rs run(2,3)] obtain p where p: "dthread_shmref2ptr (ranks_ex ! 1) (Some r) 0 = Some p" by blast
  have "drv_fits 0 100" by (simp add: drv_fits_def brk_fits_def)
  from pointer_or_reference [OF shm_init_ex run(1) rs run(2,3) p this] show ?thesis by blast
qed

end
