(* ===== verification/Dt_Establish.thy ===== *)
theory Dt_Establish
  imports Dt_Segops
begin

text \<open>
  The mapping of the shared memory segments on all ranks: \<^verbatim>\<open>establish\<close> and
  \<^verbatim>\<open>dthread_shmseg_establish\<close> of \<^verbatim>\<open>dt_segops.c\<close>.  The second is collective: it is
  modelled as one function of the states of all ranks, with the broadcast and the two reductions
  as the functions of the values of the ranks that MPI computes, and with one table of
  sources: the README requires the arrays passed to \<^verbatim>\<open>dthread_run\<close> to be the same on all ranks.  A failure of one of these calls aborts
  the job and is not modelled.  The answers of the system calls are arguments.
\<close>

subsection \<open>Sources\<close>

record dthread_shmsrc_t =
  dt_src :: string
  dt_srcflags :: u64
  dt_mmoffset :: u64
  dt_mmsize :: u64
  dt_addr :: u64
  dt_reserve_front :: u64
  dt_reserve_back :: u64

abbreviation "DTHREAD_SRC_DEV \<equiv> (1 :: u64)"
abbreviation "DTHREAD_SRC_FILE \<equiv> (2 :: u64)"
abbreviation "DTHREAD_SRC_PSHM \<equiv> (3 :: u64)"
abbreviation "DTHREAD_SRC_ADDR \<equiv> (4 :: u64)"
abbreviation "DTHREAD_SRC_MASK \<equiv> (7 :: u64)"
abbreviation "DTHREAD_SRC_UMAP \<equiv> (8 :: u64)"
abbreviation "MAP_FAILED \<equiv> (-1 :: u64)"

definition src_type :: "dthread_shmsrc_t \<Rightarrow> u64" where
  "src_type src = and (dt_srcflags src) DTHREAD_SRC_MASK"

definition is_umap :: "dthread_shmsrc_t \<Rightarrow> bool" where
  "is_umap src \<longleftrightarrow> and (dt_srcflags src) DTHREAD_SRC_UMAP \<noteq> 0"

definition mmapped :: "dthread_shmsrc_t \<Rightarrow> bool" where
  "mmapped src \<longleftrightarrow> src_type src = DTHREAD_SRC_DEV \<or> src_type src = DTHREAD_SRC_FILE \<or> src_type src = DTHREAD_SRC_PSHM"

text \<open>
  The answers of the system to one attempt: the error of \<^verbatim>\<open>open\<close> (or \<^verbatim>\<open>shm_open\<close>), 0 when there is
  none, the size or the error of \<^verbatim>\<open>fstat\<close>, the error of \<^verbatim>\<open>ftruncate\<close>, the address or the error of
  \<^verbatim>\<open>mmap\<close> for a hint, and the result of \<^verbatim>\<open>dthread_spin_init\<close>.
\<close>

record sys_env =
  se_open :: int
  se_fstat :: "int + u64"
  se_ftruncate :: int
  se_mmap :: "u64 \<Rightarrow> int + u64"
  se_spin :: int

text \<open>
  A rank: the array \<^verbatim>\<open>shmmap\<close>, whether the descriptor \<^verbatim>\<open>fd\<close> is open, and the addresses at which
  it has mappings made by \<^verbatim>\<open>mmap\<close>.
\<close>

record rank_segs =
  r_map :: "dthread_shmmap_t list"
  r_fd :: bool
  r_live :: "u64 multiset"

abbreviation zero_map :: dthread_shmmap_t where
  "zero_map \<equiv> \<lparr>mapping = 0, md_offset = 0, map_size = 0\<rparr>"

subsection \<open>establish\<close>

text \<open>The calls of \<^verbatim>\<open>mmap\<close> in the two cases that open a file.\<close>

definition map_fd :: "u64 \<Rightarrow> sys_env \<Rightarrow> rank_segs \<Rightarrow> (int + u64) \<times> rank_segs" where
  "map_fd hint e r =
     (let newmapping = (case se_mmap e hint of Inl _ \<Rightarrow> MAP_FAILED | Inr a \<Rightarrow> a);
          rv = (case se_mmap e hint of Inl err \<Rightarrow> err | Inr _ \<Rightarrow> 0)
      in if rv \<noteq> 0 then (Inl rv, r\<lparr>r_fd := False\<rparr>) else (Inr newmapping, r\<lparr>r_live := add_mset newmapping (r_live r)\<rparr>))"

text \<open>The switch over the types of sources.\<close>

definition open_map :: "dthread_shmsrc_t \<Rightarrow> u64 \<Rightarrow> bool \<Rightarrow> sys_env \<Rightarrow> rank_segs \<Rightarrow> (int + u64) \<times> rank_segs" where
  "open_map src hint initialize e r =
     (let type = src_type src
      in if type = DTHREAD_SRC_DEV then
           if se_open e \<noteq> 0 then (Inl (se_open e), r) else map_fd hint e (r\<lparr>r_fd := True\<rparr>)
         else if type = DTHREAD_SRC_FILE \<or> type = DTHREAD_SRC_PSHM then
           if se_open e \<noteq> 0 then (Inl (se_open e), r)
           else case se_fstat e of
                  Inl err \<Rightarrow> (Inl err, r)
                | Inr st_size \<Rightarrow>
                    let expectedsize = dt_mmoffset src + dt_mmsize src
                    in if initialize \<and> st_size \<noteq> expectedsize then
                         if se_ftruncate e \<noteq> 0 then (Inl (se_ftruncate e), r) else map_fd hint e (r\<lparr>r_fd := True\<rparr>)
                       else if st_size \<noteq> expectedsize then (Inl EIO, r)
                       else map_fd hint e (r\<lparr>r_fd := True\<rparr>)
         else if type = DTHREAD_SRC_ADDR then
           if is_umap src then (Inl EINVAL, r) else (Inr (dt_addr src), r)
         else (Inl EINVAL, r))"

text \<open>The offset of the metadata: after the front reserve, on a page boundary.\<close>

definition md_place :: "int \<Rightarrow> u64 \<Rightarrow> u64 \<Rightarrow> u64" where
  "md_place pg newmapping front =
     (let mdptr = newmapping + front;
          pad = mdptr mod word_of_int pg;
          mdptr = (if pad \<noteq> 0 then mdptr + (word_of_int pg - pad) else mdptr)
      in mdptr - newmapping)"

definition unmap_failed :: "u64 \<Rightarrow> rank_segs \<Rightarrow> rank_segs" where
  "unmap_failed newmapping r = (if r_fd r then r\<lparr>r_live := r_live r - {#newmapping#}, r_fd := False\<rparr> else r)"

definition new_md :: "int \<Rightarrow> dthread_shmsrc_t \<Rightarrow> nat \<Rightarrow> u64 \<Rightarrow> dthread_shmseg_md_t" where
  "new_md pg src idx newmdoffset =
     \<lparr>seg_md_magic = DTHREAD_SEG_MD_MAGIC, seg_self = \<lparr>dt_shmid = of_nat idx, dt_offset = 0, dt_length = dt_mmsize src\<rparr>,
      seg_srcflags = dt_srcflags src, umapaddr = 0, first_avail = newmdoffset + word_of_int pg,
      end_avail = dt_mmsize src - dt_reserve_back src\<rparr>"

definition establish ::
    "int \<Rightarrow> dthread_shmsrc_t \<Rightarrow> nat \<Rightarrow> u64 \<Rightarrow> bool \<Rightarrow> sys_env \<Rightarrow> rank_segs \<Rightarrow> shmem \<Rightarrow> int \<times> rank_segs \<times> shmem" where
  "establish pg src idx hint initialize e r m =
     (let r = r\<lparr>r_fd := False\<rparr>; totalreserve = dt_reserve_front src + dt_reserve_back src
      in if totalreserve \<ge> dt_mmsize src then (EINVAL, r, m)
         else if dt_mmsize src - totalreserve < word_of_int (2 * pg) then (EINVAL, r, m)
         else case open_map src hint initialize e r of
                (Inl rv, r) \<Rightarrow> (rv, r, m)
              | (Inr newmapping, r) \<Rightarrow>
                  let newmdoffset = md_place pg newmapping (dt_reserve_front src);
                      loc = (of_nat idx, newmdoffset);
                      installed = r\<lparr>r_map := (r_map r)[idx := \<lparr>mapping = newmapping, md_offset = newmdoffset, map_size = dt_mmsize src\<rparr>]\<rparr>
                  in if initialize then
                       let md = new_md pg src idx newmdoffset; m = m\<lparr>seg_mds := (seg_mds m)(loc := md)\<rparr>
                       in if first_avail md \<ge> end_avail md then (EINVAL, unmap_failed newmapping r, m)
                          else if se_spin e \<noteq> 0 then (se_spin e, unmap_failed newmapping r, m)
                          else (0, installed, m)
                     else
                       let md = seg_mds m loc
                       in if seg_md_magic md \<noteq> DTHREAD_SEG_MD_MAGIC then (EINVAL, unmap_failed newmapping r, m)
                          else if dt_shmid (seg_self md) \<noteq> of_nat idx \<or> dt_offset (seg_self md) \<noteq> 0 \<or>
                                  dt_length (seg_self md) \<noteq> dt_mmsize src
                          then (EINVAL, unmap_failed newmapping r, m)
                          else (0, installed, m))"

subsection \<open>dthread_shmseg_establish\<close>

text \<open>A rank at the label \<^verbatim>\<open>retry\<close>: the values of \<^verbatim>\<open>rv\<close> and \<^verbatim>\<open>mapping\<close>.\<close>

definition try_map :: "int \<Rightarrow> dthread_shmsrc_t \<Rightarrow> nat \<Rightarrow> u64 \<Rightarrow> sys_env \<Rightarrow> shmem \<Rightarrow> rank_segs \<Rightarrow> int \<times> u64 \<times> rank_segs" where
  "try_map pg src lcv hint e m r =
     (if mapping (r_map r ! lcv) \<noteq> 0 then (0, mapping (r_map r ! lcv), r)
      else if \<not> r_fd r then
        let (rv, r, _) = establish pg src lcv hint False e r m
        in (rv, if rv \<noteq> 0 then MAP_FAILED else mapping (r_map r ! lcv), r)
      else case se_mmap e hint of
             Inl err \<Rightarrow> (err, MAP_FAILED, r)
           | Inr a \<Rightarrow> (0, a, r\<lparr>r_map := (r_map r)[lcv := (r_map r ! lcv)\<lparr>mapping := a\<rparr>], r_live := add_mset a (r_live r)\<rparr>))"

text \<open>Dropping a mapping that is not at the hint of the next attempt.\<close>

definition drop_map :: "nat \<Rightarrow> u64 \<Rightarrow> u64 \<times> rank_segs \<Rightarrow> rank_segs" where
  "drop_map lcv hint p =
     (case p of (a, r) \<Rightarrow>
        if a \<noteq> hint then r\<lparr>r_map := (r_map r)[lcv := (r_map r ! lcv)\<lparr>mapping := 0\<rparr>], r_live := r_live r - {#a#}\<rparr> else r)"

text \<open>
  The attempts for one segment: \<open>es k i\<close> are the answers to rank \<open>i\<close> in attempt \<open>k\<close>.  The
  reductions are the minimum and the maximum of the addresses and the maximum of the
  errors.
\<close>

fun seg_attempts ::
    "int \<Rightarrow> dthread_shmsrc_t \<Rightarrow> nat \<Rightarrow> (nat \<Rightarrow> nat \<Rightarrow> sys_env) \<Rightarrow> shmem \<Rightarrow> nat \<Rightarrow> nat \<Rightarrow> u64 \<Rightarrow> rank_segs list \<Rightarrow>
     int \<times> rank_segs list" where
  "seg_attempts pg src lcv es m k retries hint ranks =
     (let tries = map (\<lambda>(i, r). try_map pg src lcv hint (es k i) m r) (enumerate 0 ranks);
          maps = map (fst \<circ> snd) tries; ranks = map (snd \<circ> snd) tries;
          min = Min (set maps); max = Max (set maps); rv = Max (set (map fst tries))
      in if min = MAP_FAILED \<or> max = MAP_FAILED \<or> rv \<noteq> 0 then (if rv = 0 then EIO else rv, ranks)
         else if is_umap src \<and> min \<noteq> max then
           case retries of
             0 \<Rightarrow> (EAGAIN, ranks)
           | Suc retries \<Rightarrow> seg_attempts pg src lcv es m (k + 1) retries max (map (drop_map lcv max) (zip maps ranks))
         else (0, ranks))"

definition save_umapaddr :: "nat \<Rightarrow> rank_segs \<Rightarrow> shmem \<Rightarrow> shmem" where
  "save_umapaddr lcv r0 m =
     (let loc = (of_nat lcv, md_offset (r_map r0 ! lcv))
      in m\<lparr>seg_mds := (seg_mds m)(loc := (seg_mds m loc)\<lparr>umapaddr := mapping (r_map r0 ! lcv)\<rparr>)\<rparr>)"

text \<open>One turn of the loop over the segments; attempt 0 is that of rank 0 alone.\<close>

definition establish_seg ::
    "int \<Rightarrow> dthread_shmsrc_t \<Rightarrow> nat \<Rightarrow> (nat \<Rightarrow> nat \<Rightarrow> sys_env) \<Rightarrow> rank_segs list \<Rightarrow> shmem \<Rightarrow> int \<times> rank_segs list \<times> shmem" where
  "establish_seg pg src lcv es ranks m =
     (let ranks = map (r_fd_update (\<lambda>_. False)) ranks;
          (rv, r0, m) = establish pg src lcv 0 True (es 0 0) (hd ranks) m;
          ranks = r0 # tl ranks
      in if rv \<noteq> 0 then (rv, ranks, m)
         else let hint = (if is_umap src then mapping (r_map r0 ! lcv) else 0);
                  retries = (if is_umap src then 9 else 0);
                  (rv, ranks) = seg_attempts pg src lcv es m 1 retries hint ranks
              in if rv \<noteq> 0 then (rv, ranks, m)
                 else (0, map (r_fd_update (\<lambda>_. False)) ranks, if is_umap src then save_umapaddr lcv (hd ranks) m else m))"

text \<open>The label \<^verbatim>\<open>failed\<close>.\<close>

definition clear_map :: "dthread_shmsrc_t list \<Rightarrow> nat \<Rightarrow> rank_segs \<Rightarrow> rank_segs" where
  "clear_map srcs i r =
     (let r = (if mmapped (srcs ! i) \<and> mapping (r_map r ! i) \<noteq> 0 then r\<lparr>r_live := r_live r - {#mapping (r_map r ! i)#}\<rparr> else r)
      in r\<lparr>r_map := (r_map r)[i := zero_map]\<rparr>)"

definition establish_failed :: "dthread_shmsrc_t list \<Rightarrow> nat \<Rightarrow> rank_segs \<Rightarrow> rank_segs" where
  "establish_failed srcs lcv r = fold (clear_map srcs) [0..<lcv + 1] (r\<lparr>r_fd := False\<rparr>)"

function establish_from ::
    "int \<Rightarrow> dthread_shmsrc_t list \<Rightarrow> (nat \<Rightarrow> nat \<Rightarrow> nat \<Rightarrow> sys_env) \<Rightarrow> nat \<Rightarrow> rank_segs list \<Rightarrow> shmem \<Rightarrow>
     int \<times> rank_segs list \<times> shmem" where
  "establish_from pg srcs env lcv ranks m =
     (if lcv \<ge> length srcs then (0, ranks, m)
      else let (rv, ranks, m) = establish_seg pg (srcs ! lcv) lcv (env lcv) ranks m
           in if rv \<noteq> 0 then (rv, map (establish_failed srcs lcv) ranks, m)
              else establish_from pg srcs env (lcv + 1) ranks m)"
  by pat_completeness auto
termination by (relation "measure (\<lambda>(_, srcs, _, lcv, _). length srcs - lcv)") auto

declare seg_attempts.simps [simp del] establish_from.simps [simp del]

definition dthread_shmseg_establish ::
    "int \<Rightarrow> dthread_shmsrc_t list \<Rightarrow> (nat \<Rightarrow> nat \<Rightarrow> nat \<Rightarrow> sys_env) \<Rightarrow> rank_segs list \<Rightarrow> shmem \<Rightarrow> int \<times> rank_segs list \<times> shmem" where
  "dthread_shmseg_establish pg srcs env ranks m = establish_from pg srcs env 0 ranks m"

subsection \<open>Where the metadata is\<close>

text \<open>A page size: a power of two that is small against the address space.\<close>

definition pgsz_ok :: "int \<Rightarrow> bool" where
  "pgsz_ok pg \<longleftrightarrow> 0 < pg \<and> pg dvd 2 ^ 62"

lemma pgsz_okD:
  assumes "pgsz_ok pg"
  shows "unat (word_of_int pg :: u64) = nat pg" "unat (word_of_int (2 * pg) :: u64) = 2 * nat pg" "0 < nat pg" "nat pg dvd 2 ^ 64"
proof -
  have b: "0 < pg" "pg \<le> 2 ^ 62" using assms zdvd_imp_le [of pg "2 ^ 62"] by (simp_all add: pgsz_ok_def)
  have u: "uint (word_of_int k :: u64) = k" if "0 \<le> k" "k < 2 ^ 64" for k
    using that by (simp add: uint_word_of_int_eq take_bit_int_eq_self)
  have "uint (word_of_int pg :: u64) = pg" "uint (word_of_int (2 * pg) :: u64) = 2 * pg" by (rule u; use b in simp)+
  then show "unat (word_of_int pg :: u64) = nat pg" "unat (word_of_int (2 * pg) :: u64) = 2 * nat pg" "0 < nat pg"
    using b(1) by (simp_all only: unat_eq_nat_uint nat_mult_distrib) simp_all
  have "pg dvd 2 ^ 62 * 2 ^ 2" using assms by (intro dvd_mult2) (simp only: pgsz_ok_def)
  then have "pg dvd 2 ^ 64" by (simp only: flip: power_add) simp
  then have "int (nat pg) dvd int (2 ^ 64)" using b(1) by (simp only: of_nat_power of_nat_numeral) simp
  then show "nat pg dvd 2 ^ 64" by (simp only: int_dvd_int_iff)
qed

definition page_pad :: "int \<Rightarrow> u64 \<Rightarrow> nat" where
  "page_pad pg a = (if unat a mod nat pg = 0 then 0 else nat pg - unat a mod nat pg)"

lemma add_pad_dvd: "0 < d \<Longrightarrow> d dvd x + d - x mod d" for x d :: nat
proof -
  assume "0 < d"
  then have "x + d - x mod d = d * (x div d) + d" using mult_div_mod_eq [of d x] mod_less_divisor [of d x] by linarith
  then show ?thesis by (simp only: dvd_add dvd_triv_left dvd_refl)
qed

lemma md_place_pad:
  assumes "pgsz_ok pg"
  shows "md_place pg a f = f + of_nat (page_pad pg (a + f))" "page_pad pg (a + f) < nat pg"
proof -
  note pg = pgsz_okD [OF assms]
  let ?w = "word_of_int pg :: u64"
  have m: "unat ((a + f) mod ?w) = unat (a + f) mod nat pg" by (simp add: unat_mod pg)
  have le: "(a + f) mod ?w \<le> ?w" using m pg(1,3) by (simp add: word_le_nat_alt less_imp_le)
  have "(if (a + f) mod ?w \<noteq> 0 then ?w - (a + f) mod ?w else 0) = of_nat (page_pad pg (a + f))"
  proof (cases "(a + f) mod ?w = 0")
    case True
    then show ?thesis using m by (simp add: page_pad_def)
  next
    case False
    then have "unat (a + f) mod nat pg \<noteq> 0" using m unat_eq_zero [of "(a + f) mod ?w"] by simp
    moreover have "unat (?w - (a + f) mod ?w) = nat pg - unat (a + f) mod nat pg" using le m pg(1) by (simp add: unat_sub)
    ultimately have "unat (?w - (a + f) mod ?w) = page_pad pg (a + f)" by (simp add: page_pad_def)
    then have "?w - (a + f) mod ?w = of_nat (page_pad pg (a + f))" by (metis of_nat_unat ucast_id)
    then show ?thesis using False by simp
  qed
  moreover have "md_place pg a f = f + (if (a + f) mod ?w \<noteq> 0 then ?w - (a + f) mod ?w else 0)" by (simp add: md_place_def Let_def)
  ultimately show "md_place pg a f = f + of_nat (page_pad pg (a + f))" by (simp only:)
  show "page_pad pg (a + f) < nat pg" using pg(3) by (simp add: page_pad_def)
qed

text \<open>The place does not depend on the address of a mapping, which is that of a page.\<close>

lemma md_place_aligned:
  assumes "pgsz_ok pg" "unat a mod nat pg = 0"
  shows "md_place pg a f = md_place pg 0 f"
proof -
  have "unat (a + f) mod nat pg = (unat a + unat f) mod nat pg"
    using pgsz_okD(4) [OF assms(1)] by (simp add: unat_word_ariths mod_mod_cancel)
  also have "\<dots> = unat f mod nat pg" using assms(2) by (metis add.left_neutral mod_add_left_eq)
  finally show ?thesis by (simp add: md_place_pad(1) [OF assms(1)] page_pad_def)
qed

definition src_space :: "int \<Rightarrow> dthread_shmsrc_t \<Rightarrow> bool" where
  "src_space pg src \<longleftrightarrow> dt_reserve_front src + dt_reserve_back src < dt_mmsize src \<and>
     word_of_int (2 * pg) \<le> dt_mmsize src - (dt_reserve_front src + dt_reserve_back src)"

lemma md_bounds:
  assumes pg: "pgsz_ok pg" and sp: "src_space pg src" and nw: "unat (dt_reserve_front src) + unat (dt_reserve_back src) < 2 ^ 64"
    and off: "off = md_place pg a (dt_reserve_front src)"
  shows "unat (dt_reserve_front src) \<le> unat off" "unat off < unat (dt_reserve_front src) + nat pg"
    "unat (first_avail (new_md pg src idx off)) = unat off + nat pg"
    "unat (end_avail (new_md pg src idx off)) + unat (dt_reserve_back src) = unat (dt_mmsize src)"
    "unat (first_avail (new_md pg src idx off)) < unat (end_avail (new_md pg src idx off))"
    "a = 0 \<Longrightarrow> nat pg dvd unat off"
proof -
  let ?f = "unat (dt_reserve_front src)" and ?b = "unat (dt_reserve_back src)" and ?n = "unat (dt_mmsize src)"
  note p = pgsz_okD [OF pg]
  have t: "unat (dt_reserve_front src + dt_reserve_back src) = ?f + ?b" using nw by (simp add: unat_word_ariths)
  have lt: "?f + ?b < ?n" using sp t by (simp add: src_space_def word_less_nat_alt)
  have "unat (dt_mmsize src - (dt_reserve_front src + dt_reserve_back src)) = ?n - (?f + ?b)"
    using sp t by (simp add: src_space_def unat_sub order.strict_implies_order)
  then have "2 * nat pg \<le> ?n - (?f + ?b)" using sp p(2) by (simp add: src_space_def word_le_nat_alt)
  then have room: "?f + 2 * nat pg \<le> ?n - ?b" using lt by linarith
  have n: "?n < 18446744073709551616" by (rule unat64_less)
  note pp = md_place_pad [OF pg, of a "dt_reserve_front src"]
  have "?f + page_pad pg (a + dt_reserve_front src) < 18446744073709551616" using pp(2) room n by linarith
  then have o: "unat off = ?f + page_pad pg (a + dt_reserve_front src)" "page_pad pg (a + dt_reserve_front src) < nat pg"
    using pp by (simp_all add: off unat_word_ariths unat_of_nat)
  have "unat off + nat pg < 18446744073709551616" using o room n by linarith
  then have fa: "unat (first_avail (new_md pg src idx off)) = unat off + nat pg" by (simp add: new_md_def unat_word_ariths p(1))
  have ea: "unat (end_avail (new_md pg src idx off)) = ?n - ?b" using lt by (simp add: new_md_def unat_sub word_le_nat_alt)
  show "unat (dt_reserve_front src) \<le> unat off" "unat off < ?f + nat pg" "unat (first_avail (new_md pg src idx off)) = unat off + nat pg"
    "unat (end_avail (new_md pg src idx off)) + ?b = ?n"
    "unat (first_avail (new_md pg src idx off)) < unat (end_avail (new_md pg src idx off))"
    using o fa ea lt room by linarith+
  have "(?f + page_pad pg (dt_reserve_front src)) mod nat pg = 0" using p(3) by (auto simp: page_pad_def mod_eq_0_iff_dvd add_pad_dvd)
  then show "nat pg dvd unat off" if "a = 0" using o(1) that by (simp add: mod_eq_0_iff_dvd)
qed

subsection \<open>One rank\<close>

text \<open>
  What is documented of the system calls: error numbers are positive, and \<^verbatim>\<open>mmap\<close> returns the
  address of a page that is neither NULL nor \<^verbatim>\<open>MAP_FAILED\<close>.
\<close>

definition sys_ok :: "int \<Rightarrow> sys_env \<Rightarrow> bool" where
  "sys_ok pg e \<longleftrightarrow> 0 \<le> se_open e \<and> (\<forall>err. se_fstat e = Inl err \<longrightarrow> 0 < err) \<and> 0 \<le> se_ftruncate e \<and> 0 \<le> se_spin e \<and>
     (\<forall>h err. se_mmap e h = Inl err \<longrightarrow> 0 < err) \<and>
     (\<forall>h a. se_mmap e h = Inr a \<longrightarrow> a \<noteq> 0 \<and> a \<noteq> MAP_FAILED \<and> unat a mod nat pg = 0)"

definition src_ok :: "dthread_shmsrc_t \<Rightarrow> bool" where
  "src_ok src \<longleftrightarrow> (src_type src = DTHREAD_SRC_ADDR \<longrightarrow> dt_addr src \<noteq> 0 \<and> dt_addr src \<noteq> MAP_FAILED)"

text \<open>The offset of the metadata of a source, on all ranks.\<close>

definition src_place :: "int \<Rightarrow> dthread_shmsrc_t \<Rightarrow> u64" where
  "src_place pg src = md_place pg (if mmapped src then 0 else dt_addr src) (dt_reserve_front src)"

definition seg_fine :: "int \<Rightarrow> dthread_shmsrc_t \<Rightarrow> dthread_shmmap_t \<Rightarrow> bool" where
  "seg_fine pg src sm \<longleftrightarrow> mapping sm \<noteq> 0 \<and> mapping sm \<noteq> MAP_FAILED \<and> map_size sm = dt_mmsize src \<and> md_offset sm = src_place pg src"

definition slot_live :: "dthread_shmsrc_t list \<Rightarrow> dthread_shmmap_t list \<Rightarrow> nat \<Rightarrow> u64 multiset" where
  "slot_live srcs maps i = (if mmapped (srcs ! i) \<and> mapping (maps ! i) \<noteq> 0 then {#mapping (maps ! i)#} else {#})"

text \<open>The mappings of a rank are those in its table.\<close>

definition live_ok :: "dthread_shmsrc_t list \<Rightarrow> rank_segs \<Rightarrow> bool" where
  "live_ok srcs r \<longleftrightarrow> length (r_map r) = length srcs \<and> r_live r = (\<Sum>i<length srcs. slot_live srcs (r_map r) i)"

lemma live_ok_upd:
  assumes "live_ok srcs r" "i < length srcs" "L + slot_live srcs (r_map r) i = r_live r + slot_live srcs ((r_map r)[i := sm]) i"
  shows "live_ok srcs (r\<lparr>r_map := (r_map r)[i := sm], r_live := L\<rparr>)"
proof -
  let ?n = "{..<length srcs}" and ?m = "(r_map r)[i := sm]"
  have "(\<Sum>j\<in>?n. slot_live srcs x j) = slot_live srcs x i + (\<Sum>j\<in>?n - {i}. slot_live srcs x j)" for x
    using assms(2) by (intro sum.remove) auto
  moreover have "(\<Sum>j\<in>?n - {i}. slot_live srcs ?m j) = (\<Sum>j\<in>?n - {i}. slot_live srcs (r_map r) j)"
    by (intro sum.cong) (auto simp: slot_live_def nth_list_update)
  ultimately have "r_live r + slot_live srcs ?m i = (\<Sum>j\<in>?n. slot_live srcs ?m j) + slot_live srcs (r_map r) i"
    using assms(1) by (simp add: live_ok_def ac_simps)
  then show ?thesis using assms(1,3) by (simp add: live_ok_def)
qed

lemma live_ok_fd [simp]: "live_ok srcs (r\<lparr>r_fd := b\<rparr>) = live_ok srcs r"
  by (simp add: live_ok_def)

lemma map_fd_cases:
  assumes "pgsz_ok pg" "sys_ok pg e" "map_fd hint e (r\<lparr>r_fd := True\<rparr>) = (res, r')"
  shows "case res of Inl rv \<Rightarrow> 0 < rv \<and> r' = r\<lparr>r_fd := False\<rparr>
    | Inr a \<Rightarrow> a \<noteq> 0 \<and> a \<noteq> MAP_FAILED \<and> (\<forall>f. md_place pg a f = md_place pg 0 f) \<and> r' = r\<lparr>r_fd := True, r_live := add_mset a (r_live r)\<rparr>"
proof (cases "se_mmap e hint")
  case (Inl err)
  then have err: "0 < err" using assms(2) by (auto simp: sys_ok_def)
  then have "Inl err = res \<and> r\<lparr>r_fd := False\<rparr> = r'" using Inl assms(3) by (simp add: map_fd_def)
  then show ?thesis using err by auto
next
  case (Inr a)
  then have a: "a \<noteq> 0" "a \<noteq> MAP_FAILED" "unat a mod nat pg = 0" using assms(2) by (auto simp: sys_ok_def)
  have "Inr a = res \<and> r\<lparr>r_fd := True, r_live := add_mset a (r_live r)\<rparr> = r'" using Inr assms(3) by (simp add: map_fd_def)
  then show ?thesis using a md_place_aligned [OF assms(1) a(3)] by auto
qed

lemma open_map_cases:
  assumes pg: "pgsz_ok pg" and e: "sys_ok pg e" and src: "src_ok src" and fd: "\<not> r_fd r" and o: "open_map src hint i e r = (res, r')"
  shows "case res of Inl rv \<Rightarrow> 0 < rv \<and> r' = r
    | Inr a \<Rightarrow> a \<noteq> 0 \<and> a \<noteq> MAP_FAILED \<and> md_place pg a (dt_reserve_front src) = src_place pg src \<and> (is_umap src \<longrightarrow> mmapped src) \<and>
        r' = (if mmapped src then r\<lparr>r_fd := True, r_live := add_mset a (r_live r)\<rparr> else r)"
proof -
  have f: "r\<lparr>r_fd := False\<rparr> = r" using fd by (cases r) simp
  show ?thesis
  proof (cases "map_fd hint e (r\<lparr>r_fd := True\<rparr>) = (res, r') \<and> mmapped src")
    case True
    then show ?thesis using map_fd_cases [OF pg e, of hint r res r'] f by (auto simp: src_place_def split: sum.splits)
  next
    case False
    have n: "mmapped src \<Longrightarrow> src_type src \<noteq> DTHREAD_SRC_ADDR" by (auto simp: mmapped_def)
    from False o e show ?thesis using src n
      by (auto simp: open_map_def Let_def sys_ok_def src_ok_def mmapped_def src_place_def split: if_splits sum.splits)
  qed
qed

lemma establish_rank:
  assumes pg: "pgsz_ok pg" and e: "sys_ok pg e" and src: "src_ok (srcs ! idx)" "idx < length srcs" and r: "live_ok srcs r" "mapping (r_map r ! idx) = 0"
    and es: "establish pg (srcs ! idx) idx hint i e r m = (rv, r', m')"
  shows "live_ok srcs r' \<and> 0 \<le> rv \<and> (\<forall>j. j \<noteq> idx \<longrightarrow> r_map r' ! j = r_map r ! j) \<and> (i \<or> m' = m) \<and>
    (if rv = 0 then seg_fine pg (srcs ! idx) (r_map r' ! idx) \<and> (is_umap (srcs ! idx) \<longrightarrow> mmapped (srcs ! idx)) else r_map r' = r_map r \<and> \<not> r_fd r')"
proof -
  let ?r = "r\<lparr>r_fd := False\<rparr>" and ?src = "srcs ! idx"
  obtain res r1 where o: "open_map ?src hint i e ?r = (res, r1)" by fastforce
  note oc = open_map_cases [OF pg e src(1) _ o]
  show ?thesis
  proof (cases "src_space pg ?src")
    case False
    then have "establish pg ?src idx hint i e r m = (EINVAL, ?r, m)"
      by (cases "dt_mmsize ?src \<le> dt_reserve_front ?src + dt_reserve_back ?src") (simp_all add: establish_def src_space_def Let_def not_le)
    then show ?thesis using es r by auto
  next
    case sp: True
    then have sz: "\<not> dt_mmsize ?src \<le> dt_reserve_front ?src + dt_reserve_back ?src"
      "\<not> dt_mmsize ?src - (dt_reserve_front ?src + dt_reserve_back ?src) < word_of_int (2 * pg)" by (simp_all add: src_space_def not_le not_less)
    show ?thesis
    proof (cases res)
      case (Inl rv1)
      then show ?thesis using es o oc sz r by (auto simp: establish_def Let_def)
    next
      case (Inr a)
      then have a: "a \<noteq> 0" "a \<noteq> MAP_FAILED" "md_place pg a (dt_reserve_front ?src) = src_place pg ?src" "is_umap ?src \<longrightarrow> mmapped ?src"
        and r1: "r1 = (if mmapped ?src then ?r\<lparr>r_fd := True, r_live := add_mset a (r_live r)\<rparr> else ?r)" using oc by simp_all
      let ?sm = "\<lparr>mapping = a, md_offset = src_place pg ?src, map_size = dt_mmsize ?src\<rparr>"
      have un: "unmap_failed a r1 = ?r" using r1 by (auto simp: unmap_failed_def)
      have len: "idx < length (r_map r)" using r(1) src(2) by (simp add: live_ok_def)
      have "live_ok srcs (r\<lparr>r_map := (r_map r)[idx := ?sm], r_live := r_live r1\<rparr>)"
        by (rule live_ok_upd [OF r(1) src(2)]) (use r(2) a(1) len in \<open>auto simp: slot_live_def r1\<close>)
      then have lv: "live_ok srcs (r1\<lparr>r_map := (r_map r1)[idx := ?sm]\<rparr>)" by (simp add: live_ok_def r1)
      have out: "(rv, r') = (0, r1\<lparr>r_map := (r_map r1)[idx := ?sm]\<rparr>) \<and> (i \<or> m' = m) \<or> 0 < rv \<and> r' = ?r \<and> (i \<or> m' = m)"
        using es sz o Inr a(3) un e by (auto simp: establish_def Let_def sys_ok_def split: if_splits)
      have fine: "seg_fine pg ?src ?sm" using a by (simp add: seg_fine_def)
      have m1: "r_map r1 = r_map r" by (simp add: r1)
      show ?thesis using out lv fine r m1 len a(4) by auto
    qed
  qed
qed

subsection \<open>The attempts on all ranks\<close>

text \<open>A rank before an attempt; a rank without mapping whose file is open has had one.\<close>

definition seg_ready :: "int \<Rightarrow> dthread_shmsrc_t list \<Rightarrow> nat \<Rightarrow> rank_segs \<Rightarrow> bool" where
  "seg_ready pg srcs lcv r \<longleftrightarrow> live_ok srcs r \<and>
     (if mapping (r_map r ! lcv) = 0 then r_fd r \<longrightarrow> mmapped (srcs ! lcv) \<and> map_size (r_map r ! lcv) = dt_mmsize (srcs ! lcv) \<and>
        md_offset (r_map r ! lcv) = src_place pg (srcs ! lcv)
      else seg_fine pg (srcs ! lcv) (r_map r ! lcv))"

definition moved_only :: "dthread_shmsrc_t list \<Rightarrow> nat \<Rightarrow> rank_segs \<Rightarrow> rank_segs \<Rightarrow> bool" where
  "moved_only srcs lcv r r' \<longleftrightarrow> live_ok srcs r' \<and> (\<forall>j. j \<noteq> lcv \<longrightarrow> r_map r' ! j = r_map r ! j)"

lemma moved_only_trans: "moved_only srcs lcv r r1 \<Longrightarrow> moved_only srcs lcv r1 r2 \<Longrightarrow> moved_only srcs lcv r r2"
  by (simp add: moved_only_def)

lemma moved_all_trans:
  assumes "list_all2 (moved_only srcs lcv) as bs" "list_all2 (moved_only srcs lcv) bs cs"
  shows "list_all2 (moved_only srcs lcv) as cs"
proof (rule list_all2_all_nthI)
  show len: "length as = length cs" using assms by (metis list_all2_lengthD)
  fix i
  assume "i < length as"
  then have "moved_only srcs lcv (as ! i) (bs ! i)" "moved_only srcs lcv (bs ! i) (cs ! i)"
    using assms by (auto simp: list_all2_conv_all_nth)
  then show "moved_only srcs lcv (as ! i) (cs ! i)" by (rule moved_only_trans)
qed

lemma try_map_rank:
  assumes pg: "pgsz_ok pg" and e: "sys_ok pg e" and src: "src_ok (srcs ! lcv)" "lcv < length srcs" and r: "seg_ready pg srcs lcv r"
    and t: "try_map pg (srcs ! lcv) lcv hint e m r = (rv, a, r')"
  shows "moved_only srcs lcv r r' \<and> 0 \<le> rv \<and> (rv = 0 \<longrightarrow> seg_fine pg (srcs ! lcv) (r_map r' ! lcv) \<and> mapping (r_map r' ! lcv) = a)"
proof -
  have lv: "live_ok srcs r" using r by (simp add: seg_ready_def)
  consider "mapping (r_map r ! lcv) \<noteq> 0" | "mapping (r_map r ! lcv) = 0" "\<not> r_fd r" | "mapping (r_map r ! lcv) = 0" "r_fd r" by blast
  then show ?thesis
  proof cases
    case 1
    then show ?thesis using t r lv by (auto simp: try_map_def seg_ready_def moved_only_def)
  next
    case 2
    obtain rv1 r1 m1 where "establish pg (srcs ! lcv) lcv hint False e r m = (rv1, r1, m1)" by (metis prod_cases3)
    with establish_rank [OF pg e src lv 2(1) this] show ?thesis using t 2 by (auto simp: try_map_def moved_only_def split: if_splits)
  next
    case 3
    show ?thesis
    proof (cases "se_mmap e hint")
      case (Inl err)
      then have "0 < err" using e by (auto simp: sys_ok_def)
      then show ?thesis using t 3 Inl lv by (auto simp: try_map_def moved_only_def)
    next
      case (Inr b)
      then have b: "b \<noteq> 0" "b \<noteq> MAP_FAILED" using e by (auto simp: sys_ok_def)
      have mm: "mmapped (srcs ! lcv)" and len: "lcv < length (r_map r)" using r 3 src(2) lv by (auto simp: seg_ready_def live_ok_def)
      have "live_ok srcs (r\<lparr>r_map := (r_map r)[lcv := (r_map r ! lcv)\<lparr>mapping := b\<rparr>], r_live := add_mset b (r_live r)\<rparr>)"
        by (rule live_ok_upd [OF lv src(2)]) (use 3 b mm len in \<open>simp add: slot_live_def\<close>)
      then show ?thesis using t 3 Inr b r len by (auto simp: try_map_def moved_only_def seg_fine_def seg_ready_def)
    qed
  qed
qed

lemma slot_live_sub:
  "live_ok srcs r \<Longrightarrow> i < length srcs \<Longrightarrow> slot_live srcs (r_map r) i \<subseteq># r_live r"
  by (auto simp: live_ok_def sum.remove [of "{..<length srcs}" i])

lemma drop_map_rank:
  assumes "lcv < length srcs" "mmapped (srcs ! lcv)" "live_ok srcs r" "seg_fine pg (srcs ! lcv) (r_map r ! lcv)" "a = mapping (r_map r ! lcv)"
  shows "moved_only srcs lcv r (drop_map lcv hint (a, r)) \<and> seg_ready pg srcs lcv (drop_map lcv hint (a, r))"
proof (cases "a = hint")
  case True
  then show ?thesis using assms by (simp add: drop_map_def moved_only_def seg_ready_def seg_fine_def)
next
  case False
  have len: "lcv < length (r_map r)" using assms(1,3) by (simp add: live_ok_def)
  have "slot_live srcs (r_map r) lcv \<subseteq># r_live r" by (rule slot_live_sub [OF assms(3,1)])
  then have "live_ok srcs (r\<lparr>r_map := (r_map r)[lcv := (r_map r ! lcv)\<lparr>mapping := 0\<rparr>], r_live := r_live r - {#a#}\<rparr>)"
    by (intro live_ok_upd [OF assms(3,1)]) (use assms len in \<open>auto simp: slot_live_def seg_fine_def\<close>)
  then show ?thesis using False assms(2,4) len by (auto simp: drop_map_def moved_only_def seg_ready_def seg_fine_def)
qed

lemma seg_attempts_ranks:
  assumes pg: "pgsz_ok pg" and es: "\<And>k i. sys_ok pg (es k i)" and src: "src_ok (srcs ! lcv)" "lcv < length srcs"
    and um: "is_umap (srcs ! lcv) \<longrightarrow> mmapped (srcs ! lcv)"
  shows "ranks \<noteq> [] \<Longrightarrow> \<forall>r \<in> set ranks. seg_ready pg srcs lcv r \<Longrightarrow>
    seg_attempts pg (srcs ! lcv) lcv es m k retries hint ranks = (rv, ranks') \<Longrightarrow>
    list_all2 (moved_only srcs lcv) ranks ranks' \<and>
    (rv = 0 \<longrightarrow> (\<forall>r \<in> set ranks'. seg_fine pg (srcs ! lcv) (r_map r ! lcv)) \<and>
       (is_umap (srcs ! lcv) \<longrightarrow> (\<exists>a. \<forall>r \<in> set ranks'. mapping (r_map r ! lcv) = a)))"
proof (induction retries arbitrary: k hint ranks rule: nat_less_induct)
  case (1 retries)
  let ?src = "srcs ! lcv"
  define tries where "tries = map (\<lambda>(i, r). try_map pg ?src lcv hint (es k i) m r) (enumerate 0 ranks)"
  define maps where "maps = map (fst \<circ> snd) tries"
  define rs where "rs = map (snd \<circ> snd) tries"
  have len: "length tries = length ranks" "length maps = length ranks" "length rs = length ranks" by (simp_all add: tries_def maps_def rs_def)
  have tr: "moved_only srcs lcv (ranks ! i) (rs ! i) \<and> 0 \<le> fst (tries ! i) \<and>
      (fst (tries ! i) = 0 \<longrightarrow> seg_fine pg ?src (r_map (rs ! i) ! lcv) \<and> mapping (r_map (rs ! i) ! lcv) = maps ! i)" if "i < length ranks" for i
  proof -
    have "tries ! i = try_map pg ?src lcv hint (es k i) m (ranks ! i)" using that by (simp add: tries_def nth_enumerate_eq)
    moreover have "tries ! i = (fst (tries ! i), maps ! i, rs ! i)" using that len by (simp add: maps_def rs_def)
    ultimately have "try_map pg ?src lcv hint (es k i) m (ranks ! i) = (fst (tries ! i), maps ! i, rs ! i)" by (rule trans [OF sym])
    moreover have "seg_ready pg srcs lcv (ranks ! i)" using "1.prems"(2) that by simp
    ultimately show ?thesis using try_map_rank [OF pg es src] by blast
  qed
  have mo: "list_all2 (moved_only srcs lcv) ranks rs" using tr len by (simp add: list_all2_conv_all_nth)
  have eq: "seg_attempts pg ?src lcv es m k retries hint ranks =
      (if Min (set maps) = MAP_FAILED \<or> Max (set maps) = MAP_FAILED \<or> Max (set (map fst tries)) \<noteq> 0
       then (if Max (set (map fst tries)) = 0 then EIO else Max (set (map fst tries)), rs)
       else if is_umap ?src \<and> Min (set maps) \<noteq> Max (set maps) then
         case retries of 0 \<Rightarrow> (EAGAIN, rs)
         | Suc n \<Rightarrow> seg_attempts pg ?src lcv es m (k + 1) n (Max (set maps)) (map (drop_map lcv (Max (set maps))) (zip maps rs))
       else (0, rs))"
    by (subst seg_attempts.simps) (simp only: Let_def tries_def maps_def rs_def)
  show ?case
  proof (cases "Min (set maps) = MAP_FAILED \<or> Max (set maps) = MAP_FAILED \<or> Max (set (map fst tries)) \<noteq> 0")
    case True
    then show ?thesis using "1.prems"(3) mo unfolding eq by (auto split: if_splits)
  next
    case ok: False
    have all: "seg_fine pg ?src (r_map (rs ! i) ! lcv) \<and> mapping (r_map (rs ! i) ! lcv) = maps ! i" if "i < length ranks" for i
    proof -
      have "fst (tries ! i) \<le> Max (set (map fst tries))" using that len by (intro Max_ge) auto
      then have "fst (tries ! i) = 0" using tr [OF that] ok by simp
      then show ?thesis using tr [OF that] by simp
    qed
    show ?thesis
    proof (cases "is_umap ?src \<and> Min (set maps) \<noteq> Max (set maps)")
      case um': True
      show ?thesis
      proof (cases retries)
        case 0
        then show ?thesis using "1.prems"(3) mo ok um' unfolding eq by auto
      next
        case (Suc n)
        let ?d = "map (drop_map lcv (Max (set maps))) (zip maps rs)"
        have d: "moved_only srcs lcv (rs ! i) (?d ! i) \<and> seg_ready pg srcs lcv (?d ! i)" if "i < length ranks" for i
          using drop_map_rank [OF src(2), of "rs ! i" pg "maps ! i" "Max (set maps)"] all [OF that] tr [OF that] um um' that len
          by (auto simp: moved_only_def)
        have ld: "length ?d = length ranks" by (simp add: len)
        have "seg_attempts pg ?src lcv es m (k + 1) n (Max (set maps)) ?d = (rv, ranks')"
          using "1.prems"(3) ok um' Suc unfolding eq by simp
        moreover have "\<forall>r \<in> set ?d. seg_ready pg srcs lcv r" using d ld by (metis in_set_conv_nth)
        moreover have "?d \<noteq> []" using ld "1.prems"(1) by (metis length_0_conv)
        ultimately have ih: "list_all2 (moved_only srcs lcv) ?d ranks' \<and>
            (rv = 0 \<longrightarrow> (\<forall>r \<in> set ranks'. seg_fine pg ?src (r_map r ! lcv)) \<and>
              (is_umap ?src \<longrightarrow> (\<exists>a. \<forall>r \<in> set ranks'. mapping (r_map r ! lcv) = a)))"
          using "1.IH" Suc by blast
        have "moved_only srcs lcv (ranks ! i) (?d ! i)" if "i < length ranks" for i
          using moved_only_trans [of srcs lcv "ranks ! i" "rs ! i"] d [OF that] tr [OF that] by blast
        then have "list_all2 (moved_only srcs lcv) ranks ?d" using ld by (intro list_all2_all_nthI) simp_all
        then have "list_all2 (moved_only srcs lcv) ranks ranks'" using ih by (blast intro: moved_all_trans)
        then show ?thesis using ih by blast
      qed
    next
      case False
      then have r': "rv = 0" "ranks' = rs" using "1.prems"(3) ok unfolding eq by auto
      have same: "mapping (r_map (rs ! i) ! lcv) = Min (set maps)" if um1: "is_umap ?src" and i: "i < length ranks" for i
      proof -
        have "Min (set maps) \<le> maps ! i" "maps ! i \<le> Max (set maps)" using i len by (auto intro: Min_le Max_ge)
        then show ?thesis using all [OF i] False um1 by simp
      qed
      have "\<forall>r \<in> set rs. seg_fine pg ?src (r_map r ! lcv)" using all len by (simp add: all_set_conv_all_nth)
      moreover have "\<forall>r \<in> set rs. mapping (r_map r ! lcv) = Min (set maps)" if "is_umap ?src"
        using same [OF that] len by (simp add: all_set_conv_all_nth)
      ultimately show ?thesis using r' mo by blast
    qed
  qed
qed

subsection \<open>One segment\<close>

text \<open>The metadata of a segment after its initialization.\<close>

definition md_done :: "int \<Rightarrow> dthread_shmsrc_t \<Rightarrow> nat \<Rightarrow> shmem \<Rightarrow> bool" where
  "md_done pg src i m \<longleftrightarrow> src_space pg src \<and> first_avail (new_md pg src i (src_place pg src)) < end_avail (new_md pg src i (src_place pg src)) \<and>
     (\<exists>u. seg_mds m (of_nat i, src_place pg src) = (new_md pg src i (src_place pg src))\<lparr>umapaddr := u\<rparr>)"

definition other_mds :: "nat \<Rightarrow> shmem \<Rightarrow> shmem \<Rightarrow> bool" where
  "other_mds i m m' \<longleftrightarrow> (\<forall>loc. fst loc \<noteq> of_nat i \<longrightarrow> seg_mds m' loc = seg_mds m loc)"

lemma establish_memory:
  assumes pg: "pgsz_ok pg" and e: "sys_ok pg e" and src: "src_ok src"
    and es: "establish pg src idx hint True e r m = (rv, r', m')"
  shows "other_mds idx m m' \<and> (rv = 0 \<longrightarrow> md_done pg src idx m')"
proof -
  let ?r = "r\<lparr>r_fd := False\<rparr>"
  obtain res r1 where o: "open_map src hint True e ?r = (res, r1)" by fastforce
  note oc = open_map_cases [OF pg e src _ o]
  show ?thesis
  proof (cases "src_space pg src")
    case False
    then show ?thesis using es
      by (cases "dt_mmsize src \<le> dt_reserve_front src + dt_reserve_back src")
        (auto simp: establish_def src_space_def Let_def not_le other_mds_def)
  next
    case sp: True
    then have sz: "\<not> dt_mmsize src \<le> dt_reserve_front src + dt_reserve_back src"
      "\<not> dt_mmsize src - (dt_reserve_front src + dt_reserve_back src) < word_of_int (2 * pg)" by (simp_all add: src_space_def not_le not_less)
    show ?thesis
    proof (cases res)
      case (Inl rv1)
      then show ?thesis using es o oc sz by (auto simp: establish_def Let_def other_mds_def)
    next
      case (Inr a)
      then have p: "md_place pg a (dt_reserve_front src) = src_place pg src" using oc by simp
      let ?md = "new_md pg src idx (src_place pg src)"
      have m': "m' = m\<lparr>seg_mds := (seg_mds m)((of_nat idx, src_place pg src) := ?md)\<rparr>" "rv = 0 \<longrightarrow> first_avail ?md < end_avail ?md"
        using es sz o Inr p by (auto simp: establish_def Let_def split: if_splits)
      have "?md = ?md\<lparr>umapaddr := 0\<rparr>" by (simp add: new_md_def)
      then show ?thesis using m' sp by (auto simp: other_mds_def md_done_def)
    qed
  qed
qed

definition seg_done :: "int \<Rightarrow> dthread_shmsrc_t list \<Rightarrow> nat \<Rightarrow> rank_segs list \<Rightarrow> shmem \<Rightarrow> bool" where
  "seg_done pg srcs i ranks m \<longleftrightarrow> (\<forall>r \<in> set ranks. seg_fine pg (srcs ! i) (r_map r ! i)) \<and>
     (is_umap (srcs ! i) \<longrightarrow> (\<exists>a. \<forall>r \<in> set ranks. mapping (r_map r ! i) = a)) \<and> md_done pg (srcs ! i) i m"

lemma save_umapaddr_md:
  assumes "md_done pg src lcv m" "seg_fine pg src (r_map r0 ! lcv)"
  shows "md_done pg src lcv (save_umapaddr lcv r0 m)" "other_mds lcv m (save_umapaddr lcv r0 m)"
  using assms by (auto simp: md_done_def save_umapaddr_def seg_fine_def other_mds_def Let_def)

lemma other_mds_trans: "other_mds i m m1 \<Longrightarrow> other_mds i m1 m2 \<Longrightarrow> other_mds i m m2"
  by (simp add: other_mds_def)

definition moved_all :: "dthread_shmsrc_t list \<Rightarrow> nat \<Rightarrow> rank_segs list \<Rightarrow> rank_segs list \<Rightarrow> bool" where
  "moved_all srcs lcv ranks ranks' \<longleftrightarrow> ranks' \<noteq> [] \<and> (\<forall>r' \<in> set ranks'. \<exists>r \<in> set ranks. moved_only srcs lcv r r')"

lemma list_all2_moved: "list_all2 (moved_only srcs lcv) ranks ranks' \<Longrightarrow> ranks \<noteq> [] \<Longrightarrow> moved_all srcs lcv ranks ranks'"
  unfolding moved_all_def by (auto simp: list_all2_conv_all_nth in_set_conv_nth Bex_def) (metis nth_mem)+

lemma establish_seg_ranks:
  assumes pg: "pgsz_ok pg" and es: "\<And>k i. sys_ok pg (es k i)" and src: "src_ok (srcs ! lcv)" "lcv < length srcs"
    and ranks: "ranks \<noteq> []" "\<forall>r \<in> set ranks. live_ok srcs r \<and> mapping (r_map r ! lcv) = 0"
    and run: "establish_seg pg (srcs ! lcv) lcv es ranks m = (rv, ranks', m')"
  shows "moved_all srcs lcv ranks ranks' \<and> other_mds lcv m m' \<and> (rv = 0 \<longrightarrow> seg_done pg srcs lcv ranks' m')"
proof -
  let ?src = "srcs ! lcv" and ?close = "r_fd_update (\<lambda>_. False)"
  obtain r rs where rr: "ranks = r # rs" using ranks(1) by (cases ranks) auto
  have lv: "live_ok srcs (?close r)" "mapping (r_map (?close r) ! lcv) = 0" using ranks(2) rr by (simp_all add: live_ok_def)
  obtain rv0 r0 m0 where e0: "establish pg ?src lcv 0 True (es 0 0) (?close r) m = (rv0, r0, m0)" by (metis prod_cases3)
  note r0 = establish_rank [OF pg es src lv e0] and m0 = establish_memory [OF pg es src(1) e0]
  have close: "moved_only srcs lcv x (?close x)" if "live_ok srcs x" for x using that by (simp add: moved_only_def live_ok_def)
  have mo0: "list_all2 (moved_only srcs lcv) ranks (r0 # map ?close rs)"
    using r0 ranks(2) close by (auto simp: rr moved_only_def list_all2_map2 intro!: list_all2_refl list.rel_refl_strong)
  show ?thesis
  proof (cases "rv0 = 0")
    case False
    then have "(rv, ranks', m') = (rv0, r0 # map ?close rs, m0)" using run e0 rr by (simp add: establish_seg_def Let_def)
    then show ?thesis using False m0 list_all2_moved [OF mo0 ranks(1)] by simp
  next
    case True
    obtain rv1 ranks1 where at: "seg_attempts pg ?src lcv es m0 1 (if is_umap ?src then 9 else 0)
        (if is_umap ?src then mapping (r_map r0 ! lcv) else 0) (r0 # map ?close rs) = (rv1, ranks1)" by fastforce
    have rdy: "\<forall>x \<in> set (r0 # map ?close rs). seg_ready pg srcs lcv x"
      using r0 True ranks(2) by (auto simp: seg_ready_def rr seg_fine_def live_ok_def)
    have um: "is_umap ?src \<longrightarrow> mmapped ?src" using r0 True by simp
    note at' = seg_attempts_ranks [OF pg es src um _ rdy at]
    have mo1: "list_all2 (moved_only srcs lcv) ranks ranks1" using moved_all_trans [OF mo0] at' by simp
    show ?thesis
    proof (cases "rv1 = 0")
      case False
      then have "(rv, ranks', m') = (rv1, ranks1, m0)" using run e0 rr True at by (simp add: establish_seg_def Let_def)
      then show ?thesis using False m0 list_all2_moved [OF mo1 ranks(1)] by simp
    next
      case ok: True
      then have out: "rv = 0" "ranks' = map ?close ranks1" "m' = (if is_umap ?src then save_umapaddr lcv (hd ranks1) m0 else m0)"
        using run e0 rr True at by (simp_all add: establish_seg_def Let_def)
      have "ranks1 \<noteq> []" using mo1 ranks(1) by auto
      then have "seg_fine pg ?src (r_map (hd ranks1) ! lcv)" using at' ok by simp
      then have "md_done pg ?src lcv m' \<and> other_mds lcv m m'"
        using m0 True out(3) save_umapaddr_md [of pg ?src lcv m0 "hd ranks1"] other_mds_trans by auto
      moreover have "moved_all srcs lcv ranks ranks'"
        using list_all2_moved [OF mo1 ranks(1)] by (auto simp: out(2) moved_all_def moved_only_def)
      ultimately show ?thesis using at' ok out(2) by (auto simp: seg_done_def)
    qed
  qed
qed

subsection \<open>All segments\<close>

lemma clear_map_live:
  assumes "live_ok srcs r" "i < length srcs"
  shows "live_ok srcs (clear_map srcs i r)"
proof -
  have len: "i < length (r_map r)" using assms by (simp add: live_ok_def)
  have "live_ok srcs (r\<lparr>r_map := (r_map r)[i := zero_map], r_live := r_live r - slot_live srcs (r_map r) i\<rparr>)"
    by (rule live_ok_upd [OF assms]) (use slot_live_sub [OF assms] len in \<open>simp add: slot_live_def\<close>)
  moreover have "clear_map srcs i r = r\<lparr>r_map := (r_map r)[i := zero_map], r_live := r_live r - slot_live srcs (r_map r) i\<rparr>"
    by (cases r) (simp add: clear_map_def slot_live_def)
  ultimately show ?thesis by simp
qed

lemma clear_maps:
  assumes "live_ok srcs r"
  shows "k \<le> length srcs \<Longrightarrow> live_ok srcs (fold (clear_map srcs) [0..<k] r) \<and>
    (\<forall>i < length srcs. r_map (fold (clear_map srcs) [0..<k] r) ! i = (if i < k then zero_map else r_map r ! i)) \<and>
    r_fd (fold (clear_map srcs) [0..<k] r) = r_fd r"
proof (induction k)
  case (Suc k)
  let ?r = "fold (clear_map srcs) [0..<k] r"
  have ih: "live_ok srcs ?r" "\<forall>i < length srcs. r_map ?r ! i = (if i < k then zero_map else r_map r ! i)" "r_fd ?r = r_fd r"
    using Suc by simp_all
  have c: "r_map (clear_map srcs k ?r) = (r_map ?r)[k := zero_map]" "r_fd (clear_map srcs k ?r) = r_fd ?r" by (simp_all add: clear_map_def Let_def)
  show ?case using clear_map_live [OF ih(1), of k] ih c Suc.prems by (auto simp: nth_list_update live_ok_def)
qed (use assms in simp)

definition unmapped :: "nat \<Rightarrow> rank_segs \<Rightarrow> bool" where
  "unmapped n r \<longleftrightarrow> r_map r = replicate n zero_map \<and> r_live r = {#}"

lemma establish_failed_clears:
  assumes "live_ok srcs r" "lcv < length srcs" "\<forall>i < length srcs. lcv < i \<longrightarrow> r_map r ! i = zero_map"
  shows "unmapped (length srcs) (establish_failed srcs lcv r) \<and> \<not> r_fd (establish_failed srcs lcv r)"
proof -
  let ?r = "establish_failed srcs lcv r"
  have c: "live_ok srcs ?r \<and> (\<forall>i < length srcs. r_map ?r ! i = zero_map) \<and> \<not> r_fd ?r"
    using clear_maps [of srcs "r\<lparr>r_fd := False\<rparr>" "lcv + 1"] assms unfolding establish_failed_def by auto
  then have m: "r_map ?r = replicate (length srcs) zero_map" by (auto simp: live_ok_def intro: nth_equalityI)
  have "r_live ?r = (\<Sum>i<length srcs. {#})" using c by (auto simp: live_ok_def slot_live_def intro: sum.cong)
  then show ?thesis using c m by (simp add: unmapped_def)
qed

text \<open>The state at the head of the loop: the segments below \<open>lcv\<close> are mapped everywhere, the others nowhere.\<close>

definition estab_inv :: "int \<Rightarrow> dthread_shmsrc_t list \<Rightarrow> nat \<Rightarrow> rank_segs list \<Rightarrow> shmem \<Rightarrow> bool" where
  "estab_inv pg srcs lcv ranks m \<longleftrightarrow> ranks \<noteq> [] \<and>
     (\<forall>r \<in> set ranks. live_ok srcs r \<and> (\<forall>i < length srcs. lcv \<le> i \<longrightarrow> r_map r ! i = zero_map)) \<and> (\<forall>i < lcv. seg_done pg srcs i ranks m)"

lemma md_done_other:
  assumes "md_done pg src i m" "other_mds j m m'" "i \<noteq> j" "i < 2 ^ 31" "j < 2 ^ 31"
  shows "md_done pg src i m'"
proof -
  have "(of_nat i :: u64) \<noteq> of_nat j"
  proof
    assume "(of_nat i :: u64) = of_nat j"
    then have "unat (of_nat i :: u64) = unat (of_nat j :: u64)" by simp
    then show False using assms(3-5) by (simp add: unat_of_nat)
  qed
  then show ?thesis using assms(1,2) by (simp add: md_done_def other_mds_def)
qed

lemma estab_inv_step:
  assumes "estab_inv pg srcs lcv ranks m" "lcv < length srcs" "length srcs < 2 ^ 31"
    "moved_all srcs lcv ranks ranks'" "other_mds lcv m m'" "seg_done pg srcs lcv ranks' m'"
  shows "estab_inv pg srcs (lcv + 1) ranks' m'"
proof -
  have mo: "\<exists>r \<in> set ranks. live_ok srcs r' \<and> (\<forall>j. j \<noteq> lcv \<longrightarrow> r_map r' ! j = r_map r ! j)" if "r' \<in> set ranks'" for r'
    using assms(4) that by (auto simp: moved_all_def moved_only_def)
  have "seg_done pg srcs i ranks' m'" if i: "i < lcv" for i
  proof -
    have sd: "seg_done pg srcs i ranks m" using assms(1) i by (simp add: estab_inv_def)
    then have "md_done pg (srcs ! i) i m'" using md_done_other [OF _ assms(5)] i assms(2,3) by (simp add: seg_done_def)
    moreover have "\<exists>r \<in> set ranks. r_map r' ! i = r_map r ! i" if "r' \<in> set ranks'" for r' using mo [OF that] i by (metis nat_neq_iff)
    ultimately show ?thesis using sd unfolding seg_done_def by metis
  qed
  then have "\<forall>i < lcv + 1. seg_done pg srcs i ranks' m'" using assms(6) by (auto simp: less_Suc_eq)
  moreover have "live_ok srcs r' \<and> (\<forall>i < length srcs. lcv + 1 \<le> i \<longrightarrow> r_map r' ! i = zero_map)" if "r' \<in> set ranks'" for r'
    using mo [OF that] assms(1) unfolding estab_inv_def by fastforce
  ultimately show ?thesis using assms(4) by (simp add: estab_inv_def moved_all_def)
qed

lemma establish_from_all:
  assumes pg: "pgsz_ok pg" and es: "\<And>l k i. sys_ok pg (env l k i)" and src: "\<forall>src \<in> set srcs. src_ok src" and n: "length srcs < 2 ^ 31"
  shows "lcv \<le> length srcs \<Longrightarrow> estab_inv pg srcs lcv ranks m \<Longrightarrow> establish_from pg srcs env lcv ranks m = (rv, ranks', m') \<Longrightarrow>
    ranks' \<noteq> [] \<and> (if rv = 0 then estab_inv pg srcs (length srcs) ranks' m' else \<forall>r \<in> set ranks'. unmapped (length srcs) r \<and> \<not> r_fd r)"
proof (induction "length srcs - lcv" arbitrary: lcv ranks m)
  case 0
  then show ?case by (auto simp: establish_from.simps [of pg srcs env lcv] estab_inv_def)
next
  case (Suc d)
  then have l: "lcv < length srcs" by simp
  have rk: "ranks \<noteq> []" "\<forall>r \<in> set ranks. live_ok srcs r \<and> mapping (r_map r ! lcv) = 0" using Suc.prems(2) l by (auto simp: estab_inv_def)
  obtain rv1 ranks1 m1 where e: "establish_seg pg (srcs ! lcv) lcv (env lcv) ranks m = (rv1, ranks1, m1)" by (metis prod_cases3)
  have so: "src_ok (srcs ! lcv)" using src l by simp
  note seg = establish_seg_ranks [OF pg es so l rk e]
  have step: "establish_from pg srcs env lcv ranks m =
      (if rv1 \<noteq> 0 then (rv1, map (establish_failed srcs lcv) ranks1, m1) else establish_from pg srcs env (lcv + 1) ranks1 m1)"
    using l e by (subst establish_from.simps) simp
  show ?case
  proof (cases "rv1 = 0")
    case True
    then have "estab_inv pg srcs (lcv + 1) ranks1 m1" using estab_inv_step [OF Suc.prems(2) l n] seg by blast
    moreover have "establish_from pg srcs env (lcv + 1) ranks1 m1 = (rv, ranks', m')" using step True Suc.prems(3) by simp
    ultimately show ?thesis using Suc.hyps(1) [of "lcv + 1" ranks1 m1] Suc.hyps(2) l by simp
  next
    case False
    have "unmapped (length srcs) (establish_failed srcs lcv r) \<and> \<not> r_fd (establish_failed srcs lcv r)" if r: "r \<in> set ranks1" for r
    proof (rule establish_failed_clears [OF _ l])
      obtain r0 where "r0 \<in> set ranks" "moved_only srcs lcv r0 r" using seg r by (auto simp: moved_all_def)
      then show "live_ok srcs r" "\<forall>i < length srcs. lcv < i \<longrightarrow> r_map r ! i = zero_map"
        using Suc.prems(2) by (auto simp: moved_only_def estab_inv_def)
    qed
    moreover have "rv = rv1" "ranks' = map (establish_failed srcs lcv) ranks1" using step False Suc.prems(3) by simp_all
    ultimately show ?thesis using False seg by (simp add: moved_all_def)
  qed
qed

lemma estab_inv_start:
  assumes "ranks \<noteq> []" "\<forall>r \<in> set ranks. unmapped (length srcs) r"
  shows "estab_inv pg srcs 0 ranks m"
proof -
  have "(\<Sum>i<length srcs. slot_live srcs (replicate (length srcs) zero_map) i) = (\<Sum>i<length srcs. {#})"
    by (rule sum.cong) (simp_all add: slot_live_def)
  then show ?thesis using assms by (auto simp: estab_inv_def live_ok_def unmapped_def)
qed

subsection \<open>Properties\<close>

text \<open>
  C28. The segments are established on all ranks or on none.  When the collective operation
  succeeds, every rank has each segment mapped with the size of its source and with the metadata at
  the same offset, and a segment that asks for a uniform mapping is at the same address on
  all ranks; when it fails, with whatever error and after whatever attempts, no rank has
  a mapping left, in its table or leaked by \<^verbatim>\<open>mmap\<close>, and no file is open.  The operation always ends,
  after at most ten attempts for a segment.
\<close>

theorem shmseg_establish_all_or_none:
  assumes "pgsz_ok pg" and "\<And>l k i. sys_ok pg (env l k i)" and "\<forall>src \<in> set srcs. src_ok src" and "length srcs < 2 ^ 31"
    and "ranks \<noteq> []" and "\<forall>r \<in> set ranks. unmapped (length srcs) r"
    and "dthread_shmseg_establish pg srcs env ranks m = (rv, ranks', m')"
  shows "if rv = 0 then
      \<forall>i < length srcs. (\<forall>r \<in> set ranks'. mapping (r_map r ! i) \<noteq> 0 \<and> map_size (r_map r ! i) = dt_mmsize (srcs ! i) \<and>
          md_offset (r_map r ! i) = src_place pg (srcs ! i)) \<and>
        (is_umap (srcs ! i) \<longrightarrow> (\<exists>a. \<forall>r \<in> set ranks'. mapping (r_map r ! i) = a))
    else \<forall>r \<in> set ranks'. r_map r = replicate (length srcs) zero_map \<and> r_live r = {#} \<and> \<not> r_fd r"
proof -
  note run = assms(7) [unfolded dthread_shmseg_establish_def]
  have "if rv = 0 then estab_inv pg srcs (length srcs) ranks' m' else \<forall>r \<in> set ranks'. unmapped (length srcs) r \<and> \<not> r_fd r"
    using establish_from_all [OF assms(1-4) le0 estab_inv_start [OF assms(5,6)] run] by blast
  then show ?thesis by (auto simp: estab_inv_def seg_done_def seg_fine_def unmapped_def split: if_splits)
qed

text \<open>The state in which the shared memory code of a rank finds the segments.\<close>

definition seg_view :: "int \<Rightarrow> rank_segs \<Rightarrow> shmrs" where
  "seg_view pg r = \<lparr>shm_rank = 0, pagesize = pg, shmmap = r_map r, usrmops = [], defarena = None\<rparr>"

lemma md_done_ok:
  assumes pg: "pgsz_ok pg" and md: "md_done pg (srcs ! i) i m" and fine: "seg_fine pg (srcs ! i) (r_map r ! i)"
    and i: "i < length (r_map r)" "i < 2 ^ 31"
    and nw: "unat (dt_reserve_front (srcs ! i)) + unat (dt_reserve_back (srcs ! i)) < 2 ^ 64"
  shows "seg_ok (seg_view pg r) (of_nat i) m \<and>
    unat (dt_reserve_front (srcs ! i)) \<le> unat (md_offset (r_map r ! i)) \<and>
    unat (md_offset (r_map r ! i)) < unat (dt_reserve_front (srcs ! i)) + nat pg \<and>
    (mmapped (srcs ! i) \<longrightarrow> nat pg dvd unat (md_offset (r_map r ! i))) \<and>
    unat (first_avail (seg_md (seg_view pg r) (of_nat i) m)) = unat (md_offset (r_map r ! i)) + nat pg \<and>
    unat (end_avail (seg_md (seg_view pg r) (of_nat i) m)) + unat (dt_reserve_back (srcs ! i)) = unat (dt_mmsize (srcs ! i))"
proof -
  let ?src = "srcs ! i" and ?off = "src_place pg (srcs ! i)"
  have u: "unat (of_nat i :: u64) = i" using i(2) by (simp add: unat_of_nat)
  have loc: "seg_loc (seg_view pg r) (of_nat i) = (of_nat i, ?off)" using fine u by (simp add: seg_loc_def seg_view_def seg_fine_def)
  obtain v where v: "seg_mds m (of_nat i, ?off) = (new_md pg ?src i ?off)\<lparr>umapaddr := v\<rparr>" and sp: "src_space pg ?src" using md by (auto simp: md_done_def)
  note b = md_bounds(1,2,6) [OF pg sp nw src_place_def] md_bounds(3-5) [where idx = i, OF pg sp nw src_place_def]
  have "seg_md_magic (new_md pg ?src i ?off) = DTHREAD_SEG_MD_MAGIC" by (simp add: new_md_def)
  then show ?thesis unfolding seg_ok_def loc v
    using b i(1) u fine by (simp add: seg_view_def seg_fine_def word_le_nat_alt split: if_splits)
qed


subsection \<open>Two ranks\<close>

text \<open>
  A device segment with a uniform mapping: the second rank has the hint occupied in its first attempt
  and gets a higher address, to which the first rank moves in the second attempt.
\<close>

definition ex_src :: dthread_shmsrc_t where
  "ex_src = \<lparr>dt_src = ''dax0'', dt_srcflags = 9, dt_mmoffset = 0, dt_mmsize = 0x100000, dt_addr = 0, dt_reserve_front = 0x10, dt_reserve_back = 0x20\<rparr>"

definition ex_sys :: "nat \<Rightarrow> nat \<Rightarrow> nat \<Rightarrow> sys_env" where
  "ex_sys l k i = \<lparr>se_open = 0, se_fstat = Inr 0, se_ftruncate = 0,
     se_mmap = (\<lambda>h. Inr (if k = 0 then 0x7000000 else if k = 1 then 0x8000000 else if h = 0x8000000 then h else 0x9000000)), se_spin = 0\<rparr>"

definition ex_ranks :: "rank_segs list" where
  "ex_ranks = [\<lparr>r_map = [zero_map], r_fd = False, r_live = {#}\<rparr>, \<lparr>r_map = [zero_map], r_fd = False, r_live = {#}\<rparr>]"

definition ex_estab :: "int \<times> rank_segs list \<times> shmem" where
  "ex_estab = dthread_shmseg_establish 4096 [ex_src] ex_sys ex_ranks seg_ex"

lemma ex_estab_hyps:
  "pgsz_ok 4096" "sys_ok 4096 (ex_sys l k i)" "\<forall>src \<in> set [ex_src]. src_ok src" "length [ex_src] < 2 ^ 31" "ex_ranks \<noteq> []"
  "\<forall>r \<in> set ex_ranks. unmapped (length [ex_src]) r"
  by (simp_all add: pgsz_ok_def sys_ok_def ex_sys_def src_ok_def ex_src_def src_type_def ex_ranks_def unmapped_def)

declare seg_attempts.simps [code] establish_from.simps [code]

lemma ex_estab_maps: "fst ex_estab = 0 \<and> map (\<lambda>r. mapping (r_map r ! 0)) (fst (snd ex_estab)) = [0x8000000, 0x8000000]"
  by code_simp

theorem shmseg_establish_all_or_none_witness:
  "fst ex_estab = 0 \<and> (\<exists>a. \<forall>r \<in> set (fst (snd ex_estab)). mapping (r_map r ! 0) = a \<and> a \<noteq> 0)"
proof -
  have "dthread_shmseg_establish 4096 [ex_src] ex_sys ex_ranks seg_ex = (0, fst (snd ex_estab), snd (snd ex_estab))"
    using ex_estab_maps by (simp add: ex_estab_def prod_eq_iff)
  note all = shmseg_establish_all_or_none [OF ex_estab_hyps this]
  have "is_umap ex_src" by code_simp
  then show ?thesis using all ex_estab_maps by auto
qed


subsection \<open>Reserves that wrap\<close>

text \<open>
  The sum of the reserves is computed modulo \<open>2 ^ 64\<close>.  A back reserve that is nearly that
  large passes the test against the size, and the segment is established with a line
  \<^verbatim>\<open>end_avail\<close> beyond its end.
\<close>

definition wrap_src :: dthread_shmsrc_t where
  "wrap_src = ex_src\<lparr>dt_reserve_front := 0x2000, dt_reserve_back := 0xfffffffffffff000\<rparr>"

lemma reserve_sum_wraps:
  "let (rv, r, m) = establish 4096 wrap_src 0 0 True (ex_sys 0 0 0) (hd ex_ranks) seg_ex
   in rv = 0 \<and> map_size (r_map r ! 0) < end_avail (seg_md (seg_view 4096 r) 0 m)"
  by code_simp

end
