(* ===== verification/Spec2Isabelle.thy ===== *)
theory Spec2Isabelle
  imports Dt_Drain Dt_Behaviour Dt_Arenas Dt_Establish
begin

text \<open>
  Verification of dthread, a library that runs the threads of one program on the
  ranks of an MPI job.

  \<^bold>\<open>The program.\<close>  Every rank has three kinds of threads.  Application threads call the
  library (\<^verbatim>\<open>dt_threadops.c\<close>): a call writes a message to a queue entry, queues the request of its
  slot for the manager and waits.  The manager (\<^verbatim>\<open>dt_mgrthread.c\<close>) takes requests and received messages
  off the local queues (\<^verbatim>\<open>dt_queuing.c\<close>), keeps the tables of threads, and queues messages for other
  ranks; rank 0 manages the global table of threads.  The MPI thread (\<^verbatim>\<open>dt_mpithread.c\<close>) sends what is queued and
  queues what arrives.  All ranks share memory segments (\<^verbatim>\<open>dt_segops.c\<close>), which hold malloc arenas
  (\<^verbatim>\<open>dt_shmops.c\<close>) with references that are valid on every rank (\<^verbatim>\<open>dt_ops.c\<close>).

  \<^bold>\<open>Conventions.\<close>  C \<^verbatim>\<open>uint32_t\<close> and \<^verbatim>\<open>uint64_t\<close> are words and wrap; \<^verbatim>\<open>int\<close> is \<^typ>\<open>int\<close>; NULL and -1 results
  are \<open>None\<close>; a fault of the C code (NULL dereference, index out of bounds, endless loop,
  undefined shift) is an \<open>Inl\<close> of \<open>Dt_Prelude.fault\<close>.  A section under a mutex or spin lock is one step.  A turn
  of the MPI thread and a call of the malloc interface are one step although they have several such
  sections; a reallocation that moves its block has the parts allocation, copy and release, each of which
  is also a step by itself (\<open>Dt_Arenas.shm_step\<close>).
  Answers of malloc, pthreads, MPI and the system are arguments or lists in the state, and what is
  assumed of them is a named hypothesis (\<open>answers_ok\<close>, \<open>testsome_ok\<close>, \<open>sys_ok\<close>).

  \<^bold>\<open>Queues, messages, tables.\<close>
  \<^item> \<open>Dt_Prelude\<close>, \<open>Dt_Types\<close>: shared facts; the records and messages of \<^verbatim>\<open>dthread.h\<close>, \<^verbatim>\<open>dt_reqmsg.h\<close>, \<^verbatim>\<open>dt_queuing.h\<close> and
    \<^verbatim>\<open>dt_internal.h\<close>, \<open>dtrs\<close> being the state \<^verbatim>\<open>dthread_dtrs_t\<close> of a rank.
  \<^item> \<open>Dt_Queuing\<close>: every operation of \<^verbatim>\<open>dt_queuing.c\<close> and the protocol \<open>dtq_step\<close> of the threads that
    share the queues: each entry is in one place, no wake-up is lost, sends keep their order,
    a draindown is exact.
  \<^item> \<open>Dt_Tables\<close>: thread tables, transaction numbers, handles: allocation is exact, the loop of
    \<^verbatim>\<open>get_free_seq\<close> ends, stale handles are rejected.
  \<^item> \<open>Dt_Router\<close>: the broadcast tree reaches every rank from one parent in logarithmic depth.

  \<^bold>\<open>Manager, application threads, MPI thread.\<close>
  \<^item> \<open>Dt_Manager\<close>: every handler of \<^verbatim>\<open>dt_mgrthread.c\<close>.  \<open>Dt_Frames\<close>, \<open>Dt_Requests\<close>, \<open>Dt_Invariant\<close>: the handlers keep the
    invariant of the tables and the requests for every message.  \<open>Dt_Flow\<close>: the handlers are runs of the
    queue protocol that conserve entries.  \<open>Dt_Behaviour\<close>: what join, detach and the end of a thread do.
    \<open>Dt_Slots\<close>: what the handlers do to the slots of application threads.
  \<^item> \<open>Dt_Threadops\<close>, \<open>Dt_Calls\<close>: the calls of \<^verbatim>\<open>dt_threadops.c\<close> and the wrappers of \<^verbatim>\<open>dt_mgrthread.c\<close>, each as a part
    before and a part after its wait, and their effect on the rank.
  \<^item> \<open>Dt_Rank\<close>, \<open>Dt_Rank_Props\<close>: all threads of a rank interleaved in any order on any messages
    (\<open>rank_step\<close>, \<open>rank_reach\<close>): the rank refines the queue protocol, the request of every waiting call
    is in exactly one place, and a reply reaches the call that waits for it and no other.
  \<^item> \<open>Dt_Mpithread\<close>: the table of started sends and the turns of \<^verbatim>\<open>mpit_main\<close>: a test releases exactly the
    finished sends, the compaction of the table loses nothing, and the thread refines the rank.
    The only fault of a turn is the reception of a message that is longer than a frame.
  \<^item> \<open>Dt_Drain\<close>: a shutdown finishes: the turns of the MPI thread, between any steps of the other threads,
    drain the send queue as soon as MPI has made progress often enough, and wake the manager.

  \<^bold>\<open>Shared memory.\<close>
  \<^item> \<open>Dt_Memory\<close>, \<open>Dt_Shm\<close>: bytes of a segment, mappings, references and pointers: round trip and bounds.
  \<^item> \<open>Dt_Alloc\<close>: the interfaces \<open>block_allocator\<close> and \<open>block_store\<close> with their client lemmas, interpreted on the
    segment allocator and on both malloc drivers.
  \<^item> \<open>Dt_Segops\<close>, \<open>Dt_Establish\<close>: allocation from segments, and \<^verbatim>\<open>dthread_shmseg_establish\<close> as one collective
    function of all ranks: the segments are mapped on all ranks or on none, uniformly where this is
    asked for, and are then in the invariant of the allocator.
  \<^item> \<open>Dt_Break\<close>, \<open>Dt_Bsd\<close>, \<open>Dt_Bsd_Store\<close>, \<open>Dt_Bsd_Props\<close>: the two drivers of \<^verbatim>\<open>dt_shmops.c\<close> as stores of blocks
    that are as long as requested; for sizes from 1 to \<open>2 ^ 64 - 32\<close> ("break") and up to \<open>2 ^ 30\<close> ("bsd").
  \<^item> \<open>Dt_Shmops\<close>, \<open>Dt_Frame\<close>, \<open>Dt_Arenas\<close>: the malloc interface over many arenas and ranks: blocks never overlap, are as
    long as requested, keep their contents and can be freed by any rank, by pointer or by reference.
    The sizes are those of the drivers without 0: a reference of length 0 stands for no block.

  \<^bold>\<open>Bounds and loops.\<close>  There is no fuel.  \<^verbatim>\<open>get_free_seq\<close> is a partial function that is proved to return
  while fewer requests are pending than the rank has numbers; the compaction, the attempts to map a
  segment (at most ten) and all other loops are total functions with termination proofs.  The
  counts of slots and of list lengths are natural numbers.

  \<^bold>\<open>Faults of the code.\<close>  Some theorems state what goes wrong: truncated DETACH and CANCEL messages lose
  their entry (\<open>Dt_Flow\<close>); sizes near \<open>2 ^ 64\<close> wrap in the segment and break allocators and in the sum of
  the reserves of a segment; \<^verbatim>\<open>BUCKSIZE\<close> shifts out of range (\<open>Dt_Bsd_Props\<close>); a message longer than a frame
  overruns it, and a failed start of the MPI thread leaves \<^verbatim>\<open>dthread_run\<close> waiting (\<open>Dt_Mpithread\<close>); an arena of
  size 0 in an almost full segment writes its metadata beyond its block (\<open>Dt_Shmops\<close>).

  \<^bold>\<open>Not modelled.\<close>
  \<^item> \<^verbatim>\<open>dt_init.c\<close>, apart from the state it leaves (\<open>dtrs_init\<close>): the checks of the arguments, each of which ends
    the job, and the bootstrap allocations.
  \<^item> \<^verbatim>\<open>dt_syncops.c\<close>, \<^verbatim>\<open>dt_syncops_pshared.c\<close>: calls of process-shared pthread primitives; their meaning is
    the atomicity of locked sections.
  \<^item> \<^verbatim>\<open>mlog.c\<close>, \<^verbatim>\<open>mlog.h\<close>: logging, which does not change the state of the library.
  \<^item> \<^verbatim>\<open>xthread\<close>: a front end that forwards to pthreads or to the calls modelled here; the tests
    and example programs; build files.
  \<^item> Malloc drivers of the application (entries of \<open>usrmops\<close>): the interface looks them up and calls them, but
    no property covers the arenas they manage.
  \<^item> The delivery of messages by MPI: a rank is verified for arbitrary incoming messages, so no
    property speaks of the composed state of several ranks except those on shared memory.
\<close>

end
